(* ===== verification/Rx_Prelude.thy ===== *)
theory Rx_Prelude
  imports Main
begin

text \<open>
  What every component of the library shares: pointers, faults, the state-and-fault
  programs that C functions are translated to, the part of the process state that is
  common to all components (allocation and the application's own state), and the
  lemmas that evaluate programs symbolically.

  A C function becomes a \<open>prog\<close>: a function from the process state to either a
  fault or a result together with the new state.  Everything undefined or fatal in C is a
  fault: an access to an object that is not (or no longer) allocated is
  \<open>UseAfterFree\<close>, locking a non-recursive mutex that is held is \<open>LockHeld\<close>,
  \<open>abort()\<close> is \<open>Aborted\<close>, a failing \<open>assert\<close> is \<open>AssertFailed\<close>,
  waiting for an event that can no longer happen is \<open>Deadlock\<close>,
  and a loop that did not end within its fuel is \<open>OutOfFuel\<close>.  The error codes and
  \<open>NULL\<close> results of the API are ordinary results.
\<close>

section \<open>Pointers\<close>

type_synonym addr = nat

text \<open>A C pointer is an optional address; \<open>NULL\<close> is \<open>None\<close>.\<close>

type_synonym ptr = "addr option"

abbreviation NULL :: ptr where
  "NULL \<equiv> None"

section \<open>Programs with faults\<close>

datatype fault = UseAfterFree | LockHeld | Aborted | AssertFailed | Deadlock | OutOfFuel

type_synonym ('s, 'a) prog = "'s \<Rightarrow> fault + ('a \<times> 's)"

definition ret :: "'a \<Rightarrow> ('s, 'a) prog" where
  "ret a s = Inr (a, s)"

definition fail :: "fault \<Rightarrow> ('s, 'a) prog" where
  "fail e s = Inl e"

definition bindm :: "('s, 'a) prog \<Rightarrow> ('a \<Rightarrow> ('s, 'b) prog) \<Rightarrow> ('s, 'b) prog" where
  "bindm m f s = (case m s of Inl e \<Rightarrow> Inl e | Inr (a, s') \<Rightarrow> f a s')"

definition gets :: "('s \<Rightarrow> 'a) \<Rightarrow> ('s, 'a) prog" where
  "gets f s = Inr (f s, s)"

definition modify :: "('s \<Rightarrow> 's) \<Rightarrow> ('s, unit) prog" where
  "modify f s = Inr ((), f s)"

text \<open>An optional action: calling a function pointer that may be \<open>NULL\<close>.\<close>

definition when_some :: "'f option \<Rightarrow> ('f \<Rightarrow> ('s, unit) prog) \<Rightarrow> ('s, unit) prog" where
  "when_some p f = (case p of None \<Rightarrow> ret () | Some x \<Rightarrow> f x)"

named_theorems prog_defs \<open>definitions of programs, unfolded to run them symbolically\<close>

lemma ret_apply [simp]: "ret a s = Inr (a, s)"
  by (simp add: ret_def)

lemma fail_apply [simp]: "fail e s = Inl e"
  by (simp add: fail_def)

lemma gets_apply [simp]: "gets f s = Inr (f s, s)"
  by (simp add: gets_def)

lemma modify_apply [simp]: "modify f s = Inr ((), f s)"
  by (simp add: modify_def)

lemma when_some_None [simp]: "when_some None f = ret ()"
  by (simp add: when_some_def)

lemma when_some_Some [simp]: "when_some (Some x) f = f x"
  by (simp add: when_some_def)

text \<open>A bind runs on once its first program is known to have returned.\<close>

lemma bindm_Inr [simp]: "m s = Inr (a, s') \<Longrightarrow> bindm m f s = f a s'"
  by (simp add: bindm_def)

lemma bindm_Inl [simp]: "m s = Inl e \<Longrightarrow> bindm m f s = Inl e"
  by (simp add: bindm_def)

lemma bindm_ret [simp]: "bindm (ret a) f = f a"
  by (rule ext) simp

lemma bindm_ret_right: "bindm m ret = m"
  by (rule ext) (simp add: bindm_def split: sum.split)

text \<open>Pushing a continuation into a branch.\<close>

lemma bindm_branch:
  "bindm (if b then m else m') k = (if b then bindm m k else bindm m' k)"
  "bindm (case p of None \<Rightarrow> m | Some x \<Rightarrow> g x) k = (case p of None \<Rightarrow> bindm m k | Some x \<Rightarrow> bindm (g x) k)"
  "(\<lambda>s. Inr (x, s)) = ret x"
  by (simp_all add: fun_eq_iff split: option.split)

lemma bindm_assoc: "bindm (bindm m f) g = bindm m (\<lambda>a. bindm (f a) g)"
  by (rule ext) (simp add: bindm_def split: sum.splits prod.splits)

lemma bindm_eq_Inr_iff:
  "bindm m f s = Inr r \<longleftrightarrow> (\<exists>a s'. m s = Inr (a, s') \<and> f a s' = Inr r)"
  by (auto simp: bindm_def split: sum.splits prod.splits)

lemma bindm_if [simp]: "bindm (if b then m else m') f = (if b then bindm m f else bindm m' f)"
  by simp

text \<open>The state a program leaves behind; a faulting program leaves the state as it was.\<close>

definition exec :: "('s, 'a) prog \<Rightarrow> 's \<Rightarrow> 's" where
  "exec m s = (case m s of Inl e \<Rightarrow> s | Inr (a, s') \<Rightarrow> s')"

lemma exec_Inr [simp]: "m s = Inr (a, s') \<Longrightarrow> exec m s = s'"
  by (simp add: exec_def)

section \<open>The state shared by all components\<close>

text \<open>
  \<open>user\<close> is the application's own state, which only user callbacks change.
  Every fallible system call (\<open>malloc\<close>, \<open>calloc\<close>, \<open>strdup\<close>,
  \<open>eventfd\<close>, \<open>pthread_create\<close>, \<open>pthread_mutex_init\<close>) consumes the next
  number of \<open>next_addr\<close>; the oracle \<open>sys_ok\<close> says whether that call
  succeeds, and a successful allocation returns the number as its address.  Addresses are
  therefore never reused, so a stale pointer never aliases a live object.
\<close>

record 'u sys =
  user :: 'u
  next_addr :: nat
  sys_ok :: "nat \<Rightarrow> bool"

definition malloc :: "(('u, 'z) sys_scheme, ptr) prog" where
  "malloc s = Inr (if sys_ok s (next_addr s) then Some (next_addr s) else NULL,
                   s\<lparr>next_addr := Suc (next_addr s)\<rparr>)"

text \<open>A fallible system call with no memory to return: whether it succeeded.\<close>

definition sys_try :: "(('u, 'z) sys_scheme, bool) prog" where
  "sys_try s = Inr (sys_ok s (next_addr s), s\<lparr>next_addr := Suc (next_addr s)\<rparr>)"

lemma malloc_ok [simp]:
  "sys_ok s (next_addr s) \<Longrightarrow>
   malloc s = Inr (Some (next_addr s), s\<lparr>next_addr := Suc (next_addr s)\<rparr>)"
  by (simp add: malloc_def)

lemma malloc_oom [simp]:
  "\<not> sys_ok s (next_addr s) \<Longrightarrow> malloc s = Inr (NULL, s\<lparr>next_addr := Suc (next_addr s)\<rparr>)"
  by (simp add: malloc_def)

lemma sys_try_apply [simp]:
  "sys_try s = Inr (sys_ok s (next_addr s), s\<lparr>next_addr := Suc (next_addr s)\<rparr>)"
  by (simp add: sys_try_def)

section \<open>Typed heaps\<close>

text \<open>
  A typed heap is a map from addresses to objects.  Reading, updating and freeing an object
  that is not allocated is the fault \<open>UseAfterFree\<close>.  The heap of a component is a
  field of the state record, given by its getter and its updater.
\<close>

definition obj_at :: "('s \<Rightarrow> addr \<rightharpoonup> 'o) \<Rightarrow> addr \<Rightarrow> ('s, 'o) prog" where
  "obj_at h a s = (case h s a of None \<Rightarrow> Inl UseAfterFree | Some x \<Rightarrow> Inr (x, s))"

definition upd_obj ::
  "('s \<Rightarrow> addr \<rightharpoonup> 'o) \<Rightarrow> (((addr \<rightharpoonup> 'o) \<Rightarrow> (addr \<rightharpoonup> 'o)) \<Rightarrow> 's \<Rightarrow> 's) \<Rightarrow> addr \<Rightarrow> ('o \<Rightarrow> 'o) \<Rightarrow>
   ('s, unit) prog" where
  "upd_obj h u a f s =
     (case h s a of None \<Rightarrow> Inl UseAfterFree | Some x \<Rightarrow> Inr ((), u (\<lambda>_. (h s)(a \<mapsto> f x)) s))"

definition new_obj ::
  "('s \<Rightarrow> addr \<rightharpoonup> 'o) \<Rightarrow> (((addr \<rightharpoonup> 'o) \<Rightarrow> (addr \<rightharpoonup> 'o)) \<Rightarrow> 's \<Rightarrow> 's) \<Rightarrow> addr \<Rightarrow> 'o \<Rightarrow> ('s, unit) prog" where
  "new_obj h u a x s = Inr ((), u (\<lambda>_. (h s)(a \<mapsto> x)) s)"

definition free_obj ::
  "('s \<Rightarrow> addr \<rightharpoonup> 'o) \<Rightarrow> (((addr \<rightharpoonup> 'o) \<Rightarrow> (addr \<rightharpoonup> 'o)) \<Rightarrow> 's \<Rightarrow> 's) \<Rightarrow> addr \<Rightarrow>
   ('s, unit) prog" where
  "free_obj h u a s =
     (case h s a of None \<Rightarrow> Inl UseAfterFree | Some x \<Rightarrow> Inr ((), u (\<lambda>_. (h s)(a := None)) s))"

lemma obj_at_Some [simp]: "h s a = Some x \<Longrightarrow> obj_at h a s = Inr (x, s)"
  by (simp add: obj_at_def)

lemma obj_at_None [simp]: "h s a = None \<Longrightarrow> obj_at h a s = Inl UseAfterFree"
  by (simp add: obj_at_def)

lemma upd_obj_Some [simp]:
  "h s a = Some x \<Longrightarrow> upd_obj h u a f s = Inr ((), u (\<lambda>_. (h s)(a \<mapsto> f x)) s)"
  by (simp add: upd_obj_def)

lemma upd_obj_None [simp]: "h s a = None \<Longrightarrow> upd_obj h u a f s = Inl UseAfterFree"
  by (simp add: upd_obj_def)

lemma new_obj_apply [simp]: "new_obj h u a x s = Inr ((), u (\<lambda>_. (h s)(a \<mapsto> x)) s)"
  by (simp add: new_obj_def)

lemma free_obj_Some [simp]:
  "h s a = Some x \<Longrightarrow> free_obj h u a s = Inr ((), u (\<lambda>_. (h s)(a := None)) s)"
  by (simp add: free_obj_def)

lemma free_obj_None [simp]: "h s a = None \<Longrightarrow> free_obj h u a s = Inl UseAfterFree"
  by (simp add: free_obj_def)

end
