(* ===== verification/Intrusive_List.thy ===== *)
theory Intrusive_List
  imports Rx_Prelude
begin

text \<open>
  Intrusive doubly linked lists.  Two components keep one: a cancellation token its list of
  registered callbacks (\<^verbatim>\<open>src/ufsrv_cancellation/ufsrv_cancellation.c\<close>) and a thread its list of
  coroutines that were created and never resumed (\<^verbatim>\<open>src/ufsrv_coroutine/ufsrv_coroutine.c\<close>).
  Both push at the head and unlink a given node in constant time with the same pointer code.
  The locale states what such code does to the three kinds of pointers; inside it the two
  operations are shown once to implement cons and removal on the abstract list.  Each
  component interprets the locale on its own operations.
\<close>

section \<open>The abstraction from pointers to lists\<close>

text \<open>
  \<open>dlist nx pv p h xs\<close>: from head pointer \<open>h\<close>, following the \<open>next\<close>
  pointers \<open>nx\<close> visits exactly \<open>xs\<close> and ends in \<open>NULL\<close>; every \<open>prev\<close>
  pointer \<open>pv\<close> points to the node visited before, the first one to \<open>p\<close>.
\<close>

fun dlist :: "(addr \<Rightarrow> ptr) \<Rightarrow> (addr \<Rightarrow> ptr) \<Rightarrow> ptr \<Rightarrow> ptr \<Rightarrow> addr list \<Rightarrow> bool" where
  "dlist nx pv p h [] \<longleftrightarrow> h = NULL"
| "dlist nx pv p h (x # xs) \<longleftrightarrow> h = Some x \<and> pv x = p \<and> dlist nx pv (Some x) (nx x) xs"

lemma dlist_cong:
  "(\<And>x. x \<in> set xs \<Longrightarrow> nx x = nx' x \<and> pv x = pv' x) \<Longrightarrow>
   dlist nx pv p h xs = dlist nx' pv' p h xs"
  by (induction xs arbitrary: p h) auto

lemma dlist_fun:
  "dlist nx pv p h xs \<Longrightarrow> dlist nx pv q h ys \<Longrightarrow> xs = ys"
  by (induction xs arbitrary: p q h ys; case_tac ys) auto

lemma dlist_upd_notin [simp]:
  "a \<notin> set xs \<Longrightarrow> dlist (nx(a := v)) pv p h xs = dlist nx pv p h xs"
  "a \<notin> set xs \<Longrightarrow> dlist nx (pv(a := w)) p h xs = dlist nx pv p h xs"
  by (auto intro!: dlist_cong)

lemma dlist_suffix: "dlist nx pv q g (as @ z # bs) \<Longrightarrow> \<exists>p. dlist nx pv p (Some z) (z # bs)"
  by (induction as arbitrary: q g) auto

text \<open>A list that starts behind a node does not come back to it.\<close>

lemma dlist_acyclic:
  assumes "dlist nx pv p (nx y) ys"
  shows "y \<notin> set ys"
proof
  assume "y \<in> set ys"
  then obtain us vs where ys: "ys = us @ y # vs" by (meson split_list)
  with assms obtain q where "dlist nx pv q (Some y) (y # vs)" by (metis dlist_suffix)
  then have "dlist nx pv (Some y) (nx y) vs" by simp
  with assms have "ys = vs" by (metis dlist_fun)
  with ys show False by simp
qed

lemma dlist_distinct: "dlist nx pv p h xs \<Longrightarrow> distinct xs"
  by (induction xs arbitrary: p h) (auto dest: dlist_acyclic)

text \<open>The same list followed along its next pointers only.\<close>

fun chain :: "(addr \<Rightarrow> ptr) \<Rightarrow> ptr \<Rightarrow> addr list \<Rightarrow> bool" where
  "chain nx h [] \<longleftrightarrow> h = NULL"
| "chain nx h (x # xs) \<longleftrightarrow> h = Some x \<and> chain nx (nx x) xs"

lemma chain_upd_notin [simp]: "a \<notin> set xs \<Longrightarrow> chain (nx(a := v)) h xs = chain nx h xs"
  by (induction xs arbitrary: h) auto

lemma dlist_chain: "dlist nx pv p h xs \<Longrightarrow> chain nx h xs"
  by (induction xs arbitrary: p h) auto

lemma dlist_cons:
  assumes "dlist nx pv NULL h xs" and "x \<notin> set xs"
  shows "dlist (nx(x := h)) (case h of None \<Rightarrow> pv(x := NULL) | Some y \<Rightarrow> pv(x := NULL, y := Some x))
           NULL (Some x) (x # xs)"
proof (cases xs)
  case Nil
  with assms show ?thesis by simp
next
  case (Cons y ys)
  with assms have "y \<notin> set ys"
    using dlist_acyclic [of nx pv "Some y" y ys] by simp
  with Cons assms show ?thesis by auto
qed

lemma dlist_split:
  assumes "dlist nx pv p h (ys @ x # zs)"
  shows "pv x = (if ys = [] then p else Some (last ys))"
    and "nx x = (if zs = [] then NULL else Some (hd zs))"
    and "ys = [] \<Longrightarrow> h = Some x"
  using assms by (induction ys arbitrary: p h; cases zs; auto)+

lemma dlist_remove:
  assumes "dlist nx pv p h (ys @ x # zs)" and "distinct (ys @ x # zs)"
  shows "dlist (if ys = [] then nx else nx(last ys := nx x))
               (if zs = [] then pv else pv(hd zs := pv x))
               p (if ys = [] then nx x else h) (ys @ zs)"
  using assms
proof (induction ys arbitrary: p h)
  case Nil
  then show ?case by (cases zs) (simp_all del: fun_upd_apply, simp)
next
  case (Cons y ys)
  then have IH: "dlist (if ys = [] then nx else nx(last ys := nx x))
               (if zs = [] then pv else pv(hd zs := pv x))
               (Some y) (if ys = [] then nx x else nx y) (ys @ zs)"
    by simp
  have pvy: "(if zs = [] then pv else pv(hd zs := pv x)) y = p" and h: "h = Some y"
    using Cons.prems by (cases zs; auto)+
  show ?case
  proof (cases "ys = []")
    case True
    then have "y \<notin> set (ys @ zs)" using Cons.prems by simp
    with IH True pvy h show ?thesis
      by (cases "zs = []") (simp_all del: fun_upd_apply, simp_all)
  next
    case False
    then have "last ys \<noteq> y" using Cons.prems(2) last_in_set by fastforce
    with IH False pvy h show ?thesis
      by (cases "zs = []") (simp_all del: fun_upd_apply add: fun_upd_other)
  qed
qed

text \<open>A node and its two neighbours are three different nodes.\<close>

definition separate :: "(addr \<Rightarrow> ptr) \<Rightarrow> (addr \<Rightarrow> ptr) \<Rightarrow> addr \<Rightarrow> bool" where
  "separate nx pv x \<longleftrightarrow> pv x \<noteq> Some x \<and> nx x \<noteq> Some x \<and> (pv x \<noteq> nx x \<or> pv x = NULL)"

section \<open>The interface of an intrusive list\<close>

text \<open>
  \<open>has s k\<close>: the list owner \<open>k\<close> exists (a live token, or the calling thread);
  \<open>live s x\<close>: node \<open>x\<close> is allocated; \<open>linkable s x\<close>: node \<open>x\<close> is
  allocated and initialised the way the linking code expects it.
\<close>

locale intrusive_list =
  fixes nxt :: "'s \<Rightarrow> addr \<Rightarrow> ptr"
    and prv :: "'s \<Rightarrow> addr \<Rightarrow> ptr"
    and hd_of :: "'s \<Rightarrow> 'k \<Rightarrow> ptr"
    and has :: "'s \<Rightarrow> 'k \<Rightarrow> bool"
    and live :: "'s \<Rightarrow> addr \<Rightarrow> bool"
    and linkable :: "'s \<Rightarrow> addr \<Rightarrow> bool"
    and link :: "'k \<Rightarrow> addr \<Rightarrow> 's \<Rightarrow> 's"
    and unlink :: "'k \<Rightarrow> addr \<Rightarrow> 's \<Rightarrow> 's"
  assumes link_head:
      "has s k \<Longrightarrow> linkable s x \<Longrightarrow> hd_of s k \<noteq> Some x \<Longrightarrow> pred_option (live s) (hd_of s k) \<Longrightarrow>
       hd_of (link k x s) = (hd_of s)(k := Some x)"
    and link_next:
      "has s k \<Longrightarrow> linkable s x \<Longrightarrow> hd_of s k \<noteq> Some x \<Longrightarrow> pred_option (live s) (hd_of s k) \<Longrightarrow>
       nxt (link k x s) = (nxt s)(x := hd_of s k)"
    and link_prev:
      "has s k \<Longrightarrow> linkable s x \<Longrightarrow> hd_of s k \<noteq> Some x \<Longrightarrow> pred_option (live s) (hd_of s k) \<Longrightarrow>
       prv (link k x s) =
         (case hd_of s k of None \<Rightarrow> (prv s)(x := NULL) | Some y \<Rightarrow> (prv s)(x := NULL, y := Some x))"
    and unlink_head:
      "has s k \<Longrightarrow> live s x \<Longrightarrow> separate (nxt s) (prv s) x \<Longrightarrow> pred_option (live s) (prv s x) \<Longrightarrow>
       pred_option (live s) (nxt s x) \<Longrightarrow>
       hd_of (unlink k x s) = (if prv s x = NULL then (hd_of s)(k := nxt s x) else hd_of s)"
    and unlink_next:
      "has s k \<Longrightarrow> live s x \<Longrightarrow> separate (nxt s) (prv s) x \<Longrightarrow> pred_option (live s) (prv s x) \<Longrightarrow>
       pred_option (live s) (nxt s x) \<Longrightarrow>
       nxt (unlink k x s) =
         (case prv s x of None \<Rightarrow> (nxt s)(x := NULL) | Some y \<Rightarrow> (nxt s)(y := nxt s x, x := NULL))"
    and unlink_prev:
      "has s k \<Longrightarrow> live s x \<Longrightarrow> separate (nxt s) (prv s) x \<Longrightarrow> pred_option (live s) (prv s x) \<Longrightarrow>
       pred_option (live s) (nxt s x) \<Longrightarrow>
       prv (unlink k x s) =
         (case nxt s x of None \<Rightarrow> (prv s)(x := NULL) | Some y \<Rightarrow> (prv s)(y := prv s x, x := NULL))"
begin

text \<open>\<open>is_list s k xs\<close>: owner \<open>k\<close> keeps exactly the nodes \<open>xs\<close>, head first.\<close>

definition is_list :: "'s \<Rightarrow> 'k \<Rightarrow> addr list \<Rightarrow> bool" where
  "is_list s k xs \<longleftrightarrow>
     has s k \<and> dlist (nxt s) (prv s) NULL (hd_of s k) xs \<and> distinct xs \<and> (\<forall>x\<in>set xs. live s x)"

lemma is_list_unique: "is_list s k xs \<Longrightarrow> is_list s k ys \<Longrightarrow> xs = ys"
  by (auto simp: is_list_def dest: dlist_fun)

lemma is_list_Nil: "has s k \<Longrightarrow> is_list s k [] \<longleftrightarrow> hd_of s k = NULL"
  by (simp add: is_list_def)

lemma hd_live: "is_list s k xs \<Longrightarrow> pred_option (live s) (hd_of s k)"
  by (cases xs) (auto simp: is_list_def)

text \<open>Linking a node that is not in the list is cons.\<close>

lemma link_dlist:
  assumes "is_list s k xs" and "linkable s x" and "x \<notin> set xs"
  shows "dlist (nxt (link k x s)) (prv (link k x s)) NULL (hd_of (link k x s) k) (x # xs)"
proof -
  have nx: "hd_of s k \<noteq> Some x"
    using assms by (cases xs) (auto simp: is_list_def)
  have h: "has s k" and d: "dlist (nxt s) (prv s) NULL (hd_of s k) xs"
    using assms by (auto simp: is_list_def)
  show ?thesis
    using dlist_cons [OF d assms(3)] link_head [OF h assms(2) nx hd_live [OF assms(1)]]
      link_next [OF h assms(2) nx hd_live [OF assms(1)]]
      link_prev [OF h assms(2) nx hd_live [OF assms(1)]]
    by simp
qed

text \<open>Linking into one list leaves every list without the node's neighbours alone.\<close>

lemma link_dlist_other:
  assumes "is_list s k xs" and "linkable s x" and "x \<notin> set xs"
    and "dlist (nxt s) (prv s) NULL (hd_of s k') ys" and "k' \<noteq> k"
    and "x \<notin> set ys" and "set xs \<inter> set ys = {}"
  shows "dlist (nxt (link k x s)) (prv (link k x s)) NULL (hd_of (link k x s) k') ys"
proof -
  have nx: "hd_of s k \<noteq> Some x"
    using assms by (cases xs) (auto simp: is_list_def)
  have h: "has s k" using assms by (simp add: is_list_def)
  have "y \<notin> set ys" if "hd_of s k = Some y" for y
    using assms(1,7) that by (cases xs) (auto simp: is_list_def)
  then show ?thesis
    using assms link_head [OF h assms(2) nx hd_live [OF assms(1)]]
      link_next [OF h assms(2) nx hd_live [OF assms(1)]]
      link_prev [OF h assms(2) nx hd_live [OF assms(1)]]
    by (auto split: option.splits)
qed

text \<open>The neighbours of a node of the list are nodes of the list.\<close>

lemma neighbours:
  assumes "is_list s k (ys @ x # zs)"
  shows "prv s x = (if ys = [] then NULL else Some (last ys))"
    and "nxt s x = (if zs = [] then NULL else Some (hd zs))"
    and "pred_option (live s) (prv s x)" and "pred_option (live s) (nxt s x)"
    and "separate (nxt s) (prv s) x" and "live s x" and "has s k"
proof -
  have d: "dlist (nxt s) (prv s) NULL (hd_of s k) (ys @ x # zs)" and di: "distinct (ys @ x # zs)"
    and lv: "\<forall>y\<in>set (ys @ x # zs). live s y" and "has s k"
    using assms by (auto simp: is_list_def)
  show p: "prv s x = (if ys = [] then NULL else Some (last ys))"
    and n: "nxt s x = (if zs = [] then NULL else Some (hd zs))"
    using dlist_split [OF d] by simp_all
  show "pred_option (live s) (prv s x)" "pred_option (live s) (nxt s x)"
    using p n lv by auto
  have "last ys \<noteq> x \<and> (zs \<noteq> [] \<longrightarrow> last ys \<noteq> hd zs)" if "ys \<noteq> []"
    using di last_in_set [OF that] hd_in_set [of zs] by (metis disjoint_iff distinct_append list.set_intros)
  moreover have "hd zs \<noteq> x" if "zs \<noteq> []" using di that hd_in_set [of zs] by auto
  ultimately show "separate (nxt s) (prv s) x" unfolding separate_def using p n by auto
  show "live s x" "has s k" using lv \<open>has s k\<close> by auto
qed

text \<open>Unlinking a node of the list removes it and resets its pointers.\<close>

lemma unlink_dlist:
  assumes "is_list s k (ys @ x # zs)"
  shows "dlist (nxt (unlink k x s)) (prv (unlink k x s)) NULL (hd_of (unlink k x s) k) (ys @ zs)"
    and "nxt (unlink k x s) x = NULL" and "prv (unlink k x s) x = NULL"
proof -
  note nb = neighbours [OF assms]
  have d: "dlist (nxt s) (prv s) NULL (hd_of s k) (ys @ x # zs)" and di: "distinct (ys @ x # zs)"
    using assms by (auto simp: is_list_def)
  have hd: "hd_of (unlink k x s) k = (if ys = [] then nxt s x else hd_of s k)"
    using unlink_head [OF nb(7,6,5,3,4)] nb(1) by simp
  have nx: "nxt (unlink k x s) = (if ys = [] then nxt s else (nxt s)(last ys := nxt s x))(x := NULL)"
    using unlink_next [OF nb(7,6,5,3,4)] nb(1) by simp
  have pv: "prv (unlink k x s) = (if zs = [] then prv s else (prv s)(hd zs := prv s x))(x := NULL)"
    using unlink_prev [OF nb(7,6,5,3,4)] nb(2) by simp
  have "x \<notin> set (ys @ zs)" using di by simp
  then show "dlist (nxt (unlink k x s)) (prv (unlink k x s)) NULL (hd_of (unlink k x s) k) (ys @ zs)"
    unfolding nx pv hd using dlist_remove [OF d di] by simp
  show "nxt (unlink k x s) x = NULL" "prv (unlink k x s) x = NULL"
    by (simp_all add: nx pv)
qed

lemma unlink_dlist_other:
  assumes "is_list s k (ys @ x # zs)" and "k' \<noteq> k"
    and "dlist (nxt s) (prv s) NULL (hd_of s k') us" and "set (ys @ x # zs) \<inter> set us = {}"
  shows "dlist (nxt (unlink k x s)) (prv (unlink k x s)) NULL (hd_of (unlink k x s) k') us"
proof -
  note nb = neighbours [OF assms(1)]
  have "last ys \<notin> set us" if "ys \<noteq> []"
    using assms(4) that last_in_set [of ys] by (auto simp: disjoint_iff)
  moreover have "hd zs \<notin> set us" if "zs \<noteq> []"
    using assms(4) that hd_in_set [of zs] by (auto simp: disjoint_iff)
  moreover have "x \<notin> set us" using assms(4) by auto
  ultimately show ?thesis
    using assms(2,3) unlink_head [OF nb(7,6,5,3,4)] unlink_next [OF nb(7,6,5,3,4)] unlink_prev [OF nb(7,6,5,3,4)]
      nb(1,2)
    by auto
qed

end

end
