(* ===== verification/Cancellation.thy ===== *)
theory Cancellation
  imports Intrusive_List
begin

text \<open>
  The cooperative cancellation token,
  \<^verbatim>\<open>src/ufsrv_cancellation/ufsrv_cancellation.c\<close> and its private header.

  A token is a reference count, a cancelled flag, a mutex and the head of an intrusive doubly
  linked list of callback nodes; a node has its own reference count (one for the
  registration handle, one for the token's list).  Every function of the file is one
  definition below, in the file's order and with its steps in the code's order.  A function
  pointer of type \<^verbatim>\<open>UfsrvCancellationCallback\<close> is a value of the type parameter
  \<open>'fn\<close>; calling it is the parameter \<open>call\<close>.  The mutex is modelled: it is
  not recursive, so a function that called back with the lock held would fault.
\<close>

section \<open>State\<close>

record 'fn UfsrvCancellationCallback =
  cb_prev :: ptr
  cb_next :: ptr
  cb_token :: addr
  cb_refcount :: int
  cb_active :: bool
  cb_claimed :: bool
  cb_fn :: 'fn
  cb_context :: ptr
  cb_release_context :: "'fn option"

record UfsrvCancellationToken =
  tok_refcount :: int
  tok_lock :: bool
  tok_is_cancelled :: bool
  tok_head :: ptr

record ('u, 'fn) cancel_sys = "'u sys" +
  tokens :: "addr \<rightharpoonup> UfsrvCancellationToken"
  callbacks :: "addr \<rightharpoonup> 'fn UfsrvCancellationCallback"

type_synonym ('u, 'fn, 'z, 'a) cprog = "(('u, 'fn, 'z) cancel_sys_scheme, 'a) prog"

type_synonym ('u, 'fn, 'z) ccall = "'fn \<Rightarrow> ptr \<Rightarrow> ('u, 'fn, 'z, unit) cprog"

abbreviation token_at :: "addr \<Rightarrow> ('u, 'fn, 'z, UfsrvCancellationToken) cprog" where
  "token_at \<equiv> obj_at tokens"

abbreviation upd_token ::
  "addr \<Rightarrow> (UfsrvCancellationToken \<Rightarrow> UfsrvCancellationToken) \<Rightarrow> ('u, 'fn, 'z, unit) cprog" where
  "upd_token \<equiv> upd_obj tokens tokens_update"

abbreviation callback_at :: "addr \<Rightarrow> ('u, 'fn, 'z, 'fn UfsrvCancellationCallback) cprog" where
  "callback_at \<equiv> obj_at callbacks"

abbreviation upd_callback ::
  "addr \<Rightarrow> ('fn UfsrvCancellationCallback \<Rightarrow> 'fn UfsrvCancellationCallback) \<Rightarrow>
   ('u, 'fn, 'z, unit) cprog" where
  "upd_callback \<equiv> upd_obj callbacks callbacks_update"

abbreviation free_token :: "addr \<Rightarrow> ('u, 'fn, 'z, unit) cprog" where
  "free_token \<equiv> free_obj tokens tokens_update"

abbreviation free_callback :: "addr \<Rightarrow> ('u, 'fn, 'z, unit) cprog" where
  "free_callback \<equiv> free_obj callbacks callbacks_update"

section \<open>Operations\<close>

text \<open>The token's mutex (\<^verbatim>\<open>pthread_mutex_lock\<close> / \<^verbatim>\<open>pthread_mutex_unlock\<close>).\<close>

definition token_mutex_lock :: "addr \<Rightarrow> ('u, 'fn, 'z, unit) cprog" where
  "token_mutex_lock t =
     bindm (token_at t) (\<lambda>k.
     if tok_lock k then fail LockHeld else upd_token t (\<lambda>k. k\<lparr>tok_lock := True\<rparr>))"

definition token_mutex_unlock :: "addr \<Rightarrow> ('u, 'fn, 'z, unit) cprog" where
  "token_mutex_unlock t = upd_token t (\<lambda>k. k\<lparr>tok_lock := False\<rparr>)"

text \<open>
  \<^verbatim>\<open>sTokenRelease\<close>: drop one reference; the last one detaches what is left of the
  list, releases every node's context, frees the nodes and the token.  The loop over the
  list carries fuel.
\<close>

fun sTokenRelease_loop :: "('u, 'fn, 'z) ccall \<Rightarrow> nat \<Rightarrow> ptr \<Rightarrow> ('u, 'fn, 'z, unit) cprog" where
  "sTokenRelease_loop call fuel None = ret ()"
| "sTokenRelease_loop call 0 (Some node) = fail OutOfFuel"
| "sTokenRelease_loop call (Suc fuel) (Some node) =
     bindm (callback_at node) (\<lambda>c.
     bindm (when_some (cb_release_context c) (\<lambda>r. call r (cb_context c))) (\<lambda>_.
     bindm (free_callback node) (\<lambda>_.
     sTokenRelease_loop call fuel (cb_next c))))"

definition sTokenRelease :: "('u, 'fn, 'z) ccall \<Rightarrow> nat \<Rightarrow> addr \<Rightarrow> ('u, 'fn, 'z, unit) cprog" where
  "sTokenRelease call fuel t =
     bindm (token_at t) (\<lambda>k.
     bindm (upd_token t (\<lambda>k. k\<lparr>tok_refcount := tok_refcount k - 1\<rparr>)) (\<lambda>_.
     if tok_refcount k \<noteq> 1 then ret ()
     else
       bindm (token_mutex_lock t) (\<lambda>_.
       bindm (token_at t) (\<lambda>k.
       bindm (upd_token t (\<lambda>k. k\<lparr>tok_head := NULL\<rparr>)) (\<lambda>_.
       bindm (token_mutex_unlock t) (\<lambda>_.
       bindm (sTokenRelease_loop call fuel (tok_head k)) (\<lambda>_.
       free_token t)))))))"

text \<open>\<^verbatim>\<open>sNodeFree\<close>: free the node, release its context, drop its token reference.\<close>

definition sNodeFree :: "('u, 'fn, 'z) ccall \<Rightarrow> nat \<Rightarrow> addr \<Rightarrow> ('u, 'fn, 'z, unit) cprog" where
  "sNodeFree call fuel cb =
     bindm (callback_at cb) (\<lambda>c.
     bindm (free_callback cb) (\<lambda>_.
     bindm (when_some (cb_release_context c) (\<lambda>r. call r (cb_context c))) (\<lambda>_.
     sTokenRelease call fuel (cb_token c))))"

text \<open>\<^verbatim>\<open>sNodeDropRef\<close>: drop one node reference under the lock.\<close>

definition sNodeDropRef :: "('u, 'fn, 'z) ccall \<Rightarrow> nat \<Rightarrow> addr \<Rightarrow> ('u, 'fn, 'z, bool) cprog" where
  "sNodeDropRef call fuel cb =
     bindm (callback_at cb) (\<lambda>c.
     bindm (token_mutex_lock (cb_token c)) (\<lambda>_.
     bindm (upd_callback cb (\<lambda>c. c\<lparr>cb_refcount := cb_refcount c - 1\<rparr>)) (\<lambda>_.
     bindm (callback_at cb) (\<lambda>c.
     bindm (token_mutex_unlock (cb_token c)) (\<lambda>_.
     let last = (cb_refcount c = 0) in
     bindm (if last then sNodeFree call fuel cb else ret ()) (\<lambda>_.
     ret last))))))"

definition UfsrvCancellationTokenRetainInternal :: "ptr \<Rightarrow> ('u, 'fn, 'z, unit) cprog" where
  "UfsrvCancellationTokenRetainInternal token_ptr =
     (case token_ptr of
        None \<Rightarrow> ret ()
      | Some t \<Rightarrow> upd_token t (\<lambda>k. k\<lparr>tok_refcount := tok_refcount k + 1\<rparr>))"

definition UfsrvCancellationTokenCreate :: "('u, 'fn, 'z, ptr) cprog" where
  "UfsrvCancellationTokenCreate =
     bindm malloc (\<lambda>token_ptr.
     case token_ptr of
       None \<Rightarrow> ret NULL
     | Some t \<Rightarrow>
         bindm sys_try (\<lambda>mutex_ok.
         if \<not> mutex_ok then ret NULL
         else
           bindm (new_obj tokens tokens_update t
                    \<lparr>tok_refcount = 1, tok_lock = False, tok_is_cancelled = False, tok_head = NULL\<rparr>)
             (\<lambda>_. ret (Some t))))"

text \<open>The two list manipulations, as \<^verbatim>\<open>RegisterEx\<close> and \<^verbatim>\<open>Unregister\<close> write them out.\<close>

definition cb_list_link :: "addr \<Rightarrow> addr \<Rightarrow> ('u, 'fn, 'z, unit) cprog" where
  "cb_list_link t cb =
     bindm (token_at t) (\<lambda>k.
     bindm (upd_callback cb (\<lambda>c. c\<lparr>cb_next := tok_head k\<rparr>)) (\<lambda>_.
     bindm (when_some (tok_head k) (\<lambda>h. upd_callback h (\<lambda>c. c\<lparr>cb_prev := Some cb\<rparr>))) (\<lambda>_.
     upd_token t (\<lambda>k. k\<lparr>tok_head := Some cb\<rparr>))))"

definition cb_list_unlink :: "addr \<Rightarrow> addr \<Rightarrow> ('u, 'fn, 'z, unit) cprog" where
  "cb_list_unlink t cb =
     bindm (callback_at cb) (\<lambda>c.
     bindm (case cb_prev c of
              Some p \<Rightarrow> upd_callback p (\<lambda>d. d\<lparr>cb_next := cb_next c\<rparr>)
            | None \<Rightarrow> upd_token t (\<lambda>k. k\<lparr>tok_head := cb_next c\<rparr>)) (\<lambda>_.
     bindm (callback_at cb) (\<lambda>c.
     bindm (when_some (cb_next c) (\<lambda>n. upd_callback n (\<lambda>d. d\<lparr>cb_prev := cb_prev c\<rparr>))) (\<lambda>_.
     upd_callback cb (\<lambda>c. c\<lparr>cb_prev := NULL, cb_next := NULL\<rparr>)))))"

definition UfsrvCancellationTokenRegisterEx ::
  "('u, 'fn, 'z) ccall \<Rightarrow> ptr \<Rightarrow> 'fn option \<Rightarrow> ptr \<Rightarrow> 'fn option \<Rightarrow> ('u, 'fn, 'z, ptr) cprog" where
  "UfsrvCancellationTokenRegisterEx call token_ptr callback context_ptr release_context =
     (case (token_ptr, callback) of
        (Some t, Some f) \<Rightarrow>
          bindm malloc (\<lambda>cb_ptr.
          case cb_ptr of
            None \<Rightarrow> ret NULL
          | Some cb \<Rightarrow>
              bindm (new_obj callbacks callbacks_update cb
                \<lparr>cb_prev = NULL, cb_next = NULL, cb_token = t, cb_refcount = 2,
                 cb_active = False, cb_claimed = False, cb_fn = f, cb_context = context_ptr,
                 cb_release_context = release_context\<rparr>) (\<lambda>_.
              bindm (UfsrvCancellationTokenRetainInternal token_ptr) (\<lambda>_.
              bindm (token_mutex_lock t) (\<lambda>_.
              bindm (token_at t) (\<lambda>k.
              let already_cancelled = tok_is_cancelled k in
              bindm (if \<not> already_cancelled then
                       bindm (cb_list_link t cb) (\<lambda>_.
                       upd_callback cb (\<lambda>c. c\<lparr>cb_active := True\<rparr>))
                     else
                       upd_callback cb (\<lambda>c. c\<lparr>cb_claimed := True, cb_refcount := 1\<rparr>)) (\<lambda>_.
              bindm (token_mutex_unlock t) (\<lambda>_.
              bindm (if already_cancelled then call f context_ptr else ret ()) (\<lambda>_.
              ret (Some cb)))))))))
      | _ \<Rightarrow> ret NULL)"

definition UfsrvCancellationTokenRegister ::
  "('u, 'fn, 'z) ccall \<Rightarrow> ptr \<Rightarrow> 'fn option \<Rightarrow> ptr \<Rightarrow> ('u, 'fn, 'z, ptr) cprog" where
  "UfsrvCancellationTokenRegister call token_ptr callback context_ptr =
     UfsrvCancellationTokenRegisterEx call token_ptr callback context_ptr None"

definition UfsrvCancellationTokenUnregister ::
  "('u, 'fn, 'z) ccall \<Rightarrow> nat \<Rightarrow> ptr \<Rightarrow> ('u, 'fn, 'z, bool) cprog" where
  "UfsrvCancellationTokenUnregister call fuel handle =
     (case handle of
        None \<Rightarrow> ret False
      | Some cb \<Rightarrow>
          bindm (callback_at cb) (\<lambda>c.
          bindm (token_mutex_lock (cb_token c)) (\<lambda>_.
          bindm (if cb_active c then
                   bindm (upd_callback cb (\<lambda>c. c\<lparr>cb_active := False, cb_claimed := True\<rparr>)) (\<lambda>_.
                   bindm (cb_list_unlink (cb_token c) cb) (\<lambda>_.
                   bindm (upd_callback cb (\<lambda>c. c\<lparr>cb_refcount := cb_refcount c - 1\<rparr>)) (\<lambda>_.
                   ret True)))
                 else ret False) (\<lambda>won.
          bindm (upd_callback cb (\<lambda>c. c\<lparr>cb_refcount := cb_refcount c - 1\<rparr>)) (\<lambda>_.
          bindm (callback_at cb) (\<lambda>c.
          bindm (token_mutex_unlock (cb_token c)) (\<lambda>_.
          bindm (if cb_refcount c = 0 then sNodeFree call fuel cb else ret ()) (\<lambda>_.
          ret won))))))))"

text \<open>The two loops of \<^verbatim>\<open>Cancel\<close>: detaching the list under the lock, then dispatching it.\<close>

fun cancel_detach_loop :: "nat \<Rightarrow> ptr \<Rightarrow> ('u, 'fn, 'z, unit) cprog" where
  "cancel_detach_loop fuel None = ret ()"
| "cancel_detach_loop 0 (Some walk) = fail OutOfFuel"
| "cancel_detach_loop (Suc fuel) (Some walk) =
     bindm (upd_callback walk (\<lambda>c. c\<lparr>cb_active := False, cb_claimed := True, cb_prev := NULL\<rparr>)) (\<lambda>_.
     bindm (callback_at walk) (\<lambda>c.
     cancel_detach_loop fuel (cb_next c)))"

fun cancel_dispatch_loop :: "('u, 'fn, 'z) ccall \<Rightarrow> nat \<Rightarrow> ptr \<Rightarrow> ('u, 'fn, 'z, unit) cprog" where
  "cancel_dispatch_loop call fuel None = ret ()"
| "cancel_dispatch_loop call 0 (Some node) = fail OutOfFuel"
| "cancel_dispatch_loop call (Suc fuel) (Some node) =
     bindm (callback_at node) (\<lambda>c.
     bindm (call (cb_fn c) (cb_context c)) (\<lambda>_.
     bindm (upd_callback node (\<lambda>c. c\<lparr>cb_next := NULL\<rparr>)) (\<lambda>_.
     bindm (sNodeDropRef call fuel node) (\<lambda>_.
     cancel_dispatch_loop call fuel (cb_next c)))))"

definition UfsrvCancellationTokenCancel ::
  "('u, 'fn, 'z) ccall \<Rightarrow> nat \<Rightarrow> ptr \<Rightarrow> ('u, 'fn, 'z, unit) cprog" where
  "UfsrvCancellationTokenCancel call fuel token_ptr =
     (case token_ptr of
        None \<Rightarrow> ret ()
      | Some t \<Rightarrow>
          bindm (token_mutex_lock t) (\<lambda>_.
          bindm (token_at t) (\<lambda>k.
          bindm (upd_token t (\<lambda>k. k\<lparr>tok_is_cancelled := True\<rparr>)) (\<lambda>_.
          if tok_is_cancelled k then token_mutex_unlock t
          else
            bindm (upd_token t (\<lambda>k. k\<lparr>tok_head := NULL\<rparr>)) (\<lambda>_.
            bindm (cancel_detach_loop fuel (tok_head k)) (\<lambda>_.
            bindm (token_mutex_unlock t) (\<lambda>_.
            cancel_dispatch_loop call fuel (tok_head k))))))))"

definition UfsrvCancellationTokenIsCancelled :: "ptr \<Rightarrow> ('u, 'fn, 'z, bool) cprog" where
  "UfsrvCancellationTokenIsCancelled token_ptr =
     (case token_ptr of
        None \<Rightarrow> ret False
      | Some t \<Rightarrow> bindm (token_at t) (\<lambda>k. ret (tok_is_cancelled k)))"

definition UfsrvCancellationTokenDestroy ::
  "('u, 'fn, 'z) ccall \<Rightarrow> nat \<Rightarrow> ptr \<Rightarrow> ('u, 'fn, 'z, unit) cprog" where
  "UfsrvCancellationTokenDestroy call fuel token_ptr =
     (case token_ptr of None \<Rightarrow> ret () | Some t \<Rightarrow> sTokenRelease call fuel t)"

section \<open>Callbacks that do not call back\<close>

text \<open>A callback that touches only the application's state.\<close>

definition passive_call :: "('fn \<Rightarrow> ptr \<Rightarrow> 'u \<Rightarrow> 'u) \<Rightarrow> ('u, 'fn, 'z) ccall" where
  "passive_call cbu f x s = Inr ((), s\<lparr>user := cbu f x (user s)\<rparr>)"

lemma passive_call_apply [simp]: "passive_call cbu f x s = Inr ((), s\<lparr>user := cbu f x (user s)\<rparr>)"
  by (simp add: passive_call_def)

section \<open>The token's list as an intrusive list\<close>

text \<open>The pointers of the heap, read as functions of the address.\<close>

definition cb_nxt :: "('u, 'fn, 'z) cancel_sys_scheme \<Rightarrow> addr \<Rightarrow> ptr" where
  "cb_nxt s x = (case callbacks s x of None \<Rightarrow> NULL | Some c \<Rightarrow> cb_next c)"

definition cb_prv :: "('u, 'fn, 'z) cancel_sys_scheme \<Rightarrow> addr \<Rightarrow> ptr" where
  "cb_prv s x = (case callbacks s x of None \<Rightarrow> NULL | Some c \<Rightarrow> cb_prev c)"

definition tok_hd :: "('u, 'fn, 'z) cancel_sys_scheme \<Rightarrow> addr \<Rightarrow> ptr" where
  "tok_hd s t = (case tokens s t of None \<Rightarrow> NULL | Some k \<Rightarrow> tok_head k)"

definition token_live :: "('u, 'fn, 'z) cancel_sys_scheme \<Rightarrow> addr \<Rightarrow> bool" where
  "token_live s t \<longleftrightarrow> tokens s t \<noteq> None"

definition cb_live :: "('u, 'fn, 'z) cancel_sys_scheme \<Rightarrow> addr \<Rightarrow> bool" where
  "cb_live s x \<longleftrightarrow> callbacks s x \<noteq> None"

definition cb_linkable :: "('u, 'fn, 'z) cancel_sys_scheme \<Rightarrow> addr \<Rightarrow> bool" where
  "cb_linkable s x \<longleftrightarrow> (\<exists>c. callbacks s x = Some c \<and> cb_prev c = NULL)"

lemmas cb_ptr_defs = cb_nxt_def cb_prv_def tok_hd_def token_live_def cb_live_def cb_linkable_def

lemma cb_list_link_apply:
  assumes "tokens s t = Some k" and "callbacks s x = Some c" and "pred_option (cb_live s) (tok_head k)"
    and "tok_head k \<noteq> Some x"
  shows "cb_list_link t x s = Inr ((), s
     \<lparr>tokens := (tokens s)(t \<mapsto> k\<lparr>tok_head := Some x\<rparr>),
      callbacks := (case tok_head k of
          None \<Rightarrow> (callbacks s)(x \<mapsto> c\<lparr>cb_next := tok_head k\<rparr>)
        | Some h \<Rightarrow> (callbacks s)(x \<mapsto> c\<lparr>cb_next := tok_head k\<rparr>,
                                  h \<mapsto> (the (callbacks s h))\<lparr>cb_prev := Some x\<rparr>))\<rparr>)"
  using assms by (cases "tok_head k") (auto simp: cb_list_link_def cb_live_def)

lemma cb_list_unlink_apply:
  assumes "tokens s t = Some k" and "callbacks s x = Some c"
    and "pred_option (cb_live s) (cb_prev c)" and "pred_option (cb_live s) (cb_next c)"
    and "cb_prev c \<noteq> Some x" and "cb_next c \<noteq> Some x" and "cb_prev c \<noteq> cb_next c \<or> cb_prev c = NULL"
  shows "cb_list_unlink t x s = Inr ((), s
     \<lparr>tokens := (case cb_prev c of
          None \<Rightarrow> (tokens s)(t \<mapsto> k\<lparr>tok_head := cb_next c\<rparr>) | Some p \<Rightarrow> tokens s),
      callbacks :=
        (let m1 = (case cb_prev c of
               None \<Rightarrow> callbacks s
             | Some p \<Rightarrow> (callbacks s)(p \<mapsto> (the (callbacks s p))\<lparr>cb_next := cb_next c\<rparr>));
             m2 = (case cb_next c of
               None \<Rightarrow> m1
             | Some n \<Rightarrow> m1(n \<mapsto> (the (callbacks s n))\<lparr>cb_prev := cb_prev c\<rparr>))
         in m2(x \<mapsto> c\<lparr>cb_prev := NULL, cb_next := NULL\<rparr>))\<rparr>)"
  using assms
  by (cases "cb_prev c"; cases "cb_next c") (auto simp: cb_list_unlink_def cb_live_def)

text \<open>What unlinking does to the pointers of the heap.\<close>

lemma cb_list_unlink_ptrs:
  assumes "token_live s t" and "cb_live s x" and "separate (cb_nxt s) (cb_prv s) x"
    and "pred_option (cb_live s) (cb_prv s x)" and "pred_option (cb_live s) (cb_nxt s x)"
  shows "tok_hd (exec (cb_list_unlink t x) s) =
           (if cb_prv s x = NULL then (tok_hd s)(t := cb_nxt s x) else tok_hd s)"
    and "cb_nxt (exec (cb_list_unlink t x) s) =
           (case cb_prv s x of None \<Rightarrow> (cb_nxt s)(x := NULL)
            | Some y \<Rightarrow> (cb_nxt s)(y := cb_nxt s x, x := NULL))"
    and "cb_prv (exec (cb_list_unlink t x) s) =
           (case cb_nxt s x of None \<Rightarrow> (cb_prv s)(x := NULL)
            | Some y \<Rightarrow> (cb_prv s)(y := cb_prv s x, x := NULL))"
proof -
  from assms obtain k c where k: "tokens s t = Some k" and c: "callbacks s x = Some c"
    by (auto simp: token_live_def cb_live_def)
  have sep: "cb_prev c \<noteq> Some x" "cb_next c \<noteq> Some x" "cb_prev c \<noteq> cb_next c \<or> cb_prev c = NULL"
    "pred_option (cb_live s) (cb_prev c)" "pred_option (cb_live s) (cb_next c)"
    using assms(3-5) c by (auto simp: separate_def cb_nxt_def cb_prv_def)
  note U = cb_list_unlink_apply [OF k c sep(4,5,1,2,3)]
  note ptrs = k c exec_def U cb_nxt_def cb_prv_def tok_hd_def fun_eq_iff
  show "tok_hd (exec (cb_list_unlink t x) s) =
           (if cb_prv s x = NULL then (tok_hd s)(t := cb_nxt s x) else tok_hd s)"
    by (cases "cb_prev c") (simp_all add: ptrs)
  show "cb_nxt (exec (cb_list_unlink t x) s) =
           (case cb_prv s x of None \<Rightarrow> (cb_nxt s)(x := NULL)
            | Some y \<Rightarrow> (cb_nxt s)(y := cb_nxt s x, x := NULL))"
    using sep by (cases "cb_prev c"; cases "cb_next c") (auto simp: ptrs cb_live_def)
  show "cb_prv (exec (cb_list_unlink t x) s) =
           (case cb_nxt s x of None \<Rightarrow> (cb_prv s)(x := NULL)
            | Some y \<Rightarrow> (cb_prv s)(y := cb_prv s x, x := NULL))"
    using sep by (cases "cb_prev c"; cases "cb_next c") (auto simp: ptrs cb_live_def)
qed

interpretation tl: intrusive_list cb_nxt cb_prv tok_hd token_live cb_live cb_linkable
  "\<lambda>t x. exec (cb_list_link t x)" "\<lambda>t x. exec (cb_list_unlink t x)"
proof (unfold_locales, goal_cases)
  case (1 s k x)
  then show ?case
    by (auto simp: cb_ptr_defs cb_list_link_apply fun_eq_iff split: option.splits)
next
  case (2 s k x)
  then show ?case
    by (auto simp: cb_ptr_defs cb_list_link_apply fun_eq_iff split: option.splits)
next
  case (3 s k x)
  then show ?case
    by (auto simp: cb_ptr_defs cb_list_link_apply fun_eq_iff split: option.splits)
qed (simp_all only: cb_list_unlink_ptrs)

end
