(* ===== verification/Cancellation_Inv.thy ===== *)
theory Cancellation_Inv
  imports Cancellation
begin

text \<open>
  The invariant of the cancellation heap and the exact effect of every operation of the
  token API on a state that satisfies it.  The bookkeeping (reference counts, flags, which
  node is in which list) is separated from the pointers: linking and unlinking change only
  pointers, everything else only bookkeeping.
\<close>

section \<open>The invariant of the cancellation heap\<close>

text \<open>
  Nodes and tokens without their list pointers.  Linking and unlinking change the pointers
  only, so the bookkeeping part of the invariant is stated over these.
\<close>

definition infos :: "('u, 'fn, 'z) cancel_sys_scheme \<Rightarrow> addr \<rightharpoonup> 'fn UfsrvCancellationCallback" where
  "infos s n = map_option (\<lambda>c. c\<lparr>cb_prev := NULL, cb_next := NULL\<rparr>) (callbacks s n)"

definition tinfos :: "('u, 'fn, 'z) cancel_sys_scheme \<Rightarrow> addr \<rightharpoonup> UfsrvCancellationToken" where
  "tinfos s t = map_option (\<lambda>k. k\<lparr>tok_head := NULL\<rparr>) (tokens s t)"

text \<open>The live nodes registered on token \<open>t\<close>.\<close>

definition nodes_of :: "(addr \<rightharpoonup> 'fn UfsrvCancellationCallback) \<Rightarrow> addr \<Rightarrow> addr set" where
  "nodes_of ns t = {n. \<exists>c. ns n = Some c \<and> cb_token c = t}"

text \<open>
  \<open>cancel_core own L ts ns\<close>: the bookkeeping between two API calls.  \<open>own t\<close> is
  the number of references the callers hold on token \<open>t\<close>, \<open>L t\<close> the nodes of its
  list.  No lock is held; a cancelled token has an empty list; a token's count is the
  callers' references plus one for each live node; a node in the list has two references
  (handle and list), any other live node one (its handle).
\<close>

definition cancel_core ::
  "(addr \<Rightarrow> nat) \<Rightarrow> (addr \<Rightarrow> addr list) \<Rightarrow> (addr \<rightharpoonup> UfsrvCancellationToken) \<Rightarrow>
   (addr \<rightharpoonup> 'fn UfsrvCancellationCallback) \<Rightarrow> bool" where
  "cancel_core own L ts ns \<longleftrightarrow>
     (\<forall>t k. ts t = Some k \<longrightarrow>
        \<not> tok_lock k \<and> (tok_is_cancelled k \<longrightarrow> L t = []) \<and>
        tok_refcount k = int (own t) + int (card (nodes_of ns t)) \<and> 0 < tok_refcount k) \<and>
     (\<forall>n c. ns n = Some c \<longrightarrow>
        ts (cb_token c) \<noteq> None \<and> cb_refcount c = (if cb_active c then 2 else 1) \<and>
        cb_active c = (n \<in> set (L (cb_token c)))) \<and>
     (\<forall>t. \<forall>n\<in>set (L t). \<exists>c. ns n = Some c \<and> cb_token c = t) \<and>
     (\<forall>t. 0 < own t \<longrightarrow> ts t \<noteq> None) \<and> finite (dom ns)"

definition cancel_inv ::
  "(addr \<Rightarrow> nat) \<Rightarrow> (addr \<Rightarrow> addr list) \<Rightarrow> ('u, 'fn, 'z) cancel_sys_scheme \<Rightarrow> bool" where
  "cancel_inv own L s \<longleftrightarrow>
     cancel_core own L (tinfos s) (infos s) \<and>
     (\<forall>t. token_live s t \<longrightarrow> dlist (cb_nxt s) (cb_prv s) NULL (tok_hd s t) (L t)) \<and>
     (\<forall>a\<ge>next_addr s. tinfos s a = None \<and> infos s a = None)"

lemma infos_simps [simp]:
  "infos (s\<lparr>user := u\<rparr>) = infos s" "infos (s\<lparr>next_addr := a\<rparr>) = infos s" "infos (s\<lparr>tokens := T\<rparr>) = infos s"
  "tinfos (s\<lparr>user := u\<rparr>) = tinfos s" "tinfos (s\<lparr>next_addr := a\<rparr>) = tinfos s"
  "tinfos (s\<lparr>callbacks := C\<rparr>) = tinfos s"
  by (auto simp: infos_def tinfos_def fun_eq_iff)

lemma ptr_simps [simp]:
  "cb_nxt (s\<lparr>user := u\<rparr>) = cb_nxt s" "cb_nxt (s\<lparr>next_addr := a\<rparr>) = cb_nxt s" "cb_nxt (s\<lparr>tokens := T\<rparr>) = cb_nxt s"
  "cb_prv (s\<lparr>user := u\<rparr>) = cb_prv s" "cb_prv (s\<lparr>next_addr := a\<rparr>) = cb_prv s" "cb_prv (s\<lparr>tokens := T\<rparr>) = cb_prv s"
  "tok_hd (s\<lparr>user := u\<rparr>) = tok_hd s" "tok_hd (s\<lparr>next_addr := a\<rparr>) = tok_hd s"
  "tok_hd (s\<lparr>callbacks := C\<rparr>) = tok_hd s"
  by (auto simp: cb_nxt_def cb_prv_def tok_hd_def fun_eq_iff)

lemma token_live_tinfos: "token_live s t \<longleftrightarrow> tinfos s t \<noteq> None"
  by (simp add: token_live_def tinfos_def)

lemma cb_live_infos: "cb_live s n \<longleftrightarrow> infos s n \<noteq> None"
  by (simp add: cb_live_def infos_def)

lemma nodes_of_upd:
  "cb_token c = t \<Longrightarrow> nodes_of (ns(n \<mapsto> c)) t' = (if t' = t then insert n (nodes_of ns t) else nodes_of ns t' - {n})"
  "nodes_of (ns(n := None)) t' = nodes_of ns t' - {n}"
  by (auto simp: nodes_of_def)

lemma finite_nodes_of: "finite (dom ns) \<Longrightarrow> finite (nodes_of ns t)"
  by (erule rev_finite_subset) (auto simp: nodes_of_def)

section \<open>The bookkeeping\<close>

lemma cancel_coreD:
  assumes "cancel_core own L ts ns"
  shows "ts t = Some k \<Longrightarrow> \<not> tok_lock k"
    and "ts t = Some k \<Longrightarrow> tok_is_cancelled k \<Longrightarrow> L t = []"
    and "ts t = Some k \<Longrightarrow> tok_refcount k = int (own t) + int (card (nodes_of ns t))"
    and "ts t = Some k \<Longrightarrow> 0 < tok_refcount k"
    and "ns n = Some c \<Longrightarrow> \<exists>k. ts (cb_token c) = Some k"
    and "ns n = Some c \<Longrightarrow> cb_refcount c = (if cb_active c then 2 else 1)"
    and "ns n = Some c \<Longrightarrow> cb_active c = (n \<in> set (L (cb_token c)))"
    and "n \<in> set (L t) \<Longrightarrow> \<exists>c. ns n = Some c \<and> cb_token c = t"
    and "0 < own t \<Longrightarrow> \<exists>k. ts t = Some k"
    and "finite (dom ns)"
  using assms unfolding cancel_core_def by blast+

lemma cancel_coreI:
  assumes "\<And>t k. ts t = Some k \<Longrightarrow> \<not> tok_lock k \<and> (tok_is_cancelled k \<longrightarrow> L t = []) \<and>
             tok_refcount k = int (own t) + int (card (nodes_of ns t)) \<and> 0 < tok_refcount k"
    and "\<And>n c. ns n = Some c \<Longrightarrow> ts (cb_token c) \<noteq> None \<and>
             cb_refcount c = (if cb_active c then 2 else 1) \<and> cb_active c = (n \<in> set (L (cb_token c)))"
    and "\<And>t n. n \<in> set (L t) \<Longrightarrow> \<exists>c. ns n = Some c \<and> cb_token c = t"
    and "\<And>t. 0 < own t \<Longrightarrow> ts t \<noteq> None" and "finite (dom ns)"
  shows "cancel_core own L ts ns"
  unfolding cancel_core_def using assms by blast

lemma nodes_of_dead:
  assumes "cancel_core own L ts ns" and "ts t = None"
  shows "nodes_of ns t = {}"
  using cancel_coreD(5) [OF assms(1)] assms(2) by (force simp: nodes_of_def)

lemma core_create:
  assumes core: "cancel_core own L ts ns" and "ts t = None"
    and "k = \<lparr>tok_refcount = 1, tok_lock = False, tok_is_cancelled = False, tok_head = NULL\<rparr>"
  shows "cancel_core (own(t := 1)) L (ts(t \<mapsto> k)) ns"
proof (rule cancel_coreI, goal_cases)
  case (1 t' k')
  then show ?case
    using cancel_coreD [OF core] nodes_of_dead [OF core assms(2)] assms(3) by (auto split: if_splits)
next
  case (2 n c)
  then show ?case using cancel_coreD(5-7) [OF core 2] by auto
next
  case (3 t' n)
  then show ?case by (rule cancel_coreD(8) [OF core])
next
  case (4 t')
  then show ?case using cancel_coreD(9) [OF core, of t'] by (auto split: if_splits)
next
  case 5
  show ?case by (rule cancel_coreD(10) [OF core])
qed

lemma core_add:
  assumes core: "cancel_core own L ts ns" and k: "ts t = Some k" and n: "ns n = None"
    and c: "cb_token c = t" "cb_refcount c = (if cb_active c then 2 else 1)"
    and canc: "cb_active c \<Longrightarrow> \<not> tok_is_cancelled k"
  shows "cancel_core own (if cb_active c then L(t := n # L t) else L)
           (ts(t \<mapsto> k\<lparr>tok_refcount := tok_refcount k + 1\<rparr>)) (ns(n \<mapsto> c))"
proof -
  have fresh: "n \<notin> set (L t')" for t' using cancel_coreD(8) [OF core, of n t'] n by auto
  have fin: "finite (nodes_of ns t')" and new: "n \<notin> nodes_of ns t'" for t'
    using n by (auto simp: nodes_of_def intro: finite_subset [OF _ cancel_coreD(10) [OF core]])
  show ?thesis
  proof (rule cancel_coreI, goal_cases)
    case (1 t' k')
    show ?case
    proof (cases "t' = t")
      case True
      with 1 have "k' = k\<lparr>tok_refcount := tok_refcount k + 1\<rparr>" by simp
      with True show ?thesis
        using cancel_coreD(1-4) [OF core k] c(1) canc fin [of t] new [of t] by (simp add: nodes_of_upd)
    next
      case False
      with 1 have "ts t' = Some k'" by simp
      from cancel_coreD(1-4) [OF core this] False show ?thesis
        using c(1) new [of t'] by (simp add: nodes_of_upd)
    qed
  next
    case (2 m d)
    show ?case
    proof (cases "m = n")
      case True
      with 2 c fresh show ?thesis by auto
    next
      case False
      with 2 have "ns m = Some d" by simp
      from cancel_coreD(5-7) [OF core this] False show ?thesis by auto
    qed
  next
    case (3 t' m)
    then show ?case using cancel_coreD(8) [OF core, of m t'] c(1) fresh by (auto split: if_splits)
  next
    case (4 t')
    then show ?case using cancel_coreD(9) [OF core, of t'] by auto
  next
    case 5
    show ?case using cancel_coreD(10) [OF core] by simp
  qed
qed

text \<open>Dropping a token reference frees the token when it was the last one.\<close>

definition drop_token_ref ::
  "addr \<Rightarrow> UfsrvCancellationToken \<Rightarrow> (addr \<rightharpoonup> UfsrvCancellationToken) \<Rightarrow> addr \<rightharpoonup> UfsrvCancellationToken" where
  "drop_token_ref t k ts =
     (if tok_refcount k = 1 then ts(t := None) else ts(t \<mapsto> k\<lparr>tok_refcount := tok_refcount k - 1\<rparr>))"

lemma core_remove:
  assumes core: "cancel_core own L ts ns" and n: "ns n = Some c" "cb_token c = t"
    and k: "ts t = Some k" and di: "distinct (L t)"
  shows "cancel_core own (L(t := remove1 n (L t))) (drop_token_ref t k ts) (ns(n := None))"
    and "tok_refcount k = 1 \<Longrightarrow> L t \<noteq> [] \<Longrightarrow> L t = [n]"
proof -
  have fin: "finite (nodes_of ns t')" for t'
    by (rule finite_nodes_of [OF cancel_coreD(10) [OF core]])
  have n_in: "n \<in> nodes_of ns t" using n by (auto simp: nodes_of_def)
  have card: "card (nodes_of ns t) = Suc (card (nodes_of ns t - {n}))"
    by (rule card.remove [OF fin n_in])
  have last: "own t = 0 \<and> nodes_of ns t = {n}" if "tok_refcount k = 1"
  proof -
    have "own t = 0" and "card (nodes_of ns t - {n}) = 0"
      using cancel_coreD(3) [OF core k] card that by simp_all
    moreover have "finite (nodes_of ns t - {n})" using fin by simp
    ultimately have "nodes_of ns t - {n} = {}" by simp
    with n_in \<open>own t = 0\<close> show ?thesis by blast
  qed
  have other: "m \<noteq> n" if "m \<in> set (L t')" "t' \<noteq> t" for m t'
    using cancel_coreD(8) [OF core that(1)] n that(2) by auto
  show "cancel_core own (L(t := remove1 n (L t))) (drop_token_ref t k ts) (ns(n := None))"
  proof (rule cancel_coreI, goal_cases)
    case (1 t' k')
    show ?case
    proof (cases "t' = t")
      case True
      with 1 have "tok_refcount k \<noteq> 1" and "k' = k\<lparr>tok_refcount := tok_refcount k - 1\<rparr>"
        by (auto simp: drop_token_ref_def split: if_splits)
      with True show ?thesis
        using cancel_coreD(1-4) [OF core k] card by (auto simp: nodes_of_upd)
    next
      case False
      with 1 have t': "ts t' = Some k'" by (auto simp: drop_token_ref_def split: if_splits)
      have "n \<notin> nodes_of ns t'" using n False by (auto simp: nodes_of_def)
      with cancel_coreD(1-4) [OF core t'] False show ?thesis by (simp add: nodes_of_upd)
    qed
  next
    case (2 m d)
    then have m: "ns m = Some d" "m \<noteq> n" by (auto split: if_splits)
    have "tok_refcount k = 1 \<Longrightarrow> cb_token d \<noteq> t"
      using last m by (auto simp: nodes_of_def)
    with cancel_coreD(5-7) [OF core m(1)] m(2) show ?case by (auto simp: drop_token_ref_def)
  next
    case (3 t' m)
    then have "m \<in> set (L t')" "m \<noteq> n"
      using other di by (auto split: if_splits dest: notin_set_remove1)
    with cancel_coreD(8) [OF core] show ?case by simp
  next
    case (4 t')
    then show ?case using cancel_coreD(9) [OF core, of t'] last by (auto simp: drop_token_ref_def)
  next
    case 5
    show ?case using cancel_coreD(10) [OF core] by simp
  qed
  show "L t = [n]" if "tok_refcount k = 1" and "L t \<noteq> []"
  proof -
    have "set (L t) \<subseteq> {n}"
      using cancel_coreD(8) [OF core] last [OF that(1)] by (force simp: nodes_of_def)
    with that(2) di show ?thesis by (cases "L t"; cases "tl (L t)") auto
  qed
qed

lemma core_destroy:
  assumes core: "cancel_core own L ts ns" and k: "ts t = Some k" and own: "0 < own t"
  shows "cancel_core (own(t := own t - 1)) L (drop_token_ref t k ts) ns"
    and "tok_refcount k = 1 \<Longrightarrow> L t = []"
proof -
  have fin: "finite (nodes_of ns t)"
    by (rule finite_nodes_of [OF cancel_coreD(10) [OF core]])
  have last: "own t = 1 \<and> nodes_of ns t = {}" if "tok_refcount k = 1"
  proof -
    have "own t = 1" and "card (nodes_of ns t) = 0"
      using cancel_coreD(3) [OF core k] own that by linarith+
    with fin show ?thesis by simp
  qed
  show "cancel_core (own(t := own t - 1)) L (drop_token_ref t k ts) ns"
  proof (rule cancel_coreI, goal_cases)
    case (1 t' k')
    show ?case
    proof (cases "t' = t")
      case True
      with 1 have "tok_refcount k \<noteq> 1" and "k' = k\<lparr>tok_refcount := tok_refcount k - 1\<rparr>"
        by (auto simp: drop_token_ref_def split: if_splits)
      with True show ?thesis using cancel_coreD(1-4) [OF core k] own by auto
    next
      case False
      with 1 have "ts t' = Some k'" by (auto simp: drop_token_ref_def split: if_splits)
      from cancel_coreD(1-4) [OF core this] False show ?thesis by simp
    qed
  next
    case (2 m d)
    have "tok_refcount k = 1 \<Longrightarrow> cb_token d \<noteq> t" using last 2 by (auto simp: nodes_of_def)
    with cancel_coreD(5-7) [OF core 2] show ?case by (auto simp: drop_token_ref_def)
  next
    case (3 t' m)
    then show ?case by (rule cancel_coreD(8) [OF core])
  next
    case (4 t')
    then show ?case
      using cancel_coreD(9) [OF core, of t'] last by (auto simp: drop_token_ref_def split: if_splits)
  next
    case 5
    show ?case by (rule cancel_coreD(10) [OF core])
  qed
  show "L t = []" if "tok_refcount k = 1"
  proof (rule ccontr)
    assume "L t \<noteq> []"
    then obtain n where "n \<in> set (L t)" by (cases "L t") auto
    from cancel_coreD(8) [OF core this] last [OF that] show False by (auto simp: nodes_of_def)
  qed
qed

text \<open>Cancelling detaches every node of the list and leaves each with its handle's reference.\<close>

definition detach ::
  "addr set \<Rightarrow> (addr \<rightharpoonup> 'fn UfsrvCancellationCallback) \<Rightarrow> addr \<rightharpoonup> 'fn UfsrvCancellationCallback" where
  "detach A ns n = (if n \<in> A
     then map_option (\<lambda>c. c\<lparr>cb_active := False, cb_claimed := True, cb_refcount := 1\<rparr>) (ns n) else ns n)"

lemma nodes_of_detach [simp]: "nodes_of (detach A ns) t = nodes_of ns t"
  by (force simp: nodes_of_def detach_def)

lemma core_cancel:
  assumes core: "cancel_core own L ts ns" and k: "ts t = Some k"
  shows "cancel_core own (L(t := [])) (ts(t \<mapsto> k\<lparr>tok_is_cancelled := True\<rparr>)) (detach (set (L t)) ns)"
proof (rule cancel_coreI, goal_cases)
  case (1 t' k')
  then show ?case
    using cancel_coreD(1-4) [OF core, of t'] cancel_coreD(1-4) [OF core k]
    by (cases "t' = t") auto
next
  case (2 m d)
  then obtain c where c: "ns m = Some c" and tok: "cb_token d = cb_token c"
    by (auto simp: detach_def split: if_splits)
  show ?case
  proof (cases "m \<in> set (L t)")
    case True
    from cancel_coreD(8) [OF core this] c have "cb_token c = t" by simp
    moreover from 2 c True have "d = c\<lparr>cb_active := False, cb_claimed := True, cb_refcount := 1\<rparr>"
      by (simp add: detach_def)
    ultimately show ?thesis by simp
  next
    case False
    with 2 c have "d = c" by (simp add: detach_def)
    with cancel_coreD(5-7) [OF core c] False show ?thesis by auto
  qed
next
  case (3 t' m)
  then show ?case
    using cancel_coreD(8) [OF core, of m t'] by (cases "t' = t") (auto simp: detach_def)
next
  case (4 t')
  then show ?case using cancel_coreD(9) [OF core, of t'] by auto
next
  case 5
  have "dom (detach (set (L t)) ns) = dom ns" by (auto simp: detach_def dom_def)
  then show ?case using cancel_coreD(10) [OF core] by simp
qed

section \<open>The operations on the heap\<close>

lemma cancel_invI:
  assumes "cancel_core own L (tinfos s) (infos s)"
    and "\<And>t. token_live s t \<Longrightarrow> dlist (cb_nxt s) (cb_prv s) NULL (tok_hd s t) (L t)"
    and "\<And>a. next_addr s \<le> a \<Longrightarrow> tinfos s a = None \<and> infos s a = None"
  shows "cancel_inv own L s"
  using assms by (simp add: cancel_inv_def)

lemma cancel_inv_bound:
  "cancel_inv own L s \<Longrightarrow> next_addr s \<le> a \<Longrightarrow> tinfos s a = None \<and> infos s a = None"
  by (simp add: cancel_inv_def)

lemma cancel_inv_core: "cancel_inv own L s \<Longrightarrow> cancel_core own L (tinfos s) (infos s)"
  by (simp add: cancel_inv_def)

lemma tinfos_Some: "tokens s t = Some k \<Longrightarrow> tinfos s t = Some (k\<lparr>tok_head := NULL\<rparr>)"
  by (simp add: tinfos_def)

lemma infos_Some: "callbacks s n = Some c \<Longrightarrow> infos s n = Some (c\<lparr>cb_prev := NULL, cb_next := NULL\<rparr>)"
  by (simp add: infos_def)

lemma cancel_inv_lock: "cancel_inv own L s \<Longrightarrow> tokens s t = Some k \<Longrightarrow> \<not> tok_lock k"
  using cancel_coreD(1) [OF cancel_inv_core tinfos_Some] by fastforce

lemma cancel_inv_fresh:
  assumes "cancel_inv own L s"
  shows "tokens s (next_addr s) = None" and "callbacks s (next_addr s) = None"
    and "next_addr s \<notin> set (L t)"
  using assms cancel_coreD(8) [OF cancel_inv_core [OF assms], of "next_addr s" t]
  by (auto simp: cancel_inv_def infos_def tinfos_def)

lemma cancel_inv_dlist:
  "cancel_inv own L s \<Longrightarrow> token_live s t \<Longrightarrow> dlist (cb_nxt s) (cb_prv s) NULL (tok_hd s t) (L t)"
  by (simp add: cancel_inv_def)

lemma cancel_inv_node:
  assumes "cancel_inv own L s" and "n \<in> set (L t)"
  obtains c where "callbacks s n = Some c" and "cb_token c = t" and "cb_active c"
    and "cb_refcount c = 2"
proof -
  note core = cancel_inv_core [OF assms(1)]
  from cancel_coreD(8) [OF core assms(2)] obtain c where
    c: "callbacks s n = Some c" "cb_token c = t" by (auto simp: infos_def)
  from cancel_coreD(6,7) [OF core infos_Some [OF c(1)]] c(2) assms(2)
  show thesis by (intro that [OF c]) auto
qed

lemma cancel_inv_is_list:
  assumes "cancel_inv own L s" and "token_live s t"
  shows "tl.is_list s t (L t)"
  unfolding tl.is_list_def
proof (intro conjI ballI)
  show "dlist (cb_nxt s) (cb_prv s) NULL (tok_hd s t) (L t)"
    by (rule cancel_inv_dlist [OF assms])
  then show "distinct (L t)" by (rule dlist_distinct)
  show "cb_live s n" if "n \<in> set (L t)" for n
    using cancel_inv_node [OF assms(1) that] by (metis cb_live_def option.distinct(1))
qed (rule assms(2))

lemma cancel_inv_disjoint:
  assumes "cancel_inv own L s" and "t \<noteq> t'"
  shows "set (L t) \<inter> set (L t') = {}"
proof (rule ccontr)
  assume "set (L t) \<inter> set (L t') \<noteq> {}"
  then obtain n where n: "n \<in> set (L t)" "n \<in> set (L t')" by blast
  obtain c where "callbacks s n = Some c" "cb_token c = t"
    by (rule cancel_inv_node [OF assms(1) n(1)])
  moreover obtain c' where "callbacks s n = Some c'" "cb_token c' = t'"
    by (rule cancel_inv_node [OF assms(1) n(2)])
  ultimately show False using assms(2) by simp
qed

end
