(* ===== verification/Cancellation_Ops.thy ===== *)
theory Cancellation_Ops
  imports Cancellation_Inv
begin

text \<open>
  What each operation of the token API does to a state that satisfies the invariant, with
  callbacks that touch only the application's state.
\<close>

section \<open>Linking and unlinking keep the bookkeeping\<close>

lemma link_keeps:
  assumes "tokens s t = Some k" and "callbacks s x = Some c" and "pred_option (cb_live s) (tok_head k)"
    and "tok_head k \<noteq> Some x"
  obtains T C where "cb_list_link t x s = Inr ((), s\<lparr>tokens := T, callbacks := C\<rparr>)"
    and "tinfos (s\<lparr>tokens := T, callbacks := C\<rparr>) = tinfos s"
    and "infos (s\<lparr>tokens := T, callbacks := C\<rparr>) = infos s"
proof (rule that [OF cb_list_link_apply [OF assms]])
qed (use assms in \<open>auto simp: tinfos_def infos_def fun_eq_iff cb_live_def split: option.splits\<close>)

lemma unlink_keeps:
  assumes "tl.is_list s t (ys @ x # zs)"
  obtains T C where "cb_list_unlink t x s = Inr ((), s\<lparr>tokens := T, callbacks := C\<rparr>)"
    and "tinfos (s\<lparr>tokens := T, callbacks := C\<rparr>) = tinfos s"
    and "infos (s\<lparr>tokens := T, callbacks := C\<rparr>) = infos s"
proof -
  note nb = tl.neighbours [OF assms]
  from nb(6,7) obtain k c where k: "tokens s t = Some k" and c: "callbacks s x = Some c"
    by (auto simp: token_live_def cb_live_def)
  have sep: "cb_prev c \<noteq> Some x" "cb_next c \<noteq> Some x" "cb_prev c \<noteq> cb_next c \<or> cb_prev c = NULL"
    "pred_option (cb_live s) (cb_prev c)" "pred_option (cb_live s) (cb_next c)"
    using nb(3-5) c by (auto simp: separate_def cb_nxt_def cb_prv_def)
  note U = cb_list_unlink_apply [OF k c sep(4,5,1,2,3)]
  show thesis
  proof (rule that [OF U])
    show "tinfos (s\<lparr>tokens := case cb_prev c of None \<Rightarrow> (tokens s)(t \<mapsto> k\<lparr>tok_head := cb_next c\<rparr>)
        | Some p \<Rightarrow> tokens s, callbacks := C\<rparr>) = tinfos s" for C
      using k by (auto simp: tinfos_def fun_eq_iff split: option.splits)
  next
    show "infos (s\<lparr>tokens := T, callbacks :=
      (let m1 = (case cb_prev c of None \<Rightarrow> callbacks s
             | Some p \<Rightarrow> (callbacks s)(p \<mapsto> (the (callbacks s p))\<lparr>cb_next := cb_next c\<rparr>));
           m2 = (case cb_next c of None \<Rightarrow> m1
             | Some n \<Rightarrow> m1(n \<mapsto> (the (callbacks s n))\<lparr>cb_prev := cb_prev c\<rparr>))
       in m2(x \<mapsto> c\<lparr>cb_prev := NULL, cb_next := NULL\<rparr>))\<rparr>) = infos s" for T
      using c sep
      by (cases "cb_prev c"; cases "cb_next c") (auto simp: infos_def fun_eq_iff cb_live_def)
  qed
qed

section \<open>Creating and destroying\<close>

lemma token_create_effect:
  assumes inv: "cancel_inv own L s" and "sys_ok s (next_addr s)" and "sys_ok s (Suc (next_addr s))"
  defines "t \<equiv> next_addr s"
  obtains s' where "UfsrvCancellationTokenCreate s = Inr (Some t, s')"
    and "cancel_inv (own(t := 1)) L s'" and "user s' = user s"
    and "tinfos s' = (tinfos s)(t \<mapsto> \<lparr>tok_refcount = 1, tok_lock = False, tok_is_cancelled = False, tok_head = NULL\<rparr>)"
    and "infos s' = infos s"
proof -
  let ?k = "\<lparr>tok_refcount = 1, tok_lock = False, tok_is_cancelled = False, tok_head = NULL\<rparr>"
  define s' where "s' = s\<lparr>next_addr := Suc (Suc t), tokens := (tokens s)(t \<mapsto> ?k)\<rparr>"
  note fresh = cancel_inv_fresh [OF inv]
  have eq: "UfsrvCancellationTokenCreate s = Inr (Some t, s')"
    using assms(2,3) by (simp add: UfsrvCancellationTokenCreate_def s'_def t_def)
  have dead: "tinfos s t = None" using fresh(1) by (simp add: tinfos_def t_def)
  have ti: "tinfos s' = (tinfos s)(t \<mapsto> ?k)" and i: "infos s' = infos s"
    by (auto simp: s'_def tinfos_def infos_def fun_eq_iff)
  have "L t = []"
    using cancel_coreD(5,8) [OF cancel_inv_core [OF inv]] dead by (metis list.set_intros(1) neq_Nil_conv option.distinct(1))
  have "cancel_inv (own(t := 1)) L s'"
  proof (rule cancel_invI)
    show "cancel_core (own(t := 1)) L (tinfos s') (infos s')"
      unfolding ti i by (rule core_create [OF cancel_inv_core [OF inv] dead refl])
    show "dlist (cb_nxt s') (cb_prv s') NULL (tok_hd s' t') (L t')" if "token_live s' t'" for t'
      using that \<open>L t = []\<close> cancel_inv_dlist [OF inv, of t']
      by (cases "t' = t") (auto simp: s'_def tok_hd_def token_live_def cb_nxt_def [abs_def] cb_prv_def [abs_def])
    show "tinfos s' a = None \<and> infos s' a = None" if "next_addr s' \<le> a" for a
      using that cancel_inv_bound [OF inv, of a] unfolding ti i by (simp add: s'_def t_def)
  qed
  then show thesis by (rule that [OF eq _ _ ti i]) (simp add: s'_def)
qed

text \<open>Dropping a reference of a token with no list left, or not the last reference.\<close>

lemma sTokenRelease_effect:
  assumes "tokens s t = Some k" and "\<not> tok_lock k" and "tok_refcount k = 1 \<longrightarrow> tok_head k = NULL"
  shows "sTokenRelease call fuel t s = Inr ((), s\<lparr>tokens := drop_token_ref t k (tokens s)\<rparr>)"
  using assms by (simp add: sTokenRelease_def token_mutex_lock_def token_mutex_unlock_def drop_token_ref_def)

lemma drop_token_ref_keeps:
  assumes "tokens s t = Some k" and "tok_refcount k = 1 \<longrightarrow> tok_head k = NULL"
  shows "tinfos (s\<lparr>tokens := drop_token_ref t k (tokens s)\<rparr>) =
           drop_token_ref t (k\<lparr>tok_head := NULL\<rparr>) (tinfos s)"
    and "tok_hd (s\<lparr>tokens := drop_token_ref t k (tokens s)\<rparr>) = tok_hd s"
  using assms by (auto simp: drop_token_ref_def tinfos_def tok_hd_def fun_eq_iff)

lemma token_destroy_effect:
  assumes inv: "cancel_inv own L s" and own: "0 < own t"
  obtains s' k where "tokens s t = Some k" and "UfsrvCancellationTokenDestroy call fuel (Some t) s = Inr ((), s')"
    and "cancel_inv (own(t := own t - 1)) L s'" and "user s' = user s"
    and "tokens s' = drop_token_ref t k (tokens s)" and "callbacks s' = callbacks s"
proof -
  note core = cancel_inv_core [OF inv]
  from cancel_coreD(9) [OF core own] obtain k where k: "tokens s t = Some k" by (auto simp: tinfos_def)
  note ti = tinfos_Some [OF k]
  have nil: "tok_refcount k = 1 \<Longrightarrow> L t = []" using core_destroy(2) [OF core ti own] by simp
  have "dlist (cb_nxt s) (cb_prv s) NULL (tok_head k) (L t)"
    using cancel_inv_dlist [OF inv, of t] k by (simp add: token_live_def tok_hd_def)
  with nil have hd: "tok_refcount k = 1 \<longrightarrow> tok_head k = NULL" by auto
  define s' where "s' = s\<lparr>tokens := drop_token_ref t k (tokens s)\<rparr>"
  note keep = drop_token_ref_keeps [OF k hd, folded s'_def]
  have eq: "UfsrvCancellationTokenDestroy call fuel (Some t) s = Inr ((), s')"
    using sTokenRelease_effect [OF k cancel_inv_lock [OF inv k] hd]
    by (simp add: UfsrvCancellationTokenDestroy_def s'_def)
  have i: "infos s' = infos s" by (simp add: s'_def)
  have "cancel_inv (own(t := own t - 1)) L s'"
  proof (rule cancel_invI)
    show "cancel_core (own(t := own t - 1)) L (tinfos s') (infos s')"
      unfolding i keep(1) by (rule core_destroy(1) [OF core ti own])
    show "dlist (cb_nxt s') (cb_prv s') NULL (tok_hd s' t') (L t')" if "token_live s' t'" for t'
      using that k cancel_inv_dlist [OF inv, of t'] unfolding keep(2)
      by (cases "t' = t") (auto simp: s'_def token_live_def drop_token_ref_def split: if_splits)
    show "tinfos s' a = None \<and> infos s' a = None" if "next_addr s' \<le> a" for a
      using that cancel_inv_bound [OF inv, of a] ti unfolding i keep(1)
      by (auto simp: s'_def drop_token_ref_def)
  qed
  then show thesis by (rule that [OF k eq]) (simp_all add: s'_def)
qed

section \<open>Registering\<close>

text \<open>The node a registration creates, without its list pointers.\<close>

definition new_node :: "addr \<Rightarrow> 'fn \<Rightarrow> ptr \<Rightarrow> 'fn option \<Rightarrow> bool \<Rightarrow> 'fn UfsrvCancellationCallback" where
  "new_node t f x r active =
     \<lparr>cb_prev = NULL, cb_next = NULL, cb_token = t, cb_refcount = (if active then 2 else 1),
      cb_active = active, cb_claimed = \<not> active, cb_fn = f, cb_context = x, cb_release_context = r\<rparr>"

lemma register_oom_effect:
  "\<not> sys_ok s (next_addr s) \<Longrightarrow>
   UfsrvCancellationTokenRegisterEx call (Some t) (Some f) x r s =
     Inr (NULL, s\<lparr>next_addr := Suc (next_addr s)\<rparr>)"
  by (simp add: UfsrvCancellationTokenRegisterEx_def)

lemma register_effect:
  assumes inv: "cancel_inv own L s" and k: "tokens s t = Some k" and canc: "\<not> tok_is_cancelled k"
    and ok: "sys_ok s (next_addr s)"
  defines "n \<equiv> next_addr s"
  obtains s' where "UfsrvCancellationTokenRegisterEx call (Some t) (Some f) x r s = Inr (Some n, s')"
    and "cancel_inv own (L(t := n # L t)) s'" and "user s' = user s" and "infos s n = None"
    and "infos s' = (infos s)(n \<mapsto> new_node t f x r True)"
    and "tinfos s' = (tinfos s)(t \<mapsto> k\<lparr>tok_head := NULL, tok_refcount := tok_refcount k + 1\<rparr>)"
proof -
  note core = cancel_inv_core [OF inv] and fresh = cancel_inv_fresh [OF inv, folded n_def]
  have unlocked: "\<not> tok_lock k" by (rule cancel_inv_lock [OF inv k])
  have live: "token_live s t" using k by (simp add: token_live_def)
  have lst: "tl.is_list s t (L t)" by (rule cancel_inv_is_list [OF inv live])
  let ?c = "(new_node t f x r True)\<lparr>cb_active := False, cb_claimed := False\<rparr>"
  let ?k = "k\<lparr>tok_refcount := tok_refcount k + 1, tok_lock := True\<rparr>"
  define s1 where "s1 = s\<lparr>next_addr := Suc n, callbacks := (callbacks s)(n \<mapsto> ?c), tokens := (tokens s)(t \<mapsto> ?k)\<rparr>"
  have ptrs: "cb_nxt s1 = (cb_nxt s)(n := NULL)" "cb_prv s1 = (cb_prv s)(n := NULL)" "tok_hd s1 = tok_hd s"
    using k by (auto simp: s1_def cb_nxt_def cb_prv_def tok_hd_def new_node_def fun_eq_iff)
  have d1: "dlist (cb_nxt s1) (cb_prv s1) NULL (tok_hd s1 t') (L t')" if "token_live s t'" for t'
    using cancel_inv_dlist [OF inv that] fresh(3) unfolding ptrs by simp
  have lst1: "tl.is_list s1 t (L t)"
    using lst d1 [OF live] by (auto simp: tl.is_list_def s1_def token_live_def cb_live_def)
  have tok1: "tokens s1 t = Some ?k" and cb1: "callbacks s1 n = Some ?c" by (simp_all add: s1_def)
  have link1: "cb_linkable s1 n" by (simp add: cb_linkable_def s1_def new_node_def)
  have hd1: "pred_option (cb_live s1) (tok_head ?k)" "tok_head ?k \<noteq> Some n"
    using tl.hd_live [OF lst1] lst fresh(3) [of t] k
    by (auto simp: tok_hd_def s1_def tl.is_list_def; cases "L t"; auto)+
  obtain T C where lk: "cb_list_link t n s1 = Inr ((), s1\<lparr>tokens := T, callbacks := C\<rparr>)"
    and ti: "tinfos (s1\<lparr>tokens := T, callbacks := C\<rparr>) = tinfos s1"
    and ii: "infos (s1\<lparr>tokens := T, callbacks := C\<rparr>) = infos s1"
    by (rule link_keeps [OF tok1 cb1 hd1])
  define s2 where "s2 = s1\<lparr>tokens := T, callbacks := C\<rparr>"
  have s2: "exec (cb_list_link t n) s1 = s2" using lk by (simp add: s2_def)
  have i2: "infos s2 = (infos s)(n \<mapsto> ?c)"
    unfolding s2_def ii by (auto simp: s1_def infos_def new_node_def fun_eq_iff)
  have ti2: "tinfos s2 = (tinfos s)(t \<mapsto> ?k\<lparr>tok_head := NULL\<rparr>)"
    unfolding s2_def ti by (auto simp: s1_def tinfos_def fun_eq_iff)
  from i2 have "infos s2 n = Some ?c" by simp
  then obtain c2 where c2: "C n = Some c2" "c2\<lparr>cb_prev := NULL, cb_next := NULL\<rparr> = ?c"
    by (auto simp: s2_def infos_def)
  from ti2 have "tinfos s2 t = Some (?k\<lparr>tok_head := NULL\<rparr>)" by simp
  then obtain k2 where k2: "T t = Some k2" "k2\<lparr>tok_head := NULL\<rparr> = ?k\<lparr>tok_head := NULL\<rparr>"
    by (auto simp: s2_def tinfos_def)
  define s' where "s' = s2\<lparr>callbacks := C(n \<mapsto> c2\<lparr>cb_active := True\<rparr>), tokens := T(t \<mapsto> k2\<lparr>tok_lock := False\<rparr>)\<rparr>"
  have eq: "UfsrvCancellationTokenRegisterEx call (Some t) (Some f) x r s = Inr (Some n, s')"
    using ok k unlocked canc lk c2(1) k2(1)
    by (simp add: UfsrvCancellationTokenRegisterEx_def UfsrvCancellationTokenRetainInternal_def
        token_mutex_lock_def token_mutex_unlock_def n_def [symmetric] s1_def s'_def s2_def new_node_def)
  have i': "infos s' = (infos s)(n \<mapsto> new_node t f x r True)"
  proof -
    have "infos s' = (infos s2)(n \<mapsto> c2\<lparr>cb_active := True, cb_prev := NULL, cb_next := NULL\<rparr>)"
      by (auto simp: s'_def infos_def s2_def fun_eq_iff)
    also have "c2\<lparr>cb_active := True, cb_prev := NULL, cb_next := NULL\<rparr> = ?c\<lparr>cb_active := True\<rparr>"
      using c2(2) by (cases c2) (simp add: new_node_def)
    finally show ?thesis unfolding i2 by (simp add: new_node_def fun_eq_iff)
  qed
  have ti': "tinfos s' = (tinfos s)(t \<mapsto> k\<lparr>tok_head := NULL, tok_refcount := tok_refcount k + 1\<rparr>)"
  proof -
    have "tinfos s' = (tinfos s2)(t \<mapsto> k2\<lparr>tok_lock := False, tok_head := NULL\<rparr>)"
      by (auto simp: s'_def tinfos_def s2_def fun_eq_iff)
    also have "k2\<lparr>tok_lock := False, tok_head := NULL\<rparr> = ?k\<lparr>tok_lock := False, tok_head := NULL\<rparr>"
      using k2(2) by (cases k; cases k2) simp
    finally show ?thesis unfolding ti2 using unlocked by (simp add: fun_eq_iff)
  qed
  have ptrs': "cb_nxt s' = cb_nxt s2" "cb_prv s' = cb_prv s2" "tok_hd s' = tok_hd s2"
    using c2(1) k2(1) by (auto simp: s'_def s2_def cb_nxt_def cb_prv_def tok_hd_def fun_eq_iff)
  have "cancel_inv own (L(t := n # L t)) s'"
  proof (rule cancel_invI)
    show "cancel_core own (L(t := n # L t)) (tinfos s') (infos s')"
      using core_add [OF core tinfos_Some [OF k], of n "new_node t f x r True"] canc fresh(2)
      unfolding i' ti' by (simp add: new_node_def infos_def)
    show "dlist (cb_nxt s') (cb_prv s') NULL (tok_hd s' t') ((L(t := n # L t)) t')" if "token_live s' t'" for t'
    proof (cases "t' = t")
      case True
      then show ?thesis
        using tl.link_dlist [OF lst1 link1 fresh(3)] unfolding ptrs' s2 by simp
    next
      case False
      then have "token_live s t'" using that by (simp add: token_live_tinfos ti')
      from tl.link_dlist_other [OF lst1 link1 fresh(3) d1 [OF this] False fresh(3)
          cancel_inv_disjoint [OF inv]] False
      show ?thesis unfolding ptrs' s2 by simp
    qed
    show "tinfos s' a = None \<and> infos s' a = None" if "next_addr s' \<le> a" for a
      using that cancel_inv_bound [OF inv, of a] tinfos_Some [OF k] unfolding i' ti'
      by (auto simp: s'_def s2_def s1_def n_def)
  qed
  then show thesis
    by (rule that [OF eq _ _ _ i' ti']) (simp_all add: s'_def s2_def s1_def infos_def fresh)
qed

text \<open>On a cancelled token the callback runs during the registration, and the list is not touched.\<close>

lemma register_cancelled_effect:
  assumes inv: "cancel_inv own L s" and k: "tokens s t = Some k" and canc: "tok_is_cancelled k"
    and ok: "sys_ok s (next_addr s)"
  defines "n \<equiv> next_addr s"
  obtains s' where
    "UfsrvCancellationTokenRegisterEx (passive_call cbu) (Some t) (Some f) x r s = Inr (Some n, s')"
    and "cancel_inv own L s'" and "user s' = cbu f x (user s)" and "infos s n = None"
    and "infos s' = (infos s)(n \<mapsto> new_node t f x r False)"
    and "tinfos s' = (tinfos s)(t \<mapsto> k\<lparr>tok_head := NULL, tok_refcount := tok_refcount k + 1\<rparr>)"
proof -
  note core = cancel_inv_core [OF inv] and fresh = cancel_inv_fresh [OF inv, folded n_def]
  have unlocked: "\<not> tok_lock k" by (rule cancel_inv_lock [OF inv k])
  define s' where "s' = s\<lparr>next_addr := Suc n, user := cbu f x (user s),
    callbacks := (callbacks s)(n \<mapsto> new_node t f x r False),
    tokens := (tokens s)(t \<mapsto> k\<lparr>tok_refcount := tok_refcount k + 1, tok_lock := False\<rparr>)\<rparr>"
  have eq: "UfsrvCancellationTokenRegisterEx (passive_call cbu) (Some t) (Some f) x r s = Inr (Some n, s')"
    using ok k unlocked canc
    by (simp add: UfsrvCancellationTokenRegisterEx_def UfsrvCancellationTokenRetainInternal_def
        token_mutex_lock_def token_mutex_unlock_def n_def [symmetric] s'_def new_node_def)
  have i: "infos s' = (infos s)(n \<mapsto> new_node t f x r False)"
    by (auto simp: s'_def infos_def new_node_def fun_eq_iff)
  have ti: "tinfos s' = (tinfos s)(t \<mapsto> k\<lparr>tok_head := NULL, tok_refcount := tok_refcount k + 1\<rparr>)"
    using unlocked by (cases k) (auto simp: s'_def tinfos_def fun_eq_iff)
  have ptrs: "cb_nxt s' = (cb_nxt s)(n := NULL)" "cb_prv s' = (cb_prv s)(n := NULL)" "tok_hd s' = tok_hd s"
    using k by (auto simp: s'_def cb_nxt_def cb_prv_def tok_hd_def new_node_def fun_eq_iff)
  have "cancel_inv own L s'"
  proof (rule cancel_invI)
    show "cancel_core own L (tinfos s') (infos s')"
      using core_add [OF core tinfos_Some [OF k], of n "new_node t f x r False"] fresh(2)
      unfolding i ti by (simp add: new_node_def infos_def)
    show "dlist (cb_nxt s') (cb_prv s') NULL (tok_hd s' t') (L t')" if "token_live s' t'" for t'
      using that cancel_inv_dlist [OF inv, of t'] fresh(3) [of t'] k unfolding ptrs
      by (auto simp: token_live_tinfos ti tinfos_Some split: if_splits)
    show "tinfos s' a = None \<and> infos s' a = None" if "next_addr s' \<le> a" for a
      using that cancel_inv_bound [OF inv, of a] tinfos_Some [OF k] unfolding i ti
      by (auto simp: s'_def n_def)
  qed
  then show thesis by (rule that [OF eq _ _ _ i ti]) (simp_all add: s'_def infos_def fresh)
qed

section \<open>Unregistering\<close>

text \<open>What the release hook of a node does to the application's state.\<close>

definition release_user :: "('fn \<Rightarrow> ptr \<Rightarrow> 'u \<Rightarrow> 'u) \<Rightarrow> 'fn UfsrvCancellationCallback \<Rightarrow> 'u \<Rightarrow> 'u" where
  "release_user cbu c u = (case cb_release_context c of None \<Rightarrow> u | Some r \<Rightarrow> cbu r (cb_context c) u)"

lemma release_user_upd [simp]:
  "release_user cbu (c\<lparr>cb_refcount := a\<rparr>) = release_user cbu c"
  "release_user cbu (c\<lparr>cb_active := b\<rparr>) = release_user cbu c"
  "release_user cbu (c\<lparr>cb_claimed := b\<rparr>) = release_user cbu c"
  "release_user cbu (c\<lparr>cb_prev := p\<rparr>) = release_user cbu c"
  "release_user cbu (c\<lparr>cb_next := p\<rparr>) = release_user cbu c"
  by (simp_all add: release_user_def fun_eq_iff split: option.split)

lemma unlocked_id [simp]: "\<not> tok_lock k \<Longrightarrow> k\<lparr>tok_lock := False\<rparr> = k"
  by (cases k) simp

lemma sNodeFree_effect:
  assumes "callbacks s n = Some c" and "tokens s (cb_token c) = Some k" and "\<not> tok_lock k"
    and "tok_refcount k = 1 \<longrightarrow> tok_head k = NULL"
  shows "sNodeFree (passive_call cbu) fuel n s =
    Inr ((), s\<lparr>user := release_user cbu c (user s), callbacks := (callbacks s)(n := None),
              tokens := drop_token_ref (cb_token c) k (tokens s)\<rparr>)"
  using assms
  by (cases "cb_release_context c") (simp_all add: sNodeFree_def sTokenRelease_effect release_user_def)

lemma unregister_inactive_effect:
  assumes "callbacks s n = Some c" and "\<not> cb_active c" and "cb_refcount c = 1"
    and "tokens s (cb_token c) = Some k" and "\<not> tok_lock k"
    and "tok_refcount k = 1 \<longrightarrow> tok_head k = NULL"
  shows "UfsrvCancellationTokenUnregister (passive_call cbu) fuel (Some n) s =
    Inr (False, s\<lparr>user := release_user cbu c (user s), callbacks := (callbacks s)(n := None),
              tokens := drop_token_ref (cb_token c) k (tokens s)\<rparr>)"
  using assms
  by (simp add: UfsrvCancellationTokenUnregister_def token_mutex_lock_def token_mutex_unlock_def
      sNodeFree_effect drop_token_ref_def)

text \<open>
  The end of both paths of \<^verbatim>\<open>Unregister\<close>: once the node is in no list, freeing it and
  dropping its token reference re-establishes the invariant.
\<close>

lemma free_node_inv:
  assumes inv: "cancel_inv own L s" and c: "callbacks s n = Some c" "cb_token c = t"
    and k: "tokens s t = Some k" and di: "distinct (L t)"
    and lists: "\<And>t'. token_live s t' \<Longrightarrow>
      dlist (cb_nxt s2) (cb_prv s2) NULL (tok_hd s2 t') ((L(t := remove1 n (L t))) t')"
    and keep: "tinfos s2 = tinfos s" "\<And>m. m \<noteq> n \<Longrightarrow> infos s2 m = infos s m" "next_addr s2 = next_addr s"
    and k2: "tokens s2 t = Some k2"
    and s'_def: "s' = s2\<lparr>user := u, callbacks := (callbacks s2)(n := None), tokens := drop_token_ref t k2 (tokens s2)\<rparr>"
  shows "tok_refcount k2 = 1 \<longrightarrow> tok_head k2 = NULL"
    and "cancel_inv own (L(t := remove1 n (L t))) s'"
    and "infos s' = (infos s)(n := None)"
    and "tinfos s' = drop_token_ref t (k\<lparr>tok_head := NULL\<rparr>) (tinfos s)"
proof -
  let ?L = "L(t := remove1 n (L t))"
  note core = cancel_inv_core [OF inv] and ci = infos_Some [OF c(1)]
  note rem = core_remove [OF core ci _ tinfos_Some [OF k] di]
  have kk: "k2\<lparr>tok_head := NULL\<rparr> = k\<lparr>tok_head := NULL\<rparr>"
    using keep(1) tinfos_Some [OF k] tinfos_Some [OF k2] by simp
  have live: "token_live s t" using k by (simp add: token_live_def)
  have rc: "tok_refcount k2 = tok_refcount k" using arg_cong [OF kk, of tok_refcount] by simp
  show hd: "tok_refcount k2 = 1 \<longrightarrow> tok_head k2 = NULL"
  proof
    assume "tok_refcount k2 = 1"
    then have "remove1 n (L t) = []" using rem(2) c(2) rc by fastforce
    with lists [OF live] k2 show "tok_head k2 = NULL" by (simp add: tok_hd_def)
  qed
  show i: "infos s' = (infos s)(n := None)"
    using keep(2) by (auto simp: s'_def infos_def fun_eq_iff)
  show ti: "tinfos s' = drop_token_ref t (k\<lparr>tok_head := NULL\<rparr>) (tinfos s)"
    using drop_token_ref_keeps(1) [OF k2 hd] kk keep(1)
    by (auto simp: s'_def tinfos_def fun_eq_iff)
  have hds: "tok_hd s' = tok_hd s2"
    using drop_token_ref_keeps(2) [OF k2 hd] by (auto simp: s'_def tok_hd_def fun_eq_iff)
  have ptrs: "cb_nxt s' = (cb_nxt s2)(n := NULL)" "cb_prv s' = (cb_prv s2)(n := NULL)"
    by (auto simp: s'_def cb_nxt_def cb_prv_def fun_eq_iff)
  have out: "n \<notin> set (?L t')" for t'
    using cancel_coreD(8) [OF core, of n t'] ci c(2) di by (auto split: if_splits)
  show "cancel_inv own ?L s'"
  proof (rule cancel_invI)
    show "cancel_core own ?L (tinfos s') (infos s')"
      unfolding i ti using rem(1) c(2) by simp
    show "dlist (cb_nxt s') (cb_prv s') NULL (tok_hd s' t') (?L t')" if "token_live s' t'" for t'
    proof -
      have "token_live s t'"
        using that k by (auto simp: token_live_tinfos ti drop_token_ref_def tinfos_Some split: if_splits)
      from lists [OF this] out [of t'] show ?thesis unfolding ptrs hds by (metis dlist_upd_notin)
    qed
    show "tinfos s' a = None \<and> infos s' a = None" if "next_addr s' \<le> a" for a
      using that cancel_inv_bound [OF inv, of a] keep(3) tinfos_Some [OF k] unfolding i ti
      by (auto simp: s'_def drop_token_ref_def)
  qed
qed

lemma unregister_effect:
  assumes inv: "cancel_inv own L s" and c: "callbacks s n = Some c"
    and t_def: "t = cb_token c"
  obtains s' k where "tokens s t = Some k"
    and "UfsrvCancellationTokenUnregister (passive_call cbu) fuel (Some n) s = Inr (n \<in> set (L t), s')"
    and "cancel_inv own (L(t := remove1 n (L t))) s'" and "user s' = release_user cbu c (user s)"
    and "infos s' = (infos s)(n := None)"
    and "tinfos s' = drop_token_ref t (k\<lparr>tok_head := NULL\<rparr>) (tinfos s)"
proof -
  note core = cancel_inv_core [OF inv]
  note ci = infos_Some [OF c]
  from cancel_coreD(5) [OF core ci] obtain k where k: "tokens s t = Some k"
    by (auto simp: t_def tinfos_def)
  have unlocked: "\<not> tok_lock k" by (rule cancel_inv_lock [OF inv k])
  have live: "token_live s t" using k by (simp add: token_live_def)
  have lst: "tl.is_list s t (L t)" by (rule cancel_inv_is_list [OF inv live])
  have di: "distinct (L t)" using lst by (simp add: tl.is_list_def)
  show thesis
  proof (cases "n \<in> set (L t)")
    case False
    then have "L(t := remove1 n (L t)) = L" by (simp add: remove1_idem)
    then have ls: "dlist (cb_nxt s) (cb_prv s) NULL (tok_hd s t') ((L(t := remove1 n (L t))) t')"
      if "token_live s t'" for t'
      using cancel_inv_dlist [OF inv that] by simp
    note fin = free_node_inv [where u = "release_user cbu c (user s)",
        OF inv c t_def [symmetric] k di ls refl refl refl k refl]
    show thesis
      using unregister_inactive_effect [OF c _ _ k [unfolded t_def] unlocked fin(1)]
        cancel_coreD(6,7) [OF core ci] False
      by (intro that [OF k _ fin(2) _ fin(3,4)]) (simp_all add: t_def)
  next
    case True
    then obtain ys zs where split: "L t = ys @ n # zs" by (meson split_list)
    then have rm: "remove1 n (L t) = ys @ zs" using di by (simp add: remove1_append)
    let ?c = "c\<lparr>cb_active := False, cb_claimed := True\<rparr>"
    define s1 where "s1 = s\<lparr>tokens := (tokens s)(t \<mapsto> k\<lparr>tok_lock := True\<rparr>), callbacks := (callbacks s)(n \<mapsto> ?c)\<rparr>"
    have ptrs1: "cb_nxt s1 = cb_nxt s" "cb_prv s1 = cb_prv s" "tok_hd s1 = tok_hd s"
      using k c by (auto simp: s1_def cb_nxt_def cb_prv_def tok_hd_def fun_eq_iff)
    have lst1: "tl.is_list s1 t (ys @ n # zs)"
      using lst split by (auto simp: tl.is_list_def ptrs1) (auto simp: s1_def token_live_def cb_live_def)
    obtain T C where un: "cb_list_unlink t n s1 = Inr ((), s1\<lparr>tokens := T, callbacks := C\<rparr>)"
      and ti: "tinfos (s1\<lparr>tokens := T, callbacks := C\<rparr>) = tinfos s1"
      and ii: "infos (s1\<lparr>tokens := T, callbacks := C\<rparr>) = infos s1"
      by (rule unlink_keeps [OF lst1])
    have ex: "exec (cb_list_unlink t n) s1 = s1\<lparr>tokens := T, callbacks := C\<rparr>" using un by simp
    from ii have "infos (s1\<lparr>tokens := T, callbacks := C\<rparr>) n = infos s1 n" by simp
    then obtain c2 where c2: "C n = Some c2" "c2\<lparr>cb_prev := NULL, cb_next := NULL\<rparr> = ?c\<lparr>cb_prev := NULL, cb_next := NULL\<rparr>"
      by (auto simp: s1_def infos_def)
    from ti have "tinfos (s1\<lparr>tokens := T, callbacks := C\<rparr>) t = tinfos s1 t" by simp
    then obtain k2 where k2: "T t = Some k2" "k2\<lparr>tok_head := NULL\<rparr> = k\<lparr>tok_lock := True, tok_head := NULL\<rparr>"
      by (auto simp: s1_def tinfos_def)
    have c2': "cb_token c2 = t" "cb_refcount c2 = 2" "release_user cbu c2 = release_user cbu c"
      using arg_cong [OF c2(2), of cb_token] arg_cong [OF c2(2), of cb_refcount]
        arg_cong [OF c2(2), of "release_user cbu"] cancel_coreD(6,7) [OF core ci] True
      by (simp_all add: t_def)
    define s2 where "s2 = s1\<lparr>callbacks := C(n \<mapsto> c2\<lparr>cb_refcount := 0\<rparr>), tokens := T(t \<mapsto> k2\<lparr>tok_lock := False\<rparr>)\<rparr>"
    have ptrs2: "cb_nxt s2 = cb_nxt (exec (cb_list_unlink t n) s1)"
        "cb_prv s2 = cb_prv (exec (cb_list_unlink t n) s1)" "tok_hd s2 = tok_hd (exec (cb_list_unlink t n) s1)"
      using c2(1) k2(1) unfolding ex s2_def by (auto simp: cb_nxt_def cb_prv_def tok_hd_def fun_eq_iff)
    have ls: "dlist (cb_nxt s2) (cb_prv s2) NULL (tok_hd s2 t') ((L(t := remove1 n (L t))) t')"
      if "token_live s t'" for t'
    proof (cases "t' = t")
      case True
      then show ?thesis using tl.unlink_dlist(1) [OF lst1] rm unfolding ptrs2 by simp
    next
      case False
      have "dlist (cb_nxt s1) (cb_prv s1) NULL (tok_hd s1 t') (L t')"
        using cancel_inv_dlist [OF inv that] by (simp add: ptrs1)
      from tl.unlink_dlist_other [OF lst1 False this] cancel_inv_disjoint [OF inv, of t t'] False split
      show ?thesis unfolding ptrs2 by auto
    qed
    have keep: "tinfos s2 = tinfos s" "\<And>m. m \<noteq> n \<Longrightarrow> infos s2 m = infos s m" "next_addr s2 = next_addr s"
    proof -
      have "tinfos s2 = (tinfos s1)(t \<mapsto> k2\<lparr>tok_lock := False, tok_head := NULL\<rparr>)"
        unfolding ti [symmetric] by (auto simp: s2_def tinfos_def fun_eq_iff)
      moreover have "k2\<lparr>tok_lock := False, tok_head := NULL\<rparr> = k\<lparr>tok_head := NULL\<rparr>"
        using k2(2) unlocked by (cases k; cases k2) simp
      ultimately show "tinfos s2 = tinfos s" using k by (auto simp: s1_def tinfos_def fun_eq_iff)
      show "infos s2 m = infos s m" if "m \<noteq> n" for m
        using fun_cong [OF ii, of m] that by (simp add: s2_def s1_def infos_def)
    qed (simp add: s2_def s1_def)
    have tk2: "tokens s2 t = Some (k2\<lparr>tok_lock := False\<rparr>)" and cn2: "callbacks s2 n = Some (c2\<lparr>cb_refcount := 0\<rparr>)"
      by (simp_all add: s2_def)
    note fin = free_node_inv [where u = "release_user cbu c (user s)",
        OF inv c t_def [symmetric] k di ls keep tk2 refl]
    have "UfsrvCancellationTokenUnregister (passive_call cbu) fuel (Some n) s =
        bindm (sNodeFree (passive_call cbu) fuel n) (\<lambda>_. ret True) s2"
      using c k unlocked un c2(1) k2(1) c2'(1,2) cancel_coreD(7) [OF core ci] True
      by (simp add: UfsrvCancellationTokenUnregister_def token_mutex_lock_def token_mutex_unlock_def
          t_def [symmetric] s1_def s2_def bindm_assoc)
    also have "\<dots> = Inr (True, s2\<lparr>user := release_user cbu c (user s), callbacks := (callbacks s2)(n := None),
              tokens := drop_token_ref t (k2\<lparr>tok_lock := False\<rparr>) (tokens s2)\<rparr>)"
      using sNodeFree_effect [OF cn2, of "k2\<lparr>tok_lock := False\<rparr>" cbu fuel] tk2 fin(1) c2'
      by (simp add: s2_def s1_def)
    finally show thesis using True by (intro that [OF k _ fin(2) _ fin(3,4)]) simp_all
  qed
qed

section \<open>Cancelling\<close>

text \<open>\<open>on_nodes A f m\<close> applies \<open>f\<close> to the objects of \<open>m\<close> at the addresses \<open>A\<close>.\<close>

definition on_nodes :: "addr set \<Rightarrow> ('o \<Rightarrow> 'o) \<Rightarrow> (addr \<rightharpoonup> 'o) \<Rightarrow> addr \<rightharpoonup> 'o" where
  "on_nodes A f m n = (if n \<in> A then map_option f (m n) else m n)"

lemma on_nodes_empty [simp]: "on_nodes {} f m = m"
  by (simp add: on_nodes_def fun_eq_iff)

lemma on_nodes_insert:
  "m x = Some c \<Longrightarrow> x \<notin> A \<Longrightarrow> on_nodes A f (m(x \<mapsto> f c)) = on_nodes (insert x A) f m"
  by (auto simp: on_nodes_def fun_eq_iff)

definition detached :: "'fn UfsrvCancellationCallback \<Rightarrow> 'fn UfsrvCancellationCallback" where
  "detached c = c\<lparr>cb_active := False, cb_claimed := True, cb_prev := NULL\<rparr>"

definition dispatched :: "'fn UfsrvCancellationCallback \<Rightarrow> 'fn UfsrvCancellationCallback" where
  "dispatched c = c\<lparr>cb_next := NULL, cb_refcount := 1\<rparr>"

text \<open>What running the callback of node \<open>n\<close> does to the application's state.\<close>

definition run_node ::
  "('fn \<Rightarrow> ptr \<Rightarrow> 'u \<Rightarrow> 'u) \<Rightarrow> (addr \<rightharpoonup> 'fn UfsrvCancellationCallback) \<Rightarrow> addr \<Rightarrow> 'u \<Rightarrow> 'u" where
  "run_node cbu m n u = (case m n of None \<Rightarrow> u | Some c \<Rightarrow> cbu (cb_fn c) (cb_context c) u)"

lemma run_node_infos: "run_node cbu (infos s) n = run_node cbu (callbacks s) n"
  by (auto simp: run_node_def infos_def fun_eq_iff split: option.split)

lemma run_node_detached [simp]: "run_node cbu (on_nodes A detached m) = run_node cbu m"
  by (auto simp: run_node_def on_nodes_def detached_def fun_eq_iff split: option.split)

lemma fold_run_node_upd:
  "x \<notin> set xs \<Longrightarrow> fold (run_node cbu (m(x := v))) xs u = fold (run_node cbu m) xs u"
  by (rule fold_cong) (auto simp: run_node_def fun_eq_iff)

lemma detach_loop_effect:
  assumes "chain (cb_nxt s) h xs" and "distinct xs" and "\<forall>x\<in>set xs. cb_live s x"
    and "length xs \<le> fuel"
  shows "cancel_detach_loop fuel h s =
    Inr ((), s\<lparr>callbacks := on_nodes (set xs) detached (callbacks s)\<rparr>)"
  using assms
proof (induction xs arbitrary: s h fuel)
  case (Cons x xs)
  then obtain fuel' where fuel: "fuel = Suc fuel'" by (cases fuel) auto
  from Cons.prems obtain c where c: "callbacks s x = Some c" by (auto simp: cb_live_def)
  let ?s = "s\<lparr>callbacks := (callbacks s)(x \<mapsto> detached c)\<rparr>"
  have nxt: "cb_nxt ?s = cb_nxt s" using c by (auto simp: cb_nxt_def detached_def fun_eq_iff)
  have "cancel_detach_loop fuel h s = cancel_detach_loop fuel' (cb_nxt s x) ?s"
    using Cons.prems(1) c by (simp add: fuel cb_nxt_def detached_def)
  also have "\<dots> = Inr ((), ?s\<lparr>callbacks := on_nodes (set xs) detached (callbacks ?s)\<rparr>)"
    using Cons.prems by (intro Cons.IH) (auto simp: nxt fuel cb_live_def)
  also have "\<dots> = Inr ((), s\<lparr>callbacks := on_nodes (set (x # xs)) detached (callbacks s)\<rparr>)"
    using on_nodes_insert [of "callbacks s" x c "set xs" detached] c Cons.prems(2) by simp
  finally show ?case .
qed simp

text \<open>Dropping the list's reference of a detached node leaves the handle's.\<close>

lemma sNodeDropRef_effect:
  assumes "callbacks s x = Some c" and "cb_refcount c = 2" and "tokens s (cb_token c) = Some k"
    and "\<not> tok_lock k"
  shows "sNodeDropRef call fuel x s =
    Inr (False, s\<lparr>callbacks := (callbacks s)(x \<mapsto> c\<lparr>cb_refcount := 1\<rparr>)\<rparr>)"
proof -
  have "(tokens s)(cb_token c \<mapsto> k) = tokens s" using assms(3) by auto
  then show ?thesis
    using assms by (simp add: sNodeDropRef_def token_mutex_lock_def token_mutex_unlock_def)
qed

lemma dispatch_loop_effect:
  assumes "chain (cb_nxt s) h xs" and "distinct xs"
    and "\<forall>x\<in>set xs. \<exists>c. callbacks s x = Some c \<and> cb_token c = t \<and> cb_refcount c = 2"
    and "tokens s t = Some k" and "\<not> tok_lock k" and "length xs \<le> fuel"
  shows "cancel_dispatch_loop (passive_call cbu) fuel h s =
    Inr ((), s\<lparr>user := fold (run_node cbu (callbacks s)) xs (user s),
              callbacks := on_nodes (set xs) dispatched (callbacks s)\<rparr>)"
  using assms
proof (induction xs arbitrary: s h fuel)
  case (Cons x xs)
  then obtain fuel' where fuel: "fuel = Suc fuel'" by (cases fuel) auto
  from Cons.prems obtain c where c: "callbacks s x = Some c" "cb_token c = t" "cb_refcount c = 2"
    by auto
  let ?s = "s\<lparr>user := cbu (cb_fn c) (cb_context c) (user s), callbacks := (callbacks s)(x \<mapsto> dispatched c)\<rparr>"
  have x: "x \<notin> set xs" using Cons.prems(2) by simp
  have "cb_nxt ?s = (cb_nxt s)(x := NULL)" by (auto simp: cb_nxt_def dispatched_def fun_eq_iff)
  then have nxt: "chain (cb_nxt ?s) (cb_nxt s x) xs" using Cons.prems(1) x by simp
  have "cancel_dispatch_loop (passive_call cbu) fuel h s =
      cancel_dispatch_loop (passive_call cbu) fuel' (cb_nxt s x) ?s"
    using Cons.prems(1,4,5) c
    by (simp add: fuel cb_nxt_def dispatched_def sNodeDropRef_effect [where c = "c\<lparr>cb_next := NULL\<rparr>"])
  also have "\<dots> = Inr ((), ?s\<lparr>user := fold (run_node cbu (callbacks ?s)) xs (user ?s),
              callbacks := on_nodes (set xs) dispatched (callbacks ?s)\<rparr>)"
    using Cons.prems x by (intro Cons.IH nxt) (auto simp: fuel)
  also have "\<dots> = Inr ((), s\<lparr>user := fold (run_node cbu (callbacks s)) (x # xs) (user s),
              callbacks := on_nodes (set (x # xs)) dispatched (callbacks s)\<rparr>)"
    using on_nodes_insert [of "callbacks s" x c "set xs" dispatched] c(1) x
    by (simp add: fold_run_node_upd run_node_def)
  finally show ?case .
qed simp

text \<open>
  Cancelling a live, uncancelled token: every callback of its list runs once, in list order,
  and afterwards the token is cancelled with an empty list.
\<close>

lemma cancel_effect:
  assumes inv: "cancel_inv own L s" and k: "tokens s t = Some k" and canc: "\<not> tok_is_cancelled k"
    and fuel: "length (L t) \<le> fuel"
  obtains s' where "UfsrvCancellationTokenCancel (passive_call cbu) fuel (Some t) s = Inr ((), s')"
    and "cancel_inv own (L(t := [])) s'"
    and "user s' = fold (run_node cbu (infos s)) (L t) (user s)"
    and "infos s' = detach (set (L t)) (infos s)"
    and "tinfos s' = (tinfos s)(t \<mapsto> k\<lparr>tok_head := NULL, tok_is_cancelled := True\<rparr>)"
    and "next_addr s' = next_addr s"
proof -
  let ?A = "set (L t)"
  note core = cancel_inv_core [OF inv]
  have unlocked: "\<not> tok_lock k" by (rule cancel_inv_lock [OF inv k])
  have live: "token_live s t" using k by (simp add: token_live_def)
  have dl: "dlist (cb_nxt s) (cb_prv s) NULL (tok_head k) (L t)"
    using cancel_inv_dlist [OF inv live] k by (simp add: tok_hd_def)
  note di = dlist_distinct [OF dl] and ch = dlist_chain [OF dl]
  let ?k = "k\<lparr>tok_head := NULL, tok_is_cancelled := True\<rparr>"
  define s1 where "s1 = s\<lparr>tokens := (tokens s)(t \<mapsto> k\<lparr>tok_lock := True, tok_is_cancelled := True, tok_head := NULL\<rparr>)\<rparr>"
  have kk: "k\<lparr>tok_is_cancelled := True, tok_head := NULL, tok_lock := False\<rparr> = ?k"
    using unlocked by (cases k) simp
  define s2 where "s2 = s\<lparr>callbacks := on_nodes ?A detached (callbacks s), tokens := (tokens s)(t \<mapsto> ?k)\<rparr>"
  define s' where "s' = s2\<lparr>user := fold (run_node cbu (infos s)) (L t) (user s),
              callbacks := on_nodes ?A dispatched (callbacks s2)\<rparr>"
  have "cb_nxt s2 = cb_nxt s"
    by (auto simp: s2_def cb_nxt_def on_nodes_def detached_def fun_eq_iff split: option.split)
  then have ch2: "chain (cb_nxt s2) (tok_head k) (L t)" using ch by simp
  have node: "\<exists>c. callbacks s x = Some c \<and> cb_token c = t \<and> cb_refcount c = 2" if "x \<in> ?A" for x
    using cancel_inv_node [OF inv that] by blast
  have det: "cancel_detach_loop fuel (tok_head k) s1 =
      Inr ((), s1\<lparr>callbacks := on_nodes ?A detached (callbacks s)\<rparr>)"
    using detach_loop_effect [of s1 "tok_head k" "L t" fuel] ch di fuel node
    by (auto simp: s1_def cb_live_def)
  have dis: "cancel_dispatch_loop (passive_call cbu) fuel (tok_head k) s2 = Inr ((), s')"
  proof -
    have "\<forall>x\<in>?A. \<exists>c. callbacks s2 x = Some c \<and> cb_token c = t \<and> cb_refcount c = 2"
      using node by (fastforce simp: s2_def on_nodes_def detached_def)
    from dispatch_loop_effect [OF ch2 di this _ _ fuel, of ?k cbu] show ?thesis
      using unlocked by (simp add: s2_def s'_def run_node_infos [abs_def])
  qed
  have eq: "UfsrvCancellationTokenCancel (passive_call cbu) fuel (Some t) s = Inr ((), s')"
    using k canc unlocked det dis
    by (simp add: UfsrvCancellationTokenCancel_def token_mutex_lock_def token_mutex_unlock_def
        s1_def s2_def kk)
  have i: "infos s' = detach ?A (infos s)"
    by (auto simp: s'_def s2_def infos_def detach_def on_nodes_def detached_def dispatched_def
        fun_eq_iff option.map_comp comp_def intro!: option.map_cong)
  have ti: "tinfos s' = (tinfos s)(t \<mapsto> ?k)"
    by (auto simp: s'_def s2_def tinfos_def fun_eq_iff)
  have "cancel_inv own (L(t := [])) s'"
  proof (rule cancel_invI)
    show "cancel_core own (L(t := [])) (tinfos s') (infos s')"
      unfolding i ti using core_cancel [OF core tinfos_Some [OF k]] by simp
    show "dlist (cb_nxt s') (cb_prv s') NULL (tok_hd s' t') ((L(t := [])) t')" if "token_live s' t'" for t'
    proof (cases "t' = t")
      case False
      then have l: "dlist (cb_nxt s) (cb_prv s) NULL (tok_hd s t') (L t')"
        using cancel_inv_dlist [OF inv, of t'] that by (simp add: s'_def s2_def token_live_def)
      have "cb_nxt s' x = cb_nxt s x \<and> cb_prv s' x = cb_prv s x" if "x \<in> set (L t')" for x
        using cancel_inv_disjoint [OF inv, of t t'] False that
        by (auto simp: s'_def s2_def cb_nxt_def cb_prv_def on_nodes_def split: option.split)
      moreover have "tok_hd s' t' = tok_hd s t'" using False by (simp add: s'_def s2_def tok_hd_def)
      ultimately show ?thesis using l False dlist_cong [of "L t'" "cb_nxt s'" "cb_nxt s"] by auto
    qed (simp add: s'_def s2_def tok_hd_def)
    show "tinfos s' a = None \<and> infos s' a = None" if "next_addr s' \<le> a" for a
      using that cancel_inv_bound [OF inv, of a] tinfos_Some [OF k] unfolding i ti
      by (auto simp: s'_def s2_def detach_def)
  qed
  then show thesis by (rule that [OF eq _ _ i ti]) (simp_all add: s'_def s2_def)
qed

text \<open>Cancelling again does nothing.\<close>

lemma cancel_again:
  assumes "tokens s t = Some k" and "tok_is_cancelled k" and "\<not> tok_lock k"
  shows "UfsrvCancellationTokenCancel call fuel (Some t) s = Inr ((), s)"
proof -
  have "k\<lparr>tok_lock := True, tok_is_cancelled := True, tok_lock := False\<rparr> = k"
    using assms by (cases k) simp
  then have "s\<lparr>tokens := (tokens s)(t \<mapsto> k\<lparr>tok_lock := True, tok_is_cancelled := True, tok_lock := False\<rparr>)\<rparr> = s"
    using assms(1) by (simp add: map_upd_triv)
  then show ?thesis
    using assms by (simp add: UfsrvCancellationTokenCancel_def token_mutex_lock_def token_mutex_unlock_def)
qed

end
