(* ===== verification/Cancellation_Spec.thy ===== *)
theory Cancellation_Spec
  imports Cancellation_Ops
begin

text \<open>
  What the cancellation API promises, as an abstract registry without pointers, reference
  counts or locks, and the proof that the token code implements it.  The registry knows for
  each live token whether it is cancelled, how many references callers hold, how many
  registrations have not been unregistered, which
  registrations are pending (most recent first), and for each handle its callback.
\<close>

section \<open>The abstract registry\<close>

record ('u, 'fn) registry =
  r_user :: 'u
  r_own :: "addr \<Rightarrow> nat"
  r_tokens :: "addr \<rightharpoonup> bool"
  r_count :: "addr \<Rightarrow> nat"
  r_pending :: "addr \<Rightarrow> addr list"
  r_nodes :: "addr \<rightharpoonup> addr \<times> 'fn \<times> ptr \<times> 'fn option"

text \<open>The calls of the API, with arguments that are not \<open>NULL\<close>.\<close>

datatype 'fn cancel_api =
    Api_Create
  | Api_Register addr 'fn ptr "'fn option"
  | Api_Unregister addr
  | Api_Cancel addr
  | Api_Destroy addr

text \<open>
  The client's side of the contract: it uses a token only while it holds a reference on it,
  and a handle only until it has unregistered it.
\<close>

fun admissible :: "('u, 'fn) registry \<Rightarrow> 'fn cancel_api \<Rightarrow> bool" where
  "admissible A Api_Create \<longleftrightarrow> True"
| "admissible A (Api_Register t f x r) \<longleftrightarrow> 0 < r_own A t"
| "admissible A (Api_Unregister n) \<longleftrightarrow> r_nodes A n \<noteq> None"
| "admissible A (Api_Cancel t) \<longleftrightarrow> 0 < r_own A t"
| "admissible A (Api_Destroy t) \<longleftrightarrow> 0 < r_own A t"

text \<open>A token goes away with its last reference: the callers' and the registrations'.\<close>

definition r_reap :: "addr \<Rightarrow> ('u, 'fn) registry \<Rightarrow> ('u, 'fn) registry" where
  "r_reap t A =
     (if r_own A t = 0 \<and> r_count A t = 0
      then A\<lparr>r_tokens := (r_tokens A)(t := None)\<rparr> else A)"

definition r_run :: "('fn \<Rightarrow> ptr \<Rightarrow> 'u \<Rightarrow> 'u) \<Rightarrow> (addr \<rightharpoonup> addr \<times> 'fn \<times> ptr \<times> 'fn option) \<Rightarrow> addr \<Rightarrow> 'u \<Rightarrow> 'u" where
  "r_run cbu m n u = (case m n of None \<Rightarrow> u | Some (t, f, x, r) \<Rightarrow> cbu f x u)"

definition r_release :: "('fn \<Rightarrow> ptr \<Rightarrow> 'u \<Rightarrow> 'u) \<Rightarrow> ptr \<Rightarrow> 'fn option \<Rightarrow> 'u \<Rightarrow> 'u" where
  "r_release cbu x r u = (case r of None \<Rightarrow> u | Some g \<Rightarrow> cbu g x u)"

text \<open>
  One call on the registry: \<open>n\<close> is the address the allocator returns, \<open>ok\<close> whether
  allocation succeeds.
\<close>

fun registry_step ::
  "('fn \<Rightarrow> ptr \<Rightarrow> 'u \<Rightarrow> 'u) \<Rightarrow> bool \<Rightarrow> addr \<Rightarrow> 'fn cancel_api \<Rightarrow> ('u, 'fn) registry \<Rightarrow> ('u, 'fn) registry" where
  "registry_step cbu ok n Api_Create A =
     (if ok then A\<lparr>r_own := (r_own A)(n := 1), r_tokens := (r_tokens A)(n \<mapsto> False)\<rparr> else A)"
| "registry_step cbu ok n (Api_Register t f x r) A =
     (if \<not> ok then A
      else if r_tokens A t = Some True
      then A\<lparr>r_nodes := (r_nodes A)(n \<mapsto> (t, f, x, r)), r_count := (r_count A)(t := r_count A t + 1),
             r_user := cbu f x (r_user A)\<rparr>
      else A\<lparr>r_nodes := (r_nodes A)(n \<mapsto> (t, f, x, r)), r_count := (r_count A)(t := r_count A t + 1),
             r_pending := (r_pending A)(t := n # r_pending A t)\<rparr>)"
| "registry_step cbu ok n (Api_Unregister h) A =
     (case r_nodes A h of
        None \<Rightarrow> A
      | Some (t, f, x, r) \<Rightarrow>
          r_reap t (A\<lparr>r_nodes := (r_nodes A)(h := None), r_count := (r_count A)(t := r_count A t - 1), r_user := r_release cbu x r (r_user A),
                      r_pending := (r_pending A)(t := remove1 h (r_pending A t))\<rparr>))"
| "registry_step cbu ok n (Api_Cancel t) A =
     (if r_tokens A t = Some True then A
      else A\<lparr>r_user := fold (r_run cbu (r_nodes A)) (r_pending A t) (r_user A),
             r_tokens := (r_tokens A)(t \<mapsto> True), r_pending := (r_pending A)(t := [])\<rparr>)"
| "registry_step cbu ok n (Api_Destroy t) A =
     r_reap t (A\<lparr>r_own := (r_own A)(t := r_own A t - 1)\<rparr>)"

text \<open>The result of a call, in the same terms: a new address, or the answer of \<open>Unregister\<close>.\<close>

fun registry_result :: "bool \<Rightarrow> addr \<Rightarrow> 'fn cancel_api \<Rightarrow> ('u, 'fn) registry \<Rightarrow> ptr + bool" where
  "registry_result ok n Api_Create A = Inl (if ok then Some n else NULL)"
| "registry_result ok n (Api_Register t f x r) A = Inl (if ok then Some n else NULL)"
| "registry_result ok n (Api_Unregister h) A =
     Inr (case r_nodes A h of None \<Rightarrow> False | Some (t, y) \<Rightarrow> h \<in> set (r_pending A t))"
| "registry_result ok n (Api_Cancel t) A = Inl NULL"
| "registry_result ok n (Api_Destroy t) A = Inl NULL"

section \<open>Running the code\<close>

text \<open>
  The same calls on the code.  Every list node has an address below \<open>next_addr\<close>, so
  that number of steps is enough for every list walk.
\<close>

fun run_api :: "('fn \<Rightarrow> ptr \<Rightarrow> 'u \<Rightarrow> 'u) \<Rightarrow> 'fn cancel_api \<Rightarrow> ('u, 'fn, 'z, ptr + bool) cprog" where
  "run_api cbu Api_Create = bindm UfsrvCancellationTokenCreate (\<lambda>p. ret (Inl p))"
| "run_api cbu (Api_Register t f x r) =
     bindm (UfsrvCancellationTokenRegisterEx (passive_call cbu) (Some t) (Some f) x r) (\<lambda>p. ret (Inl p))"
| "run_api cbu (Api_Unregister h) =
     bindm (gets next_addr) (\<lambda>fuel.
     bindm (UfsrvCancellationTokenUnregister (passive_call cbu) fuel (Some h)) (\<lambda>b. ret (Inr b)))"
| "run_api cbu (Api_Cancel t) =
     bindm (gets next_addr) (\<lambda>fuel.
     bindm (UfsrvCancellationTokenCancel (passive_call cbu) fuel (Some t)) (\<lambda>_. ret (Inl NULL)))"
| "run_api cbu (Api_Destroy t) =
     bindm (gets next_addr) (\<lambda>fuel.
     bindm (UfsrvCancellationTokenDestroy (passive_call cbu) fuel (Some t)) (\<lambda>_. ret (Inl NULL)))"

text \<open>Whether the allocations a call makes succeed (\<open>Create\<close> also initialises a mutex).\<close>

fun api_alloc_ok :: "('u, 'fn, 'z) cancel_sys_scheme \<Rightarrow> 'fn cancel_api \<Rightarrow> bool" where
  "api_alloc_ok s Api_Create \<longleftrightarrow> sys_ok s (next_addr s) \<and> sys_ok s (Suc (next_addr s))"
| "api_alloc_ok s a \<longleftrightarrow> sys_ok s (next_addr s)"

definition node_sig :: "'fn UfsrvCancellationCallback \<Rightarrow> addr \<times> 'fn \<times> ptr \<times> 'fn option" where
  "node_sig c = (cb_token c, cb_fn c, cb_context c, cb_release_context c)"

definition registry_rel :: "('u, 'fn) registry \<Rightarrow> ('u, 'fn, 'z) cancel_sys_scheme \<Rightarrow> bool" where
  "registry_rel A s \<longleftrightarrow>
     cancel_inv (r_own A) (r_pending A) s \<and> r_user A = user s \<and>
     r_nodes A = map_option node_sig \<circ> infos s \<and>
     r_tokens A = map_option tok_is_cancelled \<circ> tinfos s \<and>
     r_count A = (\<lambda>t. card (nodes_of (infos s) t))"

section \<open>The code refines the registry\<close>

lemma node_sig_upd [simp]:
  "node_sig (c\<lparr>cb_prev := p\<rparr>) = node_sig c" "node_sig (c\<lparr>cb_next := p\<rparr>) = node_sig c"
  "node_sig (c\<lparr>cb_active := b\<rparr>) = node_sig c" "node_sig (c\<lparr>cb_claimed := b\<rparr>) = node_sig c"
  "node_sig (c\<lparr>cb_refcount := i\<rparr>) = node_sig c"
  by (simp_all add: node_sig_def)

lemma node_sig_new [simp]: "node_sig (new_node t f x r b) = (t, f, x, r)"
  by (simp add: node_sig_def new_node_def)

lemma r_run_sig: "r_run cbu (map_option node_sig \<circ> m) = run_node cbu m"
  by (auto simp: r_run_def run_node_def node_sig_def fun_eq_iff split: option.split)

lemma r_release_sig: "r_release cbu (cb_context c) (cb_release_context c) = release_user cbu c"
  by (simp add: r_release_def release_user_def fun_eq_iff)

lemma release_user_new [simp]: "release_user cbu (new_node t f x r b) = r_release cbu x r"
  by (auto simp: new_node_def release_user_def r_release_def fun_eq_iff split: option.split)

lemma new_node_token: "cb_token (new_node t f x r b) = t"
  by (simp add: new_node_def)

lemma count_new:
  assumes "cancel_inv own L s" and "infos s n = None"
  shows "(\<lambda>t'. card (nodes_of ((infos s)(n \<mapsto> new_node t f x r b)) t')) =
         (\<lambda>t'. card (nodes_of (infos s) t'))(t := card (nodes_of (infos s) t) + 1)"
  using finite_nodes_of [OF cancel_coreD(10) [OF cancel_inv_core [OF assms(1)]]] assms(2)
  by (auto simp: fun_eq_iff nodes_of_upd new_node_token nodes_of_def [of "infos s"])

text \<open>Enough fuel: the nodes of a list are distinct addresses below \<open>next_addr\<close>.\<close>

lemma cancel_inv_length:
  assumes inv: "cancel_inv own L s" and "token_live s t"
  shows "length (L t) \<le> next_addr s"
proof -
  have di: "distinct (L t)" using dlist_distinct [OF cancel_inv_dlist [OF assms]] .
  have "set (L t) \<subseteq> {..<next_addr s}"
  proof
    fix n assume "n \<in> set (L t)"
    from cancel_coreD(8) [OF cancel_inv_core [OF inv] this] cancel_inv_bound [OF inv, of n]
    show "n \<in> {..<next_addr s}" by (cases "next_addr s \<le> n") auto
  qed
  then have "card (set (L t)) \<le> card {..<next_addr s}" by (intro card_mono) auto
  then show ?thesis using distinct_card [OF di] by simp
qed

lemma registry_relD:
  assumes "registry_rel A s"
  shows "cancel_inv (r_own A) (r_pending A) s" and "r_user A = user s"
    and "r_nodes A = map_option node_sig \<circ> infos s"
    and "r_tokens A = map_option tok_is_cancelled \<circ> tinfos s"
    and "r_count A = (\<lambda>t. card (nodes_of (infos s) t))"
  using assms by (simp_all add: registry_rel_def)

lemma registry_own_live:
  assumes "registry_rel A s" and "0 < r_own A t"
  obtains k where "tokens s t = Some k" and "r_tokens A t = Some (tok_is_cancelled k)"
  using cancel_coreD(9) [OF cancel_inv_core [OF registry_relD(1) [OF assms(1)]] assms(2)]
    registry_relD(4) [OF assms(1)]
  by (auto simp: tinfos_def)

text \<open>The token part of dropping a reference, concrete and abstract.\<close>

lemma reap_rel:
  assumes inv: "cancel_inv (r_own A) (r_pending A) s'" and "r_user A = user s'"
    and nodes: "r_nodes A = map_option node_sig \<circ> infos s'"
    and ts: "r_tokens A = map_option tok_is_cancelled \<circ> tinfos s"
    and k: "tinfos s t = Some k" and drop: "tinfos s' = drop_token_ref t k (tinfos s)"
    and cnt: "r_count A = (\<lambda>t. card (nodes_of (infos s') t))"
    and rc: "tok_refcount k = 1 + int (r_own A t) + int (card (nodes_of (infos s') t))"
  shows "registry_rel (r_reap t A) s'"
proof -
  have *: "tok_refcount k = 1 \<longleftrightarrow> r_own A t = 0 \<and> r_count A t = 0" unfolding cnt using rc by linarith
  show ?thesis
  proof (cases "tok_refcount k = 1")
    case True
    then have "r_reap t A = A\<lparr>r_tokens := (r_tokens A)(t := None)\<rparr>"
      using * by (simp add: r_reap_def)
    then show ?thesis using assms True by (auto simp: registry_rel_def drop_token_ref_def fun_eq_iff)
  next
    case False
    then have "r_reap t A = A" using * by (auto simp: r_reap_def)
    then show ?thesis using assms False by (auto simp: registry_rel_def drop_token_ref_def fun_eq_iff)
  qed
qed

text \<open>One call of the code against one call of the registry: it returns, with the registry's result.\<close>

definition refines_call ::
  "('fn \<Rightarrow> ptr \<Rightarrow> 'u \<Rightarrow> 'u) \<Rightarrow> 'fn cancel_api \<Rightarrow> ('u, 'fn) registry \<Rightarrow> ('u, 'fn, 'z) cancel_sys_scheme \<Rightarrow> bool" where
  "refines_call cbu a A s \<longleftrightarrow>
     (\<exists>s'. run_api cbu a s = Inr (registry_result (api_alloc_ok s a) (next_addr s) a A, s') \<and>
           registry_rel (registry_step cbu (api_alloc_ok s a) (next_addr s) a A) s')"

lemma cancel_inv_next_addr:
  "cancel_inv own L s \<Longrightarrow> next_addr s \<le> a \<Longrightarrow> cancel_inv own L (s\<lparr>next_addr := a\<rparr>)"
  by (auto simp: cancel_inv_def token_live_def)

lemma registry_rel_next_addr:
  "registry_rel A s \<Longrightarrow> next_addr s \<le> a \<Longrightarrow> registry_rel A (s\<lparr>next_addr := a\<rparr>)"
  by (simp add: registry_rel_def cancel_inv_next_addr)

lemma refine_create:
  assumes rel: "registry_rel A s"
  shows "refines_call cbu Api_Create A s"
proof (cases "sys_ok s (next_addr s) \<and> sys_ok s (Suc (next_addr s))")
  case True
  then obtain s' where "UfsrvCancellationTokenCreate s = Inr (Some (next_addr s), s')"
    and "cancel_inv ((r_own A)(next_addr s := 1)) (r_pending A) s'" and "user s' = user s"
    and "tinfos s' = (tinfos s)(next_addr s \<mapsto> \<lparr>tok_refcount = 1, tok_lock = False, tok_is_cancelled = False, tok_head = NULL\<rparr>)"
    and "infos s' = infos s"
    using token_create_effect [OF registry_relD(1) [OF rel]] by metis
  with True show ?thesis
    using registry_relD [OF rel] by (auto simp: refines_call_def registry_rel_def fun_upd_comp)
next
  case False
  then consider "\<not> sys_ok s (next_addr s)" | "sys_ok s (next_addr s)" "\<not> sys_ok s (Suc (next_addr s))" by blast
  then show ?thesis
    by cases (use rel False in \<open>auto simp: refines_call_def UfsrvCancellationTokenCreate_def
      intro: registry_rel_next_addr\<close>)
qed

lemma refine_register:
  assumes rel: "registry_rel A s" and own: "0 < r_own A t"
  shows "refines_call cbu (Api_Register t f x r) A s"
proof -
  note inv = registry_relD(1) [OF rel]
  obtain k where k: "tokens s t = Some k" and canc: "r_tokens A t = Some (tok_is_cancelled k)"
    by (rule registry_own_live [OF assms])
  consider "\<not> sys_ok s (next_addr s)" | "sys_ok s (next_addr s)" "tok_is_cancelled k"
    | "sys_ok s (next_addr s)" "\<not> tok_is_cancelled k" by blast
  then show ?thesis
  proof cases
    case 1
    then show ?thesis
      using rel by (auto simp: refines_call_def register_oom_effect intro: registry_rel_next_addr)
  next
    case 2
    obtain s' where "UfsrvCancellationTokenRegisterEx (passive_call cbu) (Some t) (Some f) x r s = Inr (Some (next_addr s), s')"
      and "cancel_inv (r_own A) (r_pending A) s'" and "user s' = cbu f x (user s)" and n: "infos s (next_addr s) = None"
      and "infos s' = (infos s)(next_addr s \<mapsto> new_node t f x r False)"
      and "tinfos s' = (tinfos s)(t \<mapsto> k\<lparr>tok_head := NULL, tok_refcount := tok_refcount k + 1\<rparr>)"
      using register_cancelled_effect [OF inv k 2(2,1)] by metis
    with 2 canc k show ?thesis
      using registry_relD [OF rel] count_new [OF inv n, of t f x r False] by (auto simp: refines_call_def registry_rel_def fun_upd_comp fun_upd_idem_iff tinfos_def)
  next
    case 3
    obtain s' where "UfsrvCancellationTokenRegisterEx (passive_call cbu) (Some t) (Some f) x r s = Inr (Some (next_addr s), s')"
      and "cancel_inv (r_own A) ((r_pending A)(t := next_addr s # r_pending A t)) s'" and "user s' = user s" and n: "infos s (next_addr s) = None"
      and "infos s' = (infos s)(next_addr s \<mapsto> new_node t f x r True)"
      and "tinfos s' = (tinfos s)(t \<mapsto> k\<lparr>tok_head := NULL, tok_refcount := tok_refcount k + 1\<rparr>)"
      using register_effect [OF inv k 3(2,1)] by metis
    with 3 canc k show ?thesis
      using registry_relD [OF rel] count_new [OF inv n, of t f x r True] by (auto simp: refines_call_def registry_rel_def fun_upd_comp fun_upd_idem_iff tinfos_def)
  qed
qed

lemma refine_unregister:
  assumes rel: "registry_rel A s" and h: "r_nodes A h \<noteq> None"
  shows "refines_call cbu (Api_Unregister h) A s"
proof -
  note inv = registry_relD(1) [OF rel] and core = cancel_inv_core [OF registry_relD(1) [OF rel]]
  from h obtain c where c: "callbacks s h = Some c" by (auto simp: registry_relD(3) [OF rel] infos_def)
  define t where "t = cb_token c"
  have nd: "r_nodes A h = Some (t, cb_fn c, cb_context c, cb_release_context c)"
    using c by (simp add: registry_relD(3) [OF rel] infos_def node_sig_def t_def)
  obtain s' k where k: "tokens s t = Some k"
    and run: "UfsrvCancellationTokenUnregister (passive_call cbu) (next_addr s) (Some h) s = Inr (h \<in> set (r_pending A t), s')"
    and inv': "cancel_inv (r_own A) ((r_pending A)(t := remove1 h (r_pending A t))) s'"
    and u: "user s' = release_user cbu c (user s)" and i: "infos s' = (infos s)(h := None)"
    and ti: "tinfos s' = drop_token_ref t (k\<lparr>tok_head := NULL\<rparr>) (tinfos s)"
    using unregister_effect [OF inv c t_def] by metis
  have mem: "h \<in> nodes_of (infos s) t" using c by (auto simp: nodes_of_def infos_def t_def)
  have fin: "finite (nodes_of (infos s) t)" by (rule finite_nodes_of [OF cancel_coreD(10) [OF core]])
  have rc: "tok_refcount k = 1 + int (r_own A t) + int (card (nodes_of (infos s') t))"
    using cancel_coreD(3) [OF core tinfos_Some [OF k]] card.remove [OF fin mem]
    by (simp add: i nodes_of_upd)
  have cnt: "(r_count A)(t := r_count A t - 1) = (\<lambda>t'. card (nodes_of (infos s') t'))"
  proof
    fix t'
    have "t' \<noteq> t \<Longrightarrow> h \<notin> nodes_of (infos s) t'" using mem by (auto simp: nodes_of_def)
    then show "((r_count A)(t := r_count A t - 1)) t' = card (nodes_of (infos s') t')"
      using card.remove [OF fin mem] by (simp add: registry_relD(5) [OF rel] i nodes_of_upd)
  qed
  let ?B = "A\<lparr>r_nodes := (r_nodes A)(h := None), r_count := (r_count A)(t := r_count A t - 1), r_user := r_release cbu (cb_context c) (cb_release_context c) (r_user A),
              r_pending := (r_pending A)(t := remove1 h (r_pending A t))\<rparr>"
  have "registry_rel (r_reap t ?B) s'"
    by (rule reap_rel [OF _ _ _ _ tinfos_Some [OF k] ti])
      (use inv' u i rc cnt registry_relD [OF rel] in \<open>auto simp: r_release_sig fun_upd_comp\<close>)
  then show ?thesis using run nd by (simp add: refines_call_def)
qed

lemma refine_cancel:
  assumes rel: "registry_rel A s" and own: "0 < r_own A t"
  shows "refines_call cbu (Api_Cancel t) A s"
proof -
  note inv = registry_relD(1) [OF rel]
  obtain k where k: "tokens s t = Some k" and canc: "r_tokens A t = Some (tok_is_cancelled k)"
    by (rule registry_own_live [OF assms])
  show ?thesis
  proof (cases "tok_is_cancelled k")
    case True
    then show ?thesis
      using cancel_again [OF k True cancel_inv_lock [OF inv k]] canc rel by (simp add: refines_call_def)
  next
    case False
    have fuel: "length (r_pending A t) \<le> next_addr s"
      by (rule cancel_inv_length [OF inv]) (simp add: token_live_def k)
    obtain s' where run: "UfsrvCancellationTokenCancel (passive_call cbu) (next_addr s) (Some t) s = Inr ((), s')"
      and "cancel_inv (r_own A) ((r_pending A)(t := [])) s'"
      and u: "user s' = fold (run_node cbu (infos s)) (r_pending A t) (user s)"
      and i: "infos s' = detach (set (r_pending A t)) (infos s)"
      and "tinfos s' = (tinfos s)(t \<mapsto> k\<lparr>tok_head := NULL, tok_is_cancelled := True\<rparr>)"
      using cancel_effect [OF inv k False fuel] by metis
    moreover have "map_option node_sig \<circ> infos s' = map_option node_sig \<circ> infos s"
      by (auto simp: i detach_def fun_eq_iff option.map_comp comp_def)
    moreover have "fold (r_run cbu (r_nodes A)) (r_pending A t) (r_user A) = user s'"
      by (simp only: registry_relD(2,3) [OF rel] r_run_sig u)
    ultimately have "registry_rel (A\<lparr>r_user := fold (r_run cbu (r_nodes A)) (r_pending A t) (r_user A),
        r_tokens := (r_tokens A)(t \<mapsto> True), r_pending := (r_pending A)(t := [])\<rparr>) s'"
      using registry_relD(3-5) [OF rel] by (auto simp: registry_rel_def i)
    with run canc False show ?thesis by (simp add: refines_call_def)
  qed
qed

lemma refine_destroy:
  assumes rel: "registry_rel A s" and own: "0 < r_own A t"
  shows "refines_call cbu (Api_Destroy t) A s"
proof -
  note inv = registry_relD(1) [OF rel] and core = cancel_inv_core [OF registry_relD(1) [OF rel]]
  obtain s' k where k: "tokens s t = Some k"
    and run: "UfsrvCancellationTokenDestroy (passive_call cbu) (next_addr s) (Some t) s = Inr ((), s')"
    and inv': "cancel_inv ((r_own A)(t := r_own A t - 1)) (r_pending A) s'"
    and u: "user s' = user s" and ts: "tokens s' = drop_token_ref t k (tokens s)"
    and cs: "callbacks s' = callbacks s"
    using token_destroy_effect [OF inv own] by metis
  have i: "infos s' = infos s" by (simp add: infos_def fun_eq_iff cs)
  have ti: "tinfos s' = drop_token_ref t (k\<lparr>tok_head := NULL\<rparr>) (tinfos s)"
    by (auto simp: tinfos_def fun_eq_iff ts drop_token_ref_def)
  have rc: "tok_refcount k = 1 + int (r_own A t - 1) + int (card (nodes_of (infos s') t))"
    using cancel_coreD(3) [OF core tinfos_Some [OF k]] own by (simp add: i)
  have "registry_rel (r_reap t (A\<lparr>r_own := (r_own A)(t := r_own A t - 1)\<rparr>)) s'"
    by (rule reap_rel [OF _ _ _ _ tinfos_Some [OF k] ti])
      (use inv' u i rc registry_relD [OF rel] in \<open>auto simp: fun_upd_comp\<close>)
  then show ?thesis using run by (simp add: refines_call_def)
qed

section \<open>Sequences of calls\<close>

text \<open>
  Running a sequence of calls on the code; the first call that breaks the client's contract
  ends it (the registry decides admissibility).
\<close>

fun run_calls ::
  "('fn \<Rightarrow> ptr \<Rightarrow> 'u \<Rightarrow> 'u) \<Rightarrow> 'fn cancel_api list \<Rightarrow> ('u, 'fn, 'z, (ptr + bool) list) cprog" where
  "run_calls cbu [] = ret []"
| "run_calls cbu (a # as) =
     bindm (run_api cbu a) (\<lambda>r. bindm (run_calls cbu as) (\<lambda>rs. ret (r # rs)))"

text \<open>
  The registry's states along a sequence, with the allocator's answers read off the code's
  states; \<open>None\<close> when a call is not admissible.
\<close>

fun registry_run ::
  "('fn \<Rightarrow> ptr \<Rightarrow> 'u \<Rightarrow> 'u) \<Rightarrow> 'fn cancel_api list \<Rightarrow> ('u, 'fn) registry \<Rightarrow>
   ('u, 'fn, 'z) cancel_sys_scheme \<Rightarrow> ((ptr + bool) list \<times> ('u, 'fn) registry) option" where
  "registry_run cbu [] A s = Some ([], A)"
| "registry_run cbu (a # as) A s =
     (if admissible A a then
        (case registry_run cbu as (registry_step cbu (api_alloc_ok s a) (next_addr s) a A) (exec (run_api cbu a) s) of
           None \<Rightarrow> None
         | Some (rs, B) \<Rightarrow> Some (registry_result (api_alloc_ok s a) (next_addr s) a A # rs, B))
      else None)"

lemma refine_call:
  assumes "registry_rel A s" and "admissible A a"
  shows "refines_call cbu a A s"
  using assms
  by (cases a) (simp_all add: refine_create refine_register refine_unregister refine_cancel refine_destroy)

lemma refine_calls:
  "registry_rel A s \<Longrightarrow> registry_run cbu as A s = Some (rs, B) \<Longrightarrow>
   \<exists>s'. run_calls cbu as s = Inr (rs, s') \<and> registry_rel B s'"
proof (induction as arbitrary: A s rs)
  case (Cons a as)
  from Cons.prems(2) have adm: "admissible A a" by (simp split: if_splits)
  obtain s1 where run: "run_api cbu a s = Inr (registry_result (api_alloc_ok s a) (next_addr s) a A, s1)"
    and rel: "registry_rel (registry_step cbu (api_alloc_ok s a) (next_addr s) a A) s1"
    using refine_call [OF Cons.prems(1) adm] unfolding refines_call_def by blast
  obtain rs1 where rs: "rs = registry_result (api_alloc_ok s a) (next_addr s) a A # rs1"
    and rest: "registry_run cbu as (registry_step cbu (api_alloc_ok s a) (next_addr s) a A) s1 = Some (rs1, B)"
    using Cons.prems(2) adm run by (auto split: option.splits)
  from Cons.IH [OF rel rest] obtain s' where "run_calls cbu as s1 = Inr (rs1, s')" "registry_rel B s'" by blast
  with run rs show ?case by auto
qed simp

text \<open>The state before the first call (addresses below 16 are never allocated), and its registry.\<close>

definition cancel_init :: "'u \<Rightarrow> (nat \<Rightarrow> bool) \<Rightarrow> ('u, 'fn) cancel_sys" where
  "cancel_init u ok = \<lparr>user = u, next_addr = 16, sys_ok = ok, tokens = Map.empty, callbacks = Map.empty\<rparr>"

definition registry_init :: "'u \<Rightarrow> ('u, 'fn) registry" where
  "registry_init u = \<lparr>r_user = u, r_own = (\<lambda>_. 0), r_tokens = Map.empty, r_count = (\<lambda>_. 0), r_pending = (\<lambda>_. []), r_nodes = Map.empty\<rparr>"

lemma infos_init [simp]: "infos (cancel_init u ok) = Map.empty" "tinfos (cancel_init u ok) = Map.empty"
  by (auto simp: cancel_init_def infos_def tinfos_def)

lemma registry_rel_init: "registry_rel (registry_init u) (cancel_init u ok)"
  by (simp add: registry_rel_def cancel_inv_def cancel_core_def token_live_tinfos registry_init_def comp_def)
    (simp add: cancel_init_def nodes_of_def)

text \<open>The registry never forgets a token that is still referenced, nor keeps one that is not.\<close>

lemma registry_no_leak:
  assumes rel: "registry_rel A s" and "\<And>t. r_own A t = 0" and "r_nodes A = Map.empty"
  shows "tokens s = Map.empty" and "callbacks s = Map.empty"
proof -
  have c: "callbacks s n = None" for n
    using registry_relD(3) [OF rel] assms(3) by (auto simp: fun_eq_iff infos_def)
  then show "callbacks s = Map.empty" by auto
  have "nodes_of (infos s) t = {}" for t using c by (auto simp: nodes_of_def infos_def)
  then have "tokens s t = None" for t
    using cancel_coreD(3,4) [OF cancel_inv_core [OF registry_relD(1) [OF rel]], of t] assms(2)
    by (cases "tokens s t") (auto simp: tinfos_def)
  then show "tokens s = Map.empty" by auto
qed

section \<open>Properties\<close>

text \<open>
C25: every sequence of API calls that keeps the client's contract runs on the code without a
fault (no use after free, no deadlock on the token mutex, no loop out of fuel), returns the
results of the abstract registry and ends in a state the registry describes.
\<close>

theorem cancellation_refines_registry:
  assumes "registry_run cbu as (registry_init u) (cancel_init u ok) = Some (rs, B)"
  shows "\<exists>s'. run_calls cbu as (cancel_init u ok) = Inr (rs, s') \<and> registry_rel B s'"
  by (rule refine_calls [OF registry_rel_init assms])

text \<open>The code's definitions, to run it on concrete states.\<close>

lemmas cancel_code = exec_def UfsrvCancellationTokenCreate_def UfsrvCancellationTokenRegisterEx_def
  UfsrvCancellationTokenRetainInternal_def UfsrvCancellationTokenUnregister_def
  UfsrvCancellationTokenCancel_def UfsrvCancellationTokenDestroy_def token_mutex_lock_def
  token_mutex_unlock_def cb_list_link_def cb_list_unlink_def sTokenRelease_def sNodeFree_def
  sNodeDropRef_def

lemma loops_numeral:
  "cancel_detach_loop (numeral v) (Some walk) =
     bindm (upd_callback walk (\<lambda>c. c\<lparr>cb_active := False, cb_claimed := True, cb_prev := NULL\<rparr>)) (\<lambda>_.
     bindm (callback_at walk) (\<lambda>c. cancel_detach_loop (pred_numeral v) (cb_next c)))"
  "cancel_dispatch_loop call (numeral v) (Some node) =
     bindm (callback_at node) (\<lambda>c.
     bindm (call (cb_fn c) (cb_context c)) (\<lambda>_.
     bindm (upd_callback node (\<lambda>c. c\<lparr>cb_next := NULL\<rparr>)) (\<lambda>_.
     bindm (sNodeDropRef call (pred_numeral v) node) (\<lambda>_.
     cancel_dispatch_loop call (pred_numeral v) (cb_next c)))))"
  by (simp_all add: numeral_eq_Suc)

text \<open>The callback of the concrete runs below: it logs its context.\<close>

definition log_cb :: "string \<Rightarrow> ptr \<Rightarrow> (string \<times> ptr) list \<Rightarrow> (string \<times> ptr) list" where
  "log_cb f x u = u @ [(f, x)]"

theorem cancellation_refines_registry_witness:
  "\<exists>s' B. run_calls log_cb [Api_Create, Api_Register 16 ''a'' (Some 7) None, Api_Register 16 ''b'' (Some 8) (Some ''r''),
       Api_Cancel 16, Api_Unregister 19, Api_Unregister 18, Api_Destroy 16] (cancel_init [] (\<lambda>_. True)) =
     Inr ([Inl (Some 16), Inl (Some 18), Inl (Some 19), Inl NULL, Inr False, Inr False, Inl NULL], s') \<and>
     registry_rel B s' \<and> r_tokens B 16 = None \<and> r_user B = [(''b'', Some 8), (''a'', Some 7), (''r'', Some 8)]"
proof -
  let ?as = "[Api_Create, Api_Register 16 ''a'' (Some 7) None, Api_Register 16 ''b'' (Some 8) (Some ''r''),
       Api_Cancel 16, Api_Unregister 19, Api_Unregister 18, Api_Destroy 16]"
  let ?r = "registry_run log_cb ?as (registry_init []) (cancel_init [] (\<lambda>_. True))"
  have "map_option (\<lambda>(rs, B). (rs, r_tokens B 16, r_user B)) ?r =
     Some ([Inl (Some 16), Inl (Some 18), Inl (Some 19), Inl NULL, Inr False, Inr False, Inl NULL], None,
       [(''b'', Some 8), (''a'', Some 7), (''r'', Some 8)])"
    by code_simp
  then show ?thesis
    using cancellation_refines_registry [of log_cb ?as "[]" "\<lambda>_. True"] by fastforce
qed

text \<open>
Cancelling a token whose registrations are pending, from any consistent state, runs every
pending callback exactly once, most recent registration first, empties the list, marks the
token cancelled, and leaves every node inactive and claimed with only its handle's reference.
\<close>

lemma cancel_runs_pending_once:
  assumes "cancel_inv own L s" and "tokens s t = Some k" and "\<not> tok_is_cancelled k"
    and "length (L t) \<le> fuel"
  shows "\<exists>s'. UfsrvCancellationTokenCancel (passive_call cbu) fuel (Some t) s = Inr ((), s') \<and>
    user s' = fold (run_node cbu (infos s)) (L t) (user s) \<and> cancel_inv own (L(t := [])) s' \<and>
    UfsrvCancellationTokenIsCancelled (Some t) s' = Inr (True, s') \<and>
    infos s' = detach (set (L t)) (infos s)"
proof -
  from assms obtain s' where s': "UfsrvCancellationTokenCancel (passive_call cbu) fuel (Some t) s = Inr ((), s')"
    "user s' = fold (run_node cbu (infos s)) (L t) (user s)" "cancel_inv own (L(t := [])) s'"
    "infos s' = detach (set (L t)) (infos s)"
    and ti: "tinfos s' = (tinfos s)(t \<mapsto> k\<lparr>tok_head := NULL, tok_is_cancelled := True\<rparr>)"
    by (rule cancel_effect)
  from fun_cong [OF ti, of t] obtain k' where "tokens s' t = Some k'" "tok_is_cancelled k'"
    by (auto simp: tinfos_def dest!: arg_cong [where f = tok_is_cancelled])
  with s' show ?thesis by (auto simp: UfsrvCancellationTokenIsCancelled_def)
qed

text \<open>A concrete state: token 16 with the registrations 19 and 18 pending.\<close>

definition two_pending :: "((string \<times> ptr) list, string) cancel_sys" where
  "two_pending = exec (run_calls log_cb [Api_Create, Api_Register 16 ''a'' (Some 7) None,
     Api_Register 16 ''b'' (Some 8) (Some ''r'')]) (cancel_init [] (\<lambda>_. True))"

definition two_pending_registry :: "((string \<times> ptr) list, string) registry" where
  "two_pending_registry = \<lparr>r_user = [], r_own = (\<lambda>_. 0)(16 := 1), r_tokens = [16 \<mapsto> False], r_count = (\<lambda>_. 0)(16 := Suc (Suc 0)),
     r_pending = (\<lambda>_. [])(16 := [19, 18]),
     r_nodes = [18 \<mapsto> (16, ''a'', Some 7, None), 19 \<mapsto> (16, ''b'', Some 8, Some ''r'')]\<rparr>"

lemma two_pending_rel: "registry_rel two_pending_registry two_pending"
proof -
  let ?as = "[Api_Create, Api_Register 16 ''a'' (Some 7) None, Api_Register 16 ''b'' (Some 8) (Some ''r'')]"
  have "registry_run log_cb ?as (registry_init []) (cancel_init [] (\<lambda>_. True)) =
      Some ([Inl (Some 16), Inl (Some 18), Inl (Some 19)], two_pending_registry)"
    by (simp add: two_pending_registry_def registry_init_def cancel_init_def cancel_code)
  from refine_calls [OF registry_rel_init this] obtain s' where
    "run_calls log_cb ?as (cancel_init [] (\<lambda>_. True)) = Inr ([Inl (Some 16), Inl (Some 18), Inl (Some 19)], s')"
    "registry_rel two_pending_registry s'" by blast
  then show ?thesis by (simp add: two_pending_def)
qed

lemma two_pending_inv: "cancel_inv ((\<lambda>_. 0)(16 := 1)) ((\<lambda>_. [])(16 := [19, 18])) two_pending"
  using registry_relD(1) [OF two_pending_rel] by (simp add: two_pending_registry_def)

lemma two_pending_token:
  "tokens two_pending 16 = Some \<lparr>tok_refcount = 3, tok_lock = False, tok_is_cancelled = False, tok_head = Some 19\<rparr>"
  by code_simp

text \<open>
A registration undone before the token is cancelled leaves no trace: \<open>Unregister\<close> answers
true, the callback has not run and can no longer run, the release hook has run exactly once,
and every token and node is as it was before.
\<close>

lemma register_unregister_roundtrip:
  assumes "cancel_inv own L s" and "tokens s t = Some k" and "\<not> tok_is_cancelled k"
    and "sys_ok s (next_addr s)"
  shows "\<exists>s1 s2. UfsrvCancellationTokenRegisterEx (passive_call cbu) (Some t) (Some f) x r s = Inr (Some (next_addr s), s1) \<and>
    UfsrvCancellationTokenUnregister (passive_call cbu) fuel (Some (next_addr s)) s1 = Inr (True, s2) \<and>
    user s2 = r_release cbu x r (user s) \<and> cancel_inv own L s2 \<and> infos s2 = infos s \<and> tinfos s2 = tinfos s"
proof -
  let ?n = "next_addr s"
  from register_effect [OF assms] obtain s1 where
    reg: "UfsrvCancellationTokenRegisterEx (passive_call cbu) (Some t) (Some f) x r s = Inr (Some ?n, s1)"
    and inv1: "cancel_inv own (L(t := ?n # L t)) s1" and u1: "user s1 = user s" and new: "infos s ?n = None"
    and i1: "infos s1 = (infos s)(?n \<mapsto> new_node t f x r True)"
    and ti1: "tinfos s1 = (tinfos s)(t \<mapsto> k\<lparr>tok_head := NULL, tok_refcount := tok_refcount k + 1\<rparr>)" by metis
  obtain c where c: "callbacks s1 ?n = Some c"
    and cn: "c\<lparr>cb_prev := NULL, cb_next := NULL\<rparr> = new_node t f x r True"
    using fun_cong [OF i1, of ?n] by (auto simp: infos_def)
  have ct: "t = cb_token c" and rel: "release_user cbu c = r_release cbu x r"
    using arg_cong [OF cn, of cb_token] arg_cong [OF cn, of "release_user cbu"]
    by (simp_all add: new_node_token)
  have L: "(L(t := ?n # L t))(t := remove1 ?n ((L(t := ?n # L t)) t)) = L" by simp
  from unregister_effect [OF inv1 c ct] obtain s2 k1 where k1: "tokens s1 t = Some k1"
    and un: "UfsrvCancellationTokenUnregister (passive_call cbu) fuel (Some ?n) s1 = Inr (True, s2)"
    and inv2: "cancel_inv own L s2" and u2: "user s2 = release_user cbu c (user s1)"
    and i2: "infos s2 = (infos s1)(?n := None)"
    and ti2: "tinfos s2 = drop_token_ref t (k1\<lparr>tok_head := NULL\<rparr>) (tinfos s1)"
    unfolding L by (metis list.set_intros(1) fun_upd_same)
  have kk: "k1\<lparr>tok_head := NULL\<rparr> = k\<lparr>tok_head := NULL, tok_refcount := tok_refcount k + 1\<rparr>"
    using fun_cong [OF ti1, of t] tinfos_Some [OF k1] by simp
  have "0 < tok_refcount k" using cancel_coreD(4) [OF cancel_inv_core [OF assms(1)] tinfos_Some [OF assms(2)]] by simp
  then have "tinfos s2 = tinfos s"
    using tinfos_Some [OF assms(2)] unfolding ti2 kk ti1 by (auto simp: drop_token_ref_def fun_eq_iff)
  moreover have "infos s2 = infos s" using new by (auto simp: i2 i1 fun_eq_iff)
  ultimately show ?thesis using reg un inv2 u2 u1 rel by auto
qed

text \<open>
Registering on a token that is already cancelled runs the callback immediately, once, and
returns a handle that is in no list; \<open>Unregister\<close> of that handle answers false, frees the node
and runs the release hook.
\<close>

lemma register_on_cancelled_token:
  assumes "cancel_inv own L s" and "tokens s t = Some k" and "tok_is_cancelled k"
    and "sys_ok s (next_addr s)"
  shows "\<exists>s1 s2. UfsrvCancellationTokenRegisterEx (passive_call cbu) (Some t) (Some f) x r s = Inr (Some (next_addr s), s1) \<and>
    user s1 = cbu f x (user s) \<and> cancel_inv own L s1 \<and>
    UfsrvCancellationTokenUnregister (passive_call cbu) fuel (Some (next_addr s)) s1 = Inr (False, s2) \<and>
    user s2 = r_release cbu x r (cbu f x (user s)) \<and> cancel_inv own L s2 \<and> infos s2 = infos s"
proof -
  let ?n = "next_addr s"
  from register_cancelled_effect [OF assms] obtain s1 where
    reg: "UfsrvCancellationTokenRegisterEx (passive_call cbu) (Some t) (Some f) x r s = Inr (Some ?n, s1)"
    and inv1: "cancel_inv own L s1" and u1: "user s1 = cbu f x (user s)" and new: "infos s ?n = None"
    and i1: "infos s1 = (infos s)(?n \<mapsto> new_node t f x r False)" by metis
  obtain c where c: "callbacks s1 ?n = Some c"
    and cn: "c\<lparr>cb_prev := NULL, cb_next := NULL\<rparr> = new_node t f x r False"
    using fun_cong [OF i1, of ?n] by (auto simp: infos_def)
  have ct: "t = cb_token c" and rel: "release_user cbu c = r_release cbu x r"
    using arg_cong [OF cn, of cb_token] arg_cong [OF cn, of "release_user cbu"]
    by (simp_all add: new_node_token)
  have out: "?n \<notin> set (L t)" by (rule cancel_inv_fresh(3) [OF assms(1)])
  then have L: "L(t := remove1 ?n (L t)) = L" by (simp add: remove1_idem)
  from unregister_effect [OF inv1 c ct] obtain s2 where
    un: "UfsrvCancellationTokenUnregister (passive_call cbu) fuel (Some ?n) s1 = Inr (False, s2)"
    and inv2: "cancel_inv own L s2" and u2: "user s2 = release_user cbu c (user s1)"
    and i2: "infos s2 = (infos s1)(?n := None)" unfolding L using out by metis
  have "infos s2 = infos s" using new by (auto simp: i2 i1 fun_eq_iff)
  then show ?thesis using reg un inv1 inv2 u2 u1 rel by auto
qed

text \<open>Token 16 after it was cancelled: the nodes 18 and 19 are live but in no list.\<close>

definition two_cancelled :: "((string \<times> ptr) list, string) cancel_sys" where
  "two_cancelled = exec (run_api log_cb (Api_Cancel 16)) two_pending"

lemma two_cancelled_inv: "cancel_inv ((\<lambda>_. 0)(16 := 1)) (\<lambda>_. []) two_cancelled"
proof -
  have "refines_call log_cb (Api_Cancel 16) two_pending_registry two_pending"
    by (rule refine_cancel [OF two_pending_rel]) (simp add: two_pending_registry_def)
  then have "registry_rel (registry_step log_cb (api_alloc_ok two_pending (Api_Cancel 16 :: string cancel_api)) (next_addr two_pending)
      (Api_Cancel 16) two_pending_registry) two_cancelled"
    by (auto simp: refines_call_def two_cancelled_def)
  from registry_relD(1) [OF this] show ?thesis by (simp add: two_pending_registry_def fun_upd_idem)
qed

lemma two_cancelled_token:
  "tokens two_cancelled 16 = Some \<lparr>tok_refcount = 3, tok_lock = False, tok_is_cancelled = True, tok_head = NULL\<rparr>"
  by code_simp

text \<open>
A second \<open>Cancel\<close> changes nothing, whatever the callbacks would do: none of them is
called.
\<close>

lemma cancel_idempotent:
  assumes "cancel_inv own L s" and "tokens s t = Some k" and "tok_is_cancelled k"
  shows "UfsrvCancellationTokenCancel call fuel (Some t) s = Inr ((), s)"
  by (rule cancel_again [OF assms(2,3) cancel_inv_lock [OF assms(1,2)]])

text \<open>
A handle is dead after \<open>Unregister\<close>, whichever way the race with \<open>Cancel\<close> went: the node is
freed, and unregistering it a second time is a use after free.
\<close>

lemma unregister_twice_faults:
  assumes "cancel_inv own L s" and "callbacks s n = Some c"
  shows "\<exists>s'. UfsrvCancellationTokenUnregister (passive_call cbu) fuel (Some n) s = Inr (n \<in> set (L (cb_token c)), s') \<and>
    callbacks s' n = None \<and> UfsrvCancellationTokenUnregister (passive_call cbu) fuel (Some n) s' = Inl UseAfterFree"
proof -
  from unregister_effect [OF assms refl] obtain s' where
    run: "UfsrvCancellationTokenUnregister (passive_call cbu) fuel (Some n) s = Inr (n \<in> set (L (cb_token c)), s')"
    and i: "infos s' = (infos s)(n := None)" by metis
  from fun_cong [OF i, of n] have "callbacks s' n = None" by (simp add: infos_def)
  then show ?thesis using run by (simp add: UfsrvCancellationTokenUnregister_def)
qed

text \<open>
C26: destroying a token that has registrations frees nothing, even when the caller gives up its
last reference: each node holds a reference on its token, so the token and its nodes stay
allocated and no release hook runs.
\<close>

theorem destroy_keeps_registered_nodes:
  assumes "cancel_inv own L s" and "0 < own t" and "callbacks s n = Some c" and "cb_token c = t"
  shows "\<exists>s'. UfsrvCancellationTokenDestroy call fuel (Some t) s = Inr ((), s') \<and>
    tokens s' t \<noteq> None \<and> callbacks s' = callbacks s \<and> user s' = user s"
proof -
  note core = cancel_inv_core [OF assms(1)]
  from token_destroy_effect [OF assms(1,2)] obtain s' k where k: "tokens s t = Some k"
    and run: "UfsrvCancellationTokenDestroy call fuel (Some t) s = Inr ((), s')"
    and u: "user s' = user s" and ts: "tokens s' = drop_token_ref t k (tokens s)"
    and cs: "callbacks s' = callbacks s" by metis
  have "n \<in> nodes_of (infos s) t" using assms(3,4) by (auto simp: nodes_of_def infos_def)
  then have "0 < card (nodes_of (infos s) t)"
    using finite_nodes_of [OF cancel_coreD(10) [OF core]] by (auto simp: card_gt_0_iff)
  then have "tok_refcount k \<noteq> 1" using cancel_coreD(3) [OF core tinfos_Some [OF k]] assms(2) by simp
  then show ?thesis using run u ts cs by (simp add: drop_token_ref_def)
qed

theorem destroy_keeps_registered_nodes_witness:
  "\<exists>s'. UfsrvCancellationTokenDestroy (passive_call log_cb) 3 (Some 16) two_pending = Inr ((), s') \<and>
    tokens s' 16 \<noteq> None \<and> user s' = []"
proof -
  obtain c where c: "callbacks two_pending 18 = Some c" and t: "cb_token c = 16"
    by (rule cancel_inv_node [OF two_pending_inv, of 18 16]) simp
  have "user two_pending = []" by code_simp
  then show ?thesis
    using destroy_keeps_registered_nodes [OF two_pending_inv _ c t, of "passive_call log_cb" 3] by auto
qed

text \<open>
Nothing leaks: once the clients have unregistered every handle and destroyed every
reference they hold, no token and no node is left allocated.
\<close>

lemma cancellation_no_leak:
  assumes "registry_run cbu as (registry_init u) (cancel_init u ok) = Some (rs, B)"
    and "\<And>t. r_own B t = 0" and "r_nodes B = Map.empty"
  shows "\<exists>s'. run_calls cbu as (cancel_init u ok) = Inr (rs, s') \<and> tokens s' = Map.empty \<and> callbacks s' = Map.empty"
  using refine_calls [OF registry_rel_init assms(1)] registry_no_leak [OF _ assms(2,3)] by blast

end
