(* ===== verification/Simulation.thy ===== *)
theory Simulation
  imports Rx_Prelude
begin

text \<open>
  Interleavings: a configuration of several threads runs a list of atomic actions, and an
  abstract machine simulates each of them.  The locale is the contract between the code of a
  component, cut into atomic actions, and the machine its invariants are proved on.
\<close>

fun run_actions :: "('l \<Rightarrow> 'c \<Rightarrow> fault + 'c) \<Rightarrow> 'l list \<Rightarrow> 'c \<Rightarrow> fault + 'c" where
  "run_actions act [] C = Inr C"
| "run_actions act (a # as) C = (case act a C of Inl e \<Rightarrow> Inl e | Inr C' \<Rightarrow> run_actions act as C')"

lemma run_actions_append:
  "run_actions act (as @ bs) C = (case run_actions act as C of Inl e \<Rightarrow> Inl e | Inr C' \<Rightarrow> run_actions act bs C')"
  by (induction as arbitrary: C) (simp_all split: sum.split)

text \<open>The process and where each of its threads is; a thread runs one atomic action and moves on.\<close>

record ('s, 'p) conf =
  fc_sys :: 's
  fc_thr :: "nat \<Rightarrow> 'p"

definition advance :: "nat \<Rightarrow> ('s, 'p) prog \<Rightarrow> ('s, 'p) conf \<Rightarrow> fault + ('s, 'p) conf" where
  "advance i m C =
     (case m (fc_sys C) of
        Inl e \<Rightarrow> Inl e
      | Inr (pc, s) \<Rightarrow> Inr \<lparr>fc_sys = s, fc_thr = (fc_thr C)(i := pc)\<rparr>)"

locale simulation =
  fixes act :: "'l \<Rightarrow> 'c \<Rightarrow> fault + 'c" and step :: "'a \<Rightarrow> 'a \<Rightarrow> bool"
    and rel :: "'c \<Rightarrow> 'a \<Rightarrow> bool" and inv :: "'a \<Rightarrow> bool"
  assumes sim: "rel C A \<Longrightarrow> inv A \<Longrightarrow> \<exists>C' A'. act a C = Inr C' \<and> (step A A' \<or> A' = A) \<and> rel C' A'"
    and inv_step: "step A A' \<Longrightarrow> inv A \<Longrightarrow> inv A'"
begin

lemma inv_steps: "step\<^sup>*\<^sup>* A A' \<Longrightarrow> inv A \<Longrightarrow> inv A'"
  by (induction rule: rtranclp_induct) (auto intro: inv_step)

lemma run_sim:
  "rel C A \<Longrightarrow> inv A \<Longrightarrow> \<exists>C' A'. run_actions act as C = Inr C' \<and> step\<^sup>*\<^sup>* A A' \<and> rel C' A' \<and> inv A'"
proof (induction as arbitrary: C A)
  case (Cons a as)
  from sim [OF Cons.prems, of a] obtain C1 A1 where 1: "act a C = Inr C1" "step A A1 \<or> A1 = A" "rel C1 A1" by blast
  then have steps: "step\<^sup>*\<^sup>* A A1" by auto
  from Cons.IH [OF 1(3) inv_steps [OF steps Cons.prems(2)]] obtain C' A' where
    2: "run_actions act as C1 = Inr C'" "step\<^sup>*\<^sup>* A1 A'" "rel C' A'" "inv A'" by blast
  with 1(1) rtranclp_trans [OF steps 2(2)] show ?case by auto
qed auto

end

end
