(* ===== verification/Cancellation_Conc.thy ===== *)
theory Cancellation_Conc
  imports Cancellation_Ops Simulation
begin

text \<open>
  A cancellation token under concurrency: any number of clients that register a callback and later
  unregister it, and any number of threads that cancel the token, interleaved.  The functions are
  cut into segments: a critical section under the token's mutex is one, and so is every atomic
  operation, allocation and call of the application outside it.  The application keeps a
  reference to the token while the threads run, so dropping one is a single atomic subtraction.
  The write of the \<open>next\<close> pointer of a detached node joins the critical section that follows it:
  no other thread reads that pointer any more.
\<close>

section \<open>Segments of the code\<close>

definition reg_alloc :: "addr \<Rightarrow> 'fn \<Rightarrow> ptr \<Rightarrow> 'fn option \<Rightarrow> ('u, 'fn, 'z, ptr) cprog" where
  "reg_alloc t f x r =
     bindm malloc (\<lambda>cb_ptr.
     case cb_ptr of
       None \<Rightarrow> ret NULL
     | Some cb \<Rightarrow>
         bindm (new_obj callbacks callbacks_update cb
           \<lparr>cb_prev = NULL, cb_next = NULL, cb_token = t, cb_refcount = 2, cb_active = False, cb_claimed = False,
            cb_fn = f, cb_context = x, cb_release_context = r\<rparr>) (\<lambda>_.
         ret (Some cb)))"

definition reg_enter :: "addr \<Rightarrow> addr \<Rightarrow> ('u, 'fn, 'z, bool) cprog" where
  "reg_enter t cb =
     bindm (token_mutex_lock t) (\<lambda>_.
     bindm (token_at t) (\<lambda>k.
     bindm (if \<not> tok_is_cancelled k then
              bindm (cb_list_link t cb) (\<lambda>_. upd_callback cb (\<lambda>c. c\<lparr>cb_active := True\<rparr>))
            else upd_callback cb (\<lambda>c. c\<lparr>cb_claimed := True, cb_refcount := 1\<rparr>)) (\<lambda>_.
     bindm (token_mutex_unlock t) (\<lambda>_.
     ret (tok_is_cancelled k)))))"

text \<open>Whether this call took the callback off the list, and whether it dropped the last reference.\<close>

definition unreg_enter :: "addr \<Rightarrow> ('u, 'fn, 'z, bool \<times> bool) cprog" where
  "unreg_enter cb =
     bindm (callback_at cb) (\<lambda>c.
     bindm (token_mutex_lock (cb_token c)) (\<lambda>_.
     bindm (if cb_active c then
              bindm (upd_callback cb (\<lambda>c. c\<lparr>cb_active := False, cb_claimed := True\<rparr>)) (\<lambda>_.
              bindm (cb_list_unlink (cb_token c) cb) (\<lambda>_.
              bindm (upd_callback cb (\<lambda>c. c\<lparr>cb_refcount := cb_refcount c - 1\<rparr>)) (\<lambda>_.
              ret True)))
            else ret False) (\<lambda>won.
     bindm (upd_callback cb (\<lambda>c. c\<lparr>cb_refcount := cb_refcount c - 1\<rparr>)) (\<lambda>_.
     bindm (callback_at cb) (\<lambda>c.
     bindm (token_mutex_unlock (cb_token c)) (\<lambda>_.
     ret (won, cb_refcount c = 0)))))))"

text \<open>The nodes that this call detached, or nothing when the token was cancelled before.\<close>

definition cancel_enter :: "nat \<Rightarrow> addr \<Rightarrow> ('u, 'fn, 'z, ptr option) cprog" where
  "cancel_enter fuel t =
     bindm (token_mutex_lock t) (\<lambda>_.
     bindm (token_at t) (\<lambda>k.
     bindm (upd_token t (\<lambda>k. k\<lparr>tok_is_cancelled := True\<rparr>)) (\<lambda>_.
     if tok_is_cancelled k then bindm (token_mutex_unlock t) (\<lambda>_. ret None)
     else
       bindm (upd_token t (\<lambda>k. k\<lparr>tok_head := NULL\<rparr>)) (\<lambda>_.
       bindm (cancel_detach_loop fuel (tok_head k)) (\<lambda>_.
       bindm (token_mutex_unlock t) (\<lambda>_.
       ret (Some (tok_head k))))))))"

definition cancel_run :: "('u, 'fn, 'z) ccall \<Rightarrow> addr \<Rightarrow> ('u, 'fn, 'z, ptr) cprog" where
  "cancel_run call node =
     bindm (callback_at node) (\<lambda>c. bindm (call (cb_fn c) (cb_context c)) (\<lambda>_. ret (cb_next c)))"

definition cancel_drop :: "addr \<Rightarrow> ('u, 'fn, 'z, bool) cprog" where
  "cancel_drop node =
     bindm (upd_callback node (\<lambda>c. c\<lparr>cb_next := NULL\<rparr>)) (\<lambda>_.
     bindm (callback_at node) (\<lambda>c.
     bindm (token_mutex_lock (cb_token c)) (\<lambda>_.
     bindm (upd_callback node (\<lambda>c. c\<lparr>cb_refcount := cb_refcount c - 1\<rparr>)) (\<lambda>_.
     bindm (callback_at node) (\<lambda>c.
     bindm (token_mutex_unlock (cb_token c)) (\<lambda>_.
     ret (cb_refcount c = 0)))))))"

definition node_take :: "addr \<Rightarrow> ('u, 'fn, 'z, 'fn UfsrvCancellationCallback) cprog" where
  "node_take cb = bindm (callback_at cb) (\<lambda>c. bindm (free_callback cb) (\<lambda>_. ret c))"

text \<open>The functions are the segments, one after the other.\<close>

lemma sNodeFree_segments:
  "sNodeFree call fuel cb =
     bindm (node_take cb) (\<lambda>c.
     bindm (when_some (cb_release_context c) (\<lambda>r. call r (cb_context c))) (\<lambda>_.
     sTokenRelease call fuel (cb_token c)))"
  by (simp add: sNodeFree_def node_take_def bindm_assoc)

lemma register_segments:
  "UfsrvCancellationTokenRegisterEx call (Some t) (Some f) x r =
     bindm (reg_alloc t f x r) (\<lambda>p.
     case p of
       None \<Rightarrow> ret NULL
     | Some cb \<Rightarrow>
         bindm (UfsrvCancellationTokenRetainInternal (Some t)) (\<lambda>_.
         bindm (reg_enter t cb) (\<lambda>already_cancelled.
         bindm (if already_cancelled then call f x else ret ()) (\<lambda>_. ret (Some cb)))))"
  by (rule ext) (simp add: UfsrvCancellationTokenRegisterEx_def reg_alloc_def reg_enter_def bindm_def Let_def
      split: option.split sum.split prod.split)

lemma unregister_segments:
  "UfsrvCancellationTokenUnregister call fuel (Some cb) =
     bindm (unreg_enter cb) (\<lambda>(won, last). bindm (if last then sNodeFree call fuel cb else ret ()) (\<lambda>_. ret won))"
  by (rule ext) (simp add: UfsrvCancellationTokenUnregister_def unreg_enter_def bindm_assoc bindm_branch cong: if_cong)

lemma cancel_segments:
  "UfsrvCancellationTokenCancel call fuel (Some t) =
     bindm (cancel_enter fuel t) (\<lambda>p. case p of None \<Rightarrow> ret () | Some h \<Rightarrow> cancel_dispatch_loop call fuel h)"
  by (rule ext) (simp add: UfsrvCancellationTokenCancel_def cancel_enter_def bindm_assoc bindm_branch bindm_ret_right cong: if_cong)

lemma dispatch_segments:
  "cancel_dispatch_loop call (Suc fuel) (Some node) =
     bindm (cancel_run call node) (\<lambda>next.
     bindm (cancel_drop node) (\<lambda>last.
     bindm (if last then sNodeFree call fuel node else ret ()) (\<lambda>_.
     cancel_dispatch_loop call fuel next)))"
  by (rule ext) (simp add: cancel_run_def cancel_drop_def sNodeDropRef_def bindm_assoc bindm_branch Let_def cong: if_cong)

section \<open>Interleaving the code\<close>

text \<open>
  Where a thread is: in \<open>RegisterEx\<close> (about to allocate, to retain the token, to enter the critical
  section, to run the callback because the token was cancelled, returned with the handle), in
  \<open>Unregister\<close> (about to enter, to free the node, to run its release hook, to drop the token's
  reference, returned) or in \<open>Cancel\<close> (about to run a callback, to drop the node's reference, to
  free it, to run its release hook, to drop the token's reference, returned).  The client \<open>i\<close>
  registers the function \<open>Inl k\<close> with the release hook \<open>Inr k\<close> and the context \<open>i\<close>.
\<close>

datatype 'k tpc =
    K_idle
  | R_alloc 'k | R_retain 'k addr | R_enter 'k addr | R_call 'k addr | R_done ptr
  | U_enter addr | U_free addr bool | U_ctx "('k + 'k) option" ptr bool | U_tok bool | U_done bool
  | X_run ptr | X_drop addr ptr | X_free addr ptr | X_ctx "('k + 'k) option" ptr ptr | X_tok ptr ptr | X_done bool

type_synonym ('u, 'k, 'z) tok_conf = "(('u, 'k + 'k, 'z) cancel_sys_scheme, 'k tpc) conf"

datatype 'k tok_act = A_register nat 'k | A_unregister nat | A_cancel nat | A_next nat

fun tpc_step ::
  "('u, 'k + 'k, 'z) ccall \<Rightarrow> addr \<Rightarrow> nat \<Rightarrow> 'k tpc \<Rightarrow> ('u, 'k + 'k, 'z, 'k tpc) cprog" where
  "tpc_step call t i (R_alloc k) =
     bindm (reg_alloc t (Inl k) (Some i) (Some (Inr k))) (\<lambda>p. ret (case p of None \<Rightarrow> R_done NULL | Some n \<Rightarrow> R_retain k n))"
| "tpc_step call t i (R_retain k n) = bindm (UfsrvCancellationTokenRetainInternal (Some t)) (\<lambda>_. ret (R_enter k n))"
| "tpc_step call t i (R_enter k n) = bindm (reg_enter t n) (\<lambda>c. ret (if c then R_call k n else R_done (Some n)))"
| "tpc_step call t i (R_call k n) = bindm (call (Inl k) (Some i)) (\<lambda>_. ret (R_done (Some n)))"
| "tpc_step call t i (U_enter n) = bindm (unreg_enter n) (\<lambda>(won, last). ret (if last then U_free n won else U_done won))"
| "tpc_step call t i (U_free n w) = bindm (node_take n) (\<lambda>c. ret (U_ctx (cb_release_context c) (cb_context c) w))"
| "tpc_step call t i (U_ctx r x w) = bindm (when_some r (\<lambda>r. call r x)) (\<lambda>_. ret (U_tok w))"
| "tpc_step call t i (U_tok w) = bindm (sTokenRelease call 0 t) (\<lambda>_. ret (U_done w))"
| "tpc_step call t i (X_run None) = ret (X_done True)"
| "tpc_step call t i (X_run (Some n)) = bindm (cancel_run call n) (\<lambda>q. ret (X_drop n q))"
| "tpc_step call t i (X_drop n q) = bindm (cancel_drop n) (\<lambda>last. ret (if last then X_free n q else X_run q))"
| "tpc_step call t i (X_free n q) = bindm (node_take n) (\<lambda>c. ret (X_ctx (cb_release_context c) (cb_context c) q))"
| "tpc_step call t i (X_ctx r x q) = bindm (when_some r (\<lambda>r. call r x)) (\<lambda>_. ret (X_tok x q))"
| "tpc_step call t i (X_tok x q) = bindm (sTokenRelease call 0 t) (\<lambda>_. ret (X_run q))"
| "tpc_step call t i pc = ret pc"

text \<open>
  The walk over the list under the lock visits allocated nodes, so the addresses handed out so far
  bound it.  A client unregisters the handle that its registration returned.
\<close>

fun tok_perform ::
  "('u, 'k + 'k, 'z) ccall \<Rightarrow> addr \<Rightarrow> 'k tok_act \<Rightarrow> ('u, 'k, 'z) tok_conf \<Rightarrow> fault + ('u, 'k, 'z) tok_conf" where
  "tok_perform call t (A_register i k) C = (if fc_thr C i = K_idle then advance i (ret (R_alloc k)) C else Inr C)"
| "tok_perform call t (A_unregister i) C =
     (case fc_thr C i of R_done (Some n) \<Rightarrow> advance i (ret (U_enter n)) C | _ \<Rightarrow> Inr C)"
| "tok_perform call t (A_cancel i) C =
     (if fc_thr C i = K_idle
      then advance i (bindm (cancel_enter (next_addr (fc_sys C)) t) (\<lambda>p. ret (case p of None \<Rightarrow> X_done False | Some h \<Rightarrow> X_run h))) C
      else Inr C)"
| "tok_perform call t (A_next i) C = advance i (tpc_step call t i (fc_thr C i)) C"

end
