(* ===== verification/Cancellation_Race.thy ===== *)
theory Cancellation_Race
  imports Cancellation_Conc
begin

text \<open>
  The abstract machine of a token that clients and cancelling threads race for, and its invariants:
  who wins the cancellation, who owns which node and which references, and what the application
  has been called with.
\<close>

section \<open>The abstract machine\<close>

text \<open>
  For every node its owner, its function, its reference count and whether it is active; the list,
  the detached nodes still to be run, the clients whose registration holds a reference to the
  token, the winner of the cancellation, and the calls of the application.
\<close>

record 'k atok =
  at_thr :: "nat \<Rightarrow> 'k tpc"
  at_node :: "addr \<rightharpoonup> nat \<times> 'k \<times> int \<times> bool"
  at_list :: "addr list"
  at_todo :: "addr list"
  at_held :: "nat set"
  at_win :: "nat option"
  at_log :: "(('k + 'k) \<times> ptr) list"

abbreviation tgo :: "nat \<Rightarrow> 'k tpc \<Rightarrow> 'k atok \<Rightarrow> 'k atok" where
  "tgo i pc A \<equiv> A\<lparr>at_thr := (at_thr A)(i := pc)\<rparr>"

fun hdp :: "addr list \<Rightarrow> ptr" where
  "hdp [] = NULL" | "hdp (n # ns) = Some n"

definition deact :: "addr list \<Rightarrow> (addr \<rightharpoonup> nat \<times> 'k \<times> int \<times> bool) \<Rightarrow> addr \<Rightarrow> (nat \<times> 'k \<times> int \<times> bool) option" where
  "deact L N n = (if n \<in> set L then map_option (\<lambda>(i, k, rc, a). (i, k, rc, False)) (N n) else N n)"

inductive t_step :: "'k atok \<Rightarrow> 'k atok \<Rightarrow> bool" where
  t_register: "at_thr A i = K_idle \<Longrightarrow> t_step A (tgo i (R_alloc k) A)"
| t_alloc: "at_thr A i = R_alloc k \<Longrightarrow> at_node A n = None \<Longrightarrow>
    t_step A (tgo i (R_retain k n) (A\<lparr>at_node := (at_node A)(n \<mapsto> (i, k, 2, False))\<rparr>))"
| t_oom: "at_thr A i = R_alloc k \<Longrightarrow> t_step A (tgo i (R_done NULL) A)"
| t_retain: "at_thr A i = R_retain k n \<Longrightarrow> t_step A (tgo i (R_enter k n) (A\<lparr>at_held := insert i (at_held A)\<rparr>))"
| t_link: "at_thr A i = R_enter k n \<Longrightarrow> at_win A = None \<Longrightarrow>
    t_step A (tgo i (R_done (Some n)) (A\<lparr>at_node := (at_node A)(n \<mapsto> (i, k, 2, True)), at_list := n # at_list A\<rparr>))"
| t_late: "at_thr A i = R_enter k n \<Longrightarrow> at_win A \<noteq> None \<Longrightarrow>
    t_step A (tgo i (R_call k n) (A\<lparr>at_node := (at_node A)(n \<mapsto> (i, k, 1, False))\<rparr>))"
| t_call: "at_thr A i = R_call k n \<Longrightarrow> t_step A (tgo i (R_done (Some n)) (A\<lparr>at_log := at_log A @ [(Inl k, Some i)]\<rparr>))"
| t_unregister: "at_thr A i = R_done (Some n) \<Longrightarrow> t_step A (tgo i (U_enter n) A)"
| t_taken: "at_thr A i = U_enter n \<Longrightarrow> at_node A n = Some (i, k, 2, True) \<Longrightarrow>
    t_step A (tgo i (U_free n True) (A\<lparr>at_node := (at_node A)(n \<mapsto> (i, k, 0, False)), at_list := remove1 n (at_list A)\<rparr>))"
| t_last: "at_thr A i = U_enter n \<Longrightarrow> at_node A n = Some (i, k, 1, False) \<Longrightarrow>
    t_step A (tgo i (U_free n False) (A\<lparr>at_node := (at_node A)(n \<mapsto> (i, k, 0, False))\<rparr>))"
| t_drop: "at_thr A i = U_enter n \<Longrightarrow> at_node A n = Some (i, k, 2, False) \<Longrightarrow>
    t_step A (tgo i (U_done False) (A\<lparr>at_node := (at_node A)(n \<mapsto> (i, k, 1, False))\<rparr>))"
| t_free: "at_thr A i = U_free n w \<Longrightarrow> at_node A n = Some (i, k, rc, a) \<Longrightarrow>
    t_step A (tgo i (U_ctx (Some (Inr k)) (Some i) w) (A\<lparr>at_node := (at_node A)(n := None)\<rparr>))"
| t_hook: "at_thr A i = U_ctx (Some (Inr k)) (Some i) w \<Longrightarrow> t_step A (tgo i (U_tok w) (A\<lparr>at_log := at_log A @ [(Inr k, Some i)]\<rparr>))"
| t_token: "at_thr A i = U_tok w \<Longrightarrow> t_step A (tgo i (U_done w) (A\<lparr>at_held := at_held A - {i}\<rparr>))"
| t_cancel: "at_thr A i = K_idle \<Longrightarrow> at_win A = None \<Longrightarrow>
    t_step A (tgo i (X_run (hdp (at_list A))) (A\<lparr>at_win := Some i, at_node := deact (at_list A) (at_node A), at_todo := at_list A, at_list := []\<rparr>))"
| t_again: "at_thr A i = K_idle \<Longrightarrow> at_win A \<noteq> None \<Longrightarrow> t_step A (tgo i (X_done False) A)"
| t_end: "at_thr A i = X_run NULL \<Longrightarrow> t_step A (tgo i (X_done True) A)"
| t_run: "at_thr A i = X_run (Some n) \<Longrightarrow> at_todo A = n # ns \<Longrightarrow> at_node A n = Some (j, k, rc, a) \<Longrightarrow>
    t_step A (tgo i (X_drop n (hdp ns)) (A\<lparr>at_todo := ns, at_log := at_log A @ [(Inl k, Some j)]\<rparr>))"
| t_xlast: "at_thr A i = X_drop n q \<Longrightarrow> at_node A n = Some (j, k, 1, a) \<Longrightarrow>
    t_step A (tgo i (X_free n q) (A\<lparr>at_node := (at_node A)(n \<mapsto> (j, k, 0, a))\<rparr>))"
| t_xdrop: "at_thr A i = X_drop n q \<Longrightarrow> at_node A n = Some (j, k, 2, a) \<Longrightarrow>
    t_step A (tgo i (X_run q) (A\<lparr>at_node := (at_node A)(n \<mapsto> (j, k, 1, a))\<rparr>))"
| t_xfree: "at_thr A i = X_free n q \<Longrightarrow> at_node A n = Some (j, k, rc, a) \<Longrightarrow>
    t_step A (tgo i (X_ctx (Some (Inr k)) (Some j) q) (A\<lparr>at_node := (at_node A)(n := None)\<rparr>))"
| t_xhook: "at_thr A i = X_ctx (Some (Inr k)) (Some j) q \<Longrightarrow>
    t_step A (tgo i (X_tok (Some j) q) (A\<lparr>at_log := at_log A @ [(Inr k, Some j)]\<rparr>))"
| t_xtoken: "at_thr A i = X_tok (Some j) q \<Longrightarrow> t_step A (tgo i (X_run q) (A\<lparr>at_held := at_held A - {j}\<rparr>))"

section \<open>One cancellation\<close>

fun x_won :: "'k tpc \<Rightarrow> bool" where
  "x_won (X_run q) = True" | "x_won (X_drop n q) = True" | "x_won (X_free n q) = True" | "x_won (X_ctx r x q) = True" | "x_won (X_tok x q) = True"
| "x_won (X_done b) = b" | "x_won pc = False"

definition t_win_inv :: "'k atok \<Rightarrow> bool" where
  "t_win_inv A \<longleftrightarrow> (\<forall>i. x_won (at_thr A i) \<longleftrightarrow> at_win A = Some i) \<and> (at_win A \<noteq> None \<longrightarrow> at_list A = []) \<and> (at_win A = None \<longrightarrow> at_todo A = [])"

lemma t_win_move:
  assumes inv: "t_win_inv A" and B: "at_thr B = at_thr A" "at_win B = at_win A" and pc: "x_won pc = x_won (at_thr A i)"
    and lists: "at_list A = [] \<longrightarrow> at_list B = [] \<or> at_win A = None" "at_todo B = at_todo A \<or> x_won pc"
  shows "t_win_inv (tgo i pc B)"
proof -
  have w: "x_won (at_thr A j) \<longleftrightarrow> at_win A = Some j" for j using inv by (simp add: t_win_inv_def)
  have "x_won (((at_thr B)(i := pc)) j) \<longleftrightarrow> at_win B = Some j" for j using w [of j] pc B by (cases "j = i") simp_all
  moreover have "at_list B = []" if "at_win A \<noteq> None" using inv lists(1) that by (auto simp: t_win_inv_def)
  moreover have "at_todo B = []" if "at_win A = None" using inv lists(2) that pc w [of i] by (auto simp: t_win_inv_def)
  ultimately show ?thesis using B by (simp add: t_win_inv_def)
qed

lemma t_win_step: "t_step A B \<Longrightarrow> t_win_inv A \<Longrightarrow> t_win_inv B"
proof (induction rule: t_step.induct)
  case (t_cancel A i)
  then show ?case by (simp add: t_win_inv_def)
qed (rule t_win_move, assumption, simp, simp, simp, simp, simp)+

section \<open>Nodes and references\<close>

fun t_held :: "'k tpc \<Rightarrow> addr option" where
  "t_held (R_retain k n) = Some n" | "t_held (R_enter k n) = Some n" | "t_held (R_call k n) = Some n" | "t_held (R_done p) = p"
| "t_held (U_enter n) = Some n" | "t_held (U_free n w) = Some n" | "t_held pc = None"

definition xpos :: "'k atok \<Rightarrow> 'k tpc" where
  "xpos A = (case at_win A of None \<Rightarrow> K_idle | Some i \<Rightarrow> at_thr A i)"

fun x_running :: "'k tpc \<Rightarrow> addr set" where
  "x_running (X_drop n q) = {n}" | "x_running pc = {}"

fun ctx_of :: "'k tpc \<Rightarrow> ptr" where
  "ctx_of (X_ctx r x q) = x" | "ctx_of (X_tok x q) = x" | "ctx_of pc = NULL"

definition pend :: "'k atok \<Rightarrow> addr set" where
  "pend A = set (at_todo A) \<union> x_running (xpos A)"

definition owns_none :: "'k atok \<Rightarrow> nat \<Rightarrow> bool" where
  "owns_none A i \<longleftrightarrow> (\<forall>n t. at_node A n \<noteq> Some (i, t))"

text \<open>
  What a client knows.  A private node has its two references; one in the list, or detached and not
  yet dropped by the canceller, has the handle's and the list's; otherwise the handle's only.
\<close>

fun client_ok :: "'k atok \<Rightarrow> nat \<Rightarrow> 'k tpc \<Rightarrow> bool" where
  "client_ok A i (R_retain k n) \<longleftrightarrow> at_node A n = Some (i, k, 2, False) \<and> n \<notin> set (at_list A) \<union> pend A \<and> i \<notin> at_held A"
| "client_ok A i (R_enter k n) \<longleftrightarrow> at_node A n = Some (i, k, 2, False) \<and> n \<notin> set (at_list A) \<union> pend A \<and> i \<in> at_held A"
| "client_ok A i (R_call k n) \<longleftrightarrow> at_node A n = Some (i, k, 1, False) \<and> n \<notin> set (at_list A) \<union> pend A \<and> i \<in> at_held A \<and> at_win A \<noteq> None"
| "client_ok A i (R_done (Some n)) \<longleftrightarrow> i \<in> at_held A \<and> (n \<notin> set (at_list A) \<longrightarrow> at_win A \<noteq> None) \<and>
     (\<exists>k. at_node A n = Some (i, k, if n \<in> set (at_list A) \<union> pend A then 2 else 1, n \<in> set (at_list A)))"
| "client_ok A i (U_enter n) \<longleftrightarrow> i \<in> at_held A \<and> (n \<notin> set (at_list A) \<longrightarrow> at_win A \<noteq> None) \<and>
     (\<exists>k. at_node A n = Some (i, k, if n \<in> set (at_list A) \<union> pend A then 2 else 1, n \<in> set (at_list A)))"
| "client_ok A i (U_free n w) \<longleftrightarrow> i \<in> at_held A \<and> (\<exists>k. at_node A n = Some (i, k, 0, False)) \<and> n \<notin> set (at_list A) \<union> pend A \<and> (w \<or> at_win A \<noteq> None)"
| "client_ok A i (U_ctx r x w) \<longleftrightarrow> i \<in> at_held A \<and> owns_none A i \<and> x = Some i \<and> (\<exists>k. r = Some (Inr k)) \<and> (w \<or> at_win A \<noteq> None)"
| "client_ok A i (U_tok w) \<longleftrightarrow> i \<in> at_held A \<and> owns_none A i \<and> (w \<or> at_win A \<noteq> None)"
| "client_ok A i (U_done w) \<longleftrightarrow> (if w then i \<notin> at_held A \<and> owns_none A i
     else at_win A \<noteq> None \<and> (i \<in> at_held A \<longrightarrow> \<not> owns_none A i \<or> ctx_of (xpos A) = Some i))"
| "client_ok A i pc \<longleftrightarrow> i \<notin> at_held A \<and> owns_none A i"

text \<open>What the canceller knows.\<close>

fun win_ok :: "'k atok \<Rightarrow> 'k tpc \<Rightarrow> bool" where
  "win_ok A (X_run q) \<longleftrightarrow> q = hdp (at_todo A)"
| "win_ok A (X_drop n q) \<longleftrightarrow> q = hdp (at_todo A) \<and> n \<notin> set (at_todo A) \<and> (\<exists>j k rc. at_node A n = Some (j, k, rc, False))"
| "win_ok A (X_free n q) \<longleftrightarrow> q = hdp (at_todo A) \<and> n \<notin> set (at_todo A) \<and>
     (\<exists>j k. at_node A n = Some (j, k, 0, False) \<and> at_thr A j = U_done False \<and> j \<in> at_held A)"
| "win_ok A (X_ctx r x q) \<longleftrightarrow> q = hdp (at_todo A) \<and>
     (\<exists>j k. x = Some j \<and> r = Some (Inr k) \<and> at_thr A j = U_done False \<and> j \<in> at_held A \<and> owns_none A j)"
| "win_ok A (X_tok x q) \<longleftrightarrow> q = hdp (at_todo A) \<and> (\<exists>j. x = Some j \<and> at_thr A j = U_done False \<and> j \<in> at_held A \<and> owns_none A j)"
| "win_ok A pc \<longleftrightarrow> at_todo A = []"

definition tnode_ok :: "'k atok \<Rightarrow> addr \<Rightarrow> nat \<times> 'k \<times> int \<times> bool \<Rightarrow> bool" where
  "tnode_ok A n = (\<lambda>(i, k, rc, a). t_held (at_thr A i) = Some n \<or>
     at_thr A i = U_done False \<and> i \<in> at_held A \<and> \<not> a \<and> n \<notin> set (at_list A) \<and> (n \<in> pend A \<and> rc = 1 \<or> (\<exists>q. xpos A = X_free n q) \<and> rc = 0))"

definition tok_inv :: "'k atok \<Rightarrow> bool" where
  "tok_inv A \<longleftrightarrow>
     (\<forall>i. client_ok A i (at_thr A i)) \<and> win_ok A (xpos A) \<and> (\<forall>n t. at_node A n = Some t \<longrightarrow> tnode_ok A n t) \<and>
     (\<forall>n m i t u. at_node A n = Some (i, t) \<longrightarrow> at_node A m = Some (i, u) \<longrightarrow> n = m) \<and>
     (\<forall>n\<in>set (at_list A) \<union> pend A. at_node A n \<noteq> None) \<and> distinct (at_list A @ at_todo A) \<and> finite (at_held A)"

lemma client_okD: "tok_inv A \<Longrightarrow> client_ok A i (at_thr A i)"
  by (simp add: tok_inv_def)

lemma win_okD: "tok_inv A \<Longrightarrow> win_ok A (xpos A)"
  by (simp add: tok_inv_def)

lemma tnode_okD: "tok_inv A \<Longrightarrow> at_node A n = Some t \<Longrightarrow> tnode_ok A n t"
  unfolding tok_inv_def by blast

lemma owner_unique: "tok_inv A \<Longrightarrow> at_node A n = Some (i, t) \<Longrightarrow> at_node A m = Some (i, u) \<Longrightarrow> n = m"
  unfolding tok_inv_def by blast

lemma t_linked: "tok_inv A \<Longrightarrow> n \<in> set (at_list A) \<union> pend A \<Longrightarrow> at_node A n \<noteq> None"
  unfolding tok_inv_def by blast

lemma t_distinct: "tok_inv A \<Longrightarrow> distinct (at_list A @ at_todo A)"
  unfolding tok_inv_def by blast

lemma t_finite: "tok_inv A \<Longrightarrow> finite (at_held A)"
  unfolding tok_inv_def by blast

lemma t_held_owned: "client_ok A i pc \<Longrightarrow> t_held pc = Some n \<Longrightarrow> \<exists>t. at_node A n = Some (i, t)"
  by (cases "(A, i, pc)" rule: client_ok.cases) auto

text \<open>A client's knowledge depends on its own node, its reference and the canceller's position.\<close>

lemma client_ok_frame:
  assumes "client_ok A i pc" and "at_win B = at_win A" and "ctx_of (xpos A) = Some i \<Longrightarrow> ctx_of (xpos B) = Some i" and "i \<in> at_held B \<longleftrightarrow> i \<in> at_held A"
    and "\<And>n. t_held pc = Some n \<Longrightarrow> at_node B n = at_node A n \<and> (n \<in> set (at_list B) \<longleftrightarrow> n \<in> set (at_list A)) \<and> (n \<in> pend B \<longleftrightarrow> n \<in> pend A)"
    and "owns_none B i \<longleftrightarrow> owns_none A i"
  shows "client_ok B i pc"
  using assms by (cases "(A, i, pc)" rule: client_ok.cases) auto

lemma xpos_client:
  "t_win_inv A \<Longrightarrow> \<not> x_won (at_thr A i) \<Longrightarrow> at_thr B = (at_thr A)(i := pc) \<Longrightarrow> at_win B = at_win A \<Longrightarrow> xpos B = xpos A"
  by (auto simp: t_win_inv_def xpos_def split: option.split)

text \<open>A step of client \<open>i\<close> that concerns its node (the set \<open>N\<close> has it, if there is one).\<close>

lemma tok_inv_client:
  assumes inv: "tok_inv A" and win: "t_win_inv A" and i: "\<not> x_won (at_thr A i)" "at_thr A i \<noteq> U_done False"
    and B: "at_thr B = (at_thr A)(i := pc)" "at_win B = at_win A" "at_todo B = at_todo A"
    and own: "\<And>m t. at_node A m = Some (i, t) \<Longrightarrow> m \<in> N" "\<And>m l t. m \<in> N \<Longrightarrow> at_node A m = Some (l, t) \<Longrightarrow> l = i"
      "\<And>m m'. m \<in> N \<Longrightarrow> m' \<in> N \<Longrightarrow> m = m'"
    and nodes: "\<And>m. m \<notin> N \<Longrightarrow> at_node B m = at_node A m \<and> (m \<in> set (at_list B) \<longleftrightarrow> m \<in> set (at_list A))"
    and held: "\<And>l. l \<noteq> i \<Longrightarrow> l \<in> at_held B \<longleftrightarrow> l \<in> at_held A" "finite (at_held B)"
    and dist: "distinct (at_list B @ at_todo B)"
    and pc: "pend B = pend A \<Longrightarrow> xpos B = xpos A \<Longrightarrow> client_ok B i pc"
    and new: "\<And>m. m \<in> N \<Longrightarrow> pend B = pend A \<Longrightarrow> xpos B = xpos A \<Longrightarrow>
      at_node B m = None \<and> m \<notin> set (at_list B) \<union> pend A \<or> (\<exists>k rc a. at_node B m = Some (i, k, rc, a) \<and> t_held pc = Some m \<and> (m \<in> pend A \<longrightarrow> \<not> a)) \<or>
      (\<exists>k. at_node B m = Some (i, k, 1, False) \<and> pc = U_done False \<and> i \<in> at_held B \<and> m \<notin> set (at_list B) \<and> m \<in> pend A)"
  shows "tok_inv B"
proof -
  have pos: "xpos B = xpos A" by (rule xpos_client [OF win i(1) B(1,2)])
  then have pd: "pend B = pend A" using B(3) by (simp add: pend_def)
  note pc = pc [OF pd pos] and new = new [OF _ pd pos]
  have other: "m \<notin> N" if "at_node A m = Some (l, t)" "l \<noteq> i" for m l t using own(2) that by blast
  have owner: "l = i" if "m \<in> N" "at_node B m = Some (l, t)" for m l t using new [OF that(1)] that(2) by auto
  have none: "owns_none B l \<longleftrightarrow> owns_none A l" if "l \<noteq> i" for l
    unfolding owns_none_def using nodes other owner that by metis
  have 1: "client_ok B l (at_thr B l)" for l
  proof (cases "l = i")
    case False
    have ok: "client_ok A l (at_thr A l)" by (rule client_okD [OF inv])
    have "client_ok B l (at_thr A l)"
    proof (rule client_ok_frame [OF ok B(2) _ held(1) [OF False] _ none [OF False]])
      show "at_node B n = at_node A n \<and> (n \<in> set (at_list B) \<longleftrightarrow> n \<in> set (at_list A)) \<and> (n \<in> pend B \<longleftrightarrow> n \<in> pend A)"
        if "t_held (at_thr A l) = Some n" for n
        using t_held_owned [OF ok that] other False nodes pd by blast
    qed (simp add: pos)
    then show ?thesis using False B(1) by simp
  qed (use pc B(1) in simp)
  have ji: "j \<noteq> i" if "at_thr A j = U_done False" for j using i(2) that by auto
  have 2: "win_ok B (xpos B)"
  proof (cases "xpos A")
    case (X_drop n q)
    have "\<exists>j k rc. at_node B n = Some (j, k, rc, False)"
    proof (cases "n \<in> N")
      case True
      moreover have "n \<in> pend A" by (simp add: pend_def X_drop)
      ultimately show ?thesis using new [of n] by auto
    next
      case False
      then show ?thesis using win_okD [OF inv] nodes X_drop by simp
    qed
    then show ?thesis using win_okD [OF inv] X_drop B(3) pos by simp
  next
    case (X_free n q)
    with win_okD [OF inv] obtain j k where j: "at_node A n = Some (j, k, 0, False)" "at_thr A j = U_done False" "j \<in> at_held A" by auto
    have "j \<noteq> i" by (rule ji [OF j(2)])
    then have "at_node B n = Some (j, k, 0, False)" "at_thr B j = U_done False" "j \<in> at_held B"
      using j nodes [OF other [OF j(1)]] held(1) [of j] B(1) by simp_all
    then show ?thesis using win_okD [OF inv] X_free B(3) pos by simp
  next
    case (X_ctx r x q)
    with win_okD [OF inv] obtain j where j: "x = Some j" "at_thr A j = U_done False" "j \<in> at_held A" "owns_none A j"
      by (simp only: win_ok.simps) blast
    have "j \<noteq> i" by (rule ji [OF j(2)])
    then have "at_thr B j = U_done False" "j \<in> at_held B" "owns_none B j" using j(2-4) held(1) none B(1) by simp_all
    then show ?thesis using win_okD [OF inv] X_ctx B(3) pos j(1) by simp
  next
    case (X_tok x q)
    with win_okD [OF inv] obtain j where j: "x = Some j" "at_thr A j = U_done False" "j \<in> at_held A" "owns_none A j"
      by (simp only: win_ok.simps) blast
    have "j \<noteq> i" by (rule ji [OF j(2)])
    then have "at_thr B j = U_done False" "j \<in> at_held B" "owns_none B j" using j(2-4) held(1) none B(1) by simp_all
    then show ?thesis using win_okD [OF inv] X_tok B(3) pos j(1) by simp
  qed (use win_okD [OF inv] B(3) pos in simp_all)
  have 3: "tnode_ok B m t" if m: "at_node B m = Some t" for m t
  proof (cases "m \<in> N")
    case True
    from new [OF True] show ?thesis
    proof (elim disjE conjE exE)
      fix k rc a assume "at_node B m = Some (i, k, rc, a)" "t_held pc = Some m"
      then show ?thesis using m B(1) by (simp add: tnode_ok_def)
    next
      fix k assume "at_node B m = Some (i, k, 1, False)" "pc = U_done False" "i \<in> at_held B" "m \<notin> set (at_list B)" "m \<in> pend A"
      then show ?thesis using m B(1) pd by (simp add: tnode_ok_def)
    qed (use m in simp)
  next
    case False
    obtain l k rc a where t: "t = (l, k, rc, a)" by (cases t)
    have mA: "at_node A m = Some (l, k, rc, a)" using m nodes [OF False] t by simp
    with own(1) False have l: "l \<noteq> i" by blast
    from tnode_okD [OF inv mA] show ?thesis using l nodes [OF False] B(1) held(1) pd pos by (simp add: tnode_ok_def t)
  qed
  have 4: "m = m'" if "at_node B m = Some (l, t)" "at_node B m' = Some (l, u)" for m m' l t u
  proof (cases "l = i")
    case True
    have "m \<in> N" "m' \<in> N" using that nodes own(1) True by metis+
    then show ?thesis by (rule own(3))
  next
    case False
    then have "m \<notin> N" "m' \<notin> N" using owner that by blast+
    then show ?thesis using nodes that owner_unique [OF inv] by metis
  qed
  have 5: "at_node B m \<noteq> None" if "m \<in> set (at_list B) \<union> pend B" for m
  proof (cases "m \<in> N")
    case True
    then show ?thesis using new [OF True] that pd by auto
  next
    case False
    then show ?thesis using t_linked [OF inv, of m] that nodes [OF False] pd by simp
  qed
  show ?thesis unfolding tok_inv_def using 1 2 3 4 5 dist held(2) by blast
qed

text \<open>A step of the canceller that concerns no node.\<close>

lemma tok_inv_canceller:
  assumes inv: "tok_inv A" and win: "at_win A = Some i" and x: "x_won (at_thr A i)" "x_won pc"
    and B: "at_thr B = (at_thr A)(i := pc)" "at_win B = at_win A" "at_list B = at_list A" "at_node B = at_node A" "at_held B = at_held A"
    and pd: "pend B = pend A" and ctx: "\<And>l. ctx_of (at_thr A i) = Some l \<Longrightarrow> ctx_of pc = Some l"
    and free: "\<And>n q. at_thr A i \<noteq> X_free n q" and wk: "win_ok B pc" and dist: "distinct (at_list B @ at_todo B)"
  shows "tok_inv B"
proof -
  have pos: "xpos A = at_thr A i" "xpos B = pc" using win B by (simp_all add: xpos_def)
  have none: "owns_none B l \<longleftrightarrow> owns_none A l" for l by (simp add: owns_none_def B)
  have "client_ok B l (at_thr A l)" for l
    by (rule client_ok_frame [OF client_okD [OF inv]]) (use B pd ctx pos none in simp_all)
  moreover have "client_ok B i pc" using calculation [of i] x by (cases "at_thr A i"; cases pc) auto
  ultimately have 1: "client_ok B l (at_thr B l)" for l using B(1) by simp
  have 2: "tnode_ok B n t" if "at_node B n = Some t" for n t
  proof -
    obtain l k rc a where t: "t = (l, k, rc, a)" by (cases t)
    have "l \<noteq> i" using client_okD [OF inv, of i] x(1) that t B(4) by (cases "at_thr A i") (auto simp: owns_none_def)
    then show ?thesis using tnode_okD [OF inv, of n t] that B pd pos free by (auto simp: tnode_ok_def t)
  qed
  show ?thesis unfolding tok_inv_def pos(2)
    using 1 2 wk dist t_finite [OF inv] owner_unique [OF inv] t_linked [OF inv] B(3-5) pd by metis
qed

text \<open>A step of the canceller that concerns the nodes \<open>N\<close> of client \<open>j\<close>.\<close>

lemma tok_inv_cancelled:
  assumes inv: "tok_inv A" and win: "at_win A = Some i" and x: "x_won (at_thr A i)" "x_won pc" and ji: "j \<noteq> i"
    and B: "at_thr B = (at_thr A)(i := pc)" "at_win B = at_win A" "at_list B = at_list A" "at_todo B = at_todo A"
    and own: "\<And>m l t. m \<in> N \<Longrightarrow> at_node A m = Some (l, t) \<Longrightarrow> l = j" "\<And>m t. at_node A m = Some (j, t) \<Longrightarrow> m \<in> N"
      "\<And>m m'. m \<in> N \<Longrightarrow> m' \<in> N \<Longrightarrow> m = m'"
    and nodes: "\<And>m. m \<notin> N \<Longrightarrow> at_node B m = at_node A m \<and> (m \<in> pend B \<longleftrightarrow> m \<in> pend A)"
    and held: "\<And>l. l \<noteq> j \<Longrightarrow> l \<in> at_held B \<longleftrightarrow> l \<in> at_held A" "finite (at_held B)"
    and ctx: "\<And>l. ctx_of (at_thr A i) = Some l \<Longrightarrow> l \<noteq> j \<Longrightarrow> ctx_of pc = Some l" and free: "\<And>n q. at_thr A i = X_free n q \<Longrightarrow> n \<in> N"
    and client: "client_ok B j (at_thr A j)" and wk: "win_ok B pc"
    and new: "\<And>m. m \<in> N \<Longrightarrow> at_node B m = None \<and> m \<notin> set (at_list B) \<union> pend B \<or> (\<exists>t. at_node B m = Some (j, t) \<and> tnode_ok B m (j, t))"
  shows "tok_inv B"
proof -
  have pos: "xpos A = at_thr A i" "xpos B = pc" using win B by (simp_all add: xpos_def)
  have other: "m \<notin> N" if "at_node A m = Some (l, t)" "l \<noteq> j" for m l t using own(1) that by blast
  have owner: "l = j" if "m \<in> N" "at_node B m = Some (l, t)" for m l t using new [OF that(1)] that(2) by auto
  have none: "owns_none B l \<longleftrightarrow> owns_none A l" if "l \<noteq> j" for l
    unfolding owns_none_def using nodes other owner that by metis
  have fr: "client_ok B l (at_thr A l)" if "l \<noteq> j" for l
  proof (rule client_ok_frame [OF client_okD [OF inv] B(2) _ held(1) [OF that] _ none [OF that]])
    show "ctx_of (xpos B) = Some l" if "ctx_of (xpos A) = Some l" using ctx [of l] that \<open>l \<noteq> j\<close> pos by simp
    show "at_node B n = at_node A n \<and> (n \<in> set (at_list B) \<longleftrightarrow> n \<in> set (at_list A)) \<and> (n \<in> pend B \<longleftrightarrow> n \<in> pend A)"
      if "t_held (at_thr A l) = Some n" for n
      using t_held_owned [OF client_okD [OF inv] that] other \<open>l \<noteq> j\<close> nodes B(3) by metis
  qed
  have "client_ok B i pc" using fr [OF ji [symmetric]] x by (cases "at_thr A i"; cases pc) auto
  then have 1: "client_ok B l (at_thr B l)" for l using fr [of l] client B(1) ji by (cases "l = j"; cases "l = i") simp_all
  have 2: "tnode_ok B n t" if n: "at_node B n = Some t" for n t
  proof (cases "n \<in> N")
    case True
    then show ?thesis using new [OF True] n by auto
  next
    case False
    obtain l k rc a where t: "t = (l, k, rc, a)" by (cases t)
    have A: "at_node A n = Some (l, k, rc, a)" using n nodes [OF False] t by simp
    then have "l \<noteq> i" using client_okD [OF inv, of i] x(1) by (cases "at_thr A i") (auto simp: owns_none_def)
    moreover have "l \<noteq> j" using own(2) A False by blast
    moreover have "xpos A \<noteq> X_free n q" for q using free [of n q] False pos by auto
    ultimately show ?thesis using tnode_okD [OF inv A] nodes [OF False] held(1) [of l] B by (simp add: tnode_ok_def t) blast
  qed
  have 3: "m = m'" if m: "at_node B m = Some (l, t)" "at_node B m' = Some (l, u)" for m m' l t u
  proof (cases "l = j")
    case False
    then have "m \<notin> N" "m' \<notin> N" using owner m by blast+
    then show ?thesis using nodes m owner_unique [OF inv] by metis
  next
    case True
    have "m \<in> N" "m' \<in> N" using m True own(2) nodes by metis+
    then show ?thesis by (rule own(3))
  qed
  have 4: "at_node B m \<noteq> None" if "m \<in> set (at_list B) \<union> pend B" for m
  proof (cases "m \<in> N")
    case True
    then show ?thesis using new [OF True] that by auto
  next
    case False
    then show ?thesis using t_linked [OF inv, of m] that nodes [OF False] B(3) by simp
  qed
  show ?thesis unfolding tok_inv_def pos(2) using 1 2 3 4 wk held(2) t_distinct [OF inv] unfolding B(3,4) by blast
qed

text \<open>The cancellation itself: the list becomes the detached nodes.\<close>

lemma tok_inv_cancel:
  assumes inv: "tok_inv A" and win: "t_win_inv A" and i: "at_thr A i = K_idle" "at_win A = None"
  shows "tok_inv (tgo i (X_run (hdp (at_list A))) (A\<lparr>at_win := Some i, at_node := deact (at_list A) (at_node A), at_todo := at_list A, at_list := []\<rparr>))"
    (is "tok_inv ?B")
proof -
  have todo: "at_todo A = []" using win i(2) by (simp add: t_win_inv_def)
  have pos: "xpos A = K_idle" "xpos ?B = X_run (hdp (at_list A))" using i(2) by (simp_all add: xpos_def)
  have pd: "pend A = {}" "pend ?B = set (at_list A)" unfolding pend_def pos by (simp_all add: todo)
  have nodeB: "at_node ?B n = deact (at_list A) (at_node A) n" for n by simp
  have own: "(\<exists>t. at_node ?B n = Some (l, t)) \<longleftrightarrow> (\<exists>t. at_node A n = Some (l, t))" for n l
    by (cases "at_node A n") (auto simp: deact_def)
  then have none: "owns_none ?B l \<longleftrightarrow> owns_none A l" for l unfolding owns_none_def by blast
  have ok: "client_ok ?B l (at_thr A l)" for l
    using client_okD [OF inv, of l] none [of l] pd i(2) pos by (cases "(A, l, at_thr A l)" rule: client_ok.cases) (auto simp: deact_def)
  then have "client_ok ?B i (X_run (hdp (at_list A)))" using ok [of i] i(1) by simp
  with ok have 1: "client_ok ?B l (at_thr ?B l)" for l by simp
  have 2: "tnode_ok ?B n t" if "at_node ?B n = Some t" for n t
  proof -
    obtain l k rc a where t: "t = (l, k, rc, a)" by (cases t)
    with that own [of n l] obtain u where u: "at_node A n = Some (l, u)" by auto
    have "l \<noteq> i" using client_okD [OF inv, of i] u i(1) by (cases u) (auto simp: owns_none_def)
    moreover have "t_held (at_thr A l) = Some n" using tnode_okD [OF inv u] pd pos by (cases u) (auto simp: tnode_ok_def)
    ultimately show ?thesis by (simp add: tnode_ok_def t)
  qed
  have 3: "n = m" if "at_node ?B n = Some (l, t)" "at_node ?B m = Some (l, u)" for n m l t u
    using own [of n l] own [of m l] that owner_unique [OF inv] by metis
  have 4: "at_node ?B n \<noteq> None" if "n \<in> set (at_list ?B) \<union> pend ?B" for n
    using t_linked [OF inv, of n] that pd by (cases "at_node A n") (auto simp: deact_def)
  have 5: "win_ok ?B (xpos ?B)" "distinct (at_list ?B @ at_todo ?B)" "finite (at_held ?B)"
    using t_distinct [OF inv] t_finite [OF inv] pos by simp_all
  show ?thesis unfolding tok_inv_def using 1 2 3 4 5 by blast
qed

text \<open>The owner of the node the canceller runs.\<close>

lemma pending_node:
  assumes inv: "tok_inv A" and "at_list A = []" and n: "n \<in> pend A" "at_node A n = Some (j, k, rc, a)"
  shows "\<not> a \<and> j \<in> at_held A \<and> (rc = 2 \<and> (at_thr A j = R_done (Some n) \<or> at_thr A j = U_enter n) \<or> rc = 1 \<and> at_thr A j = U_done False)"
proof -
  have "t_held (at_thr A j) = Some n \<or> at_thr A j = U_done False \<and> j \<in> at_held A \<and> \<not> a \<and> rc = 1"
    using tnode_okD [OF inv n(2)] win_okD [OF inv] n(1) by (auto simp: tnode_ok_def pend_def)
  then show ?thesis using client_okD [OF inv, of j] n assms(2)
    by (cases "(A, j, at_thr A j)" rule: client_ok.cases) auto
qed

lemma t_winnerD:
  assumes "t_win_inv A" and "x_won (at_thr A i)"
  shows "at_win A = Some i" "at_list A = []" "xpos A = at_thr A i"
  using assms by (auto simp: t_win_inv_def xpos_def)

lemma tok_inv_drop:
  assumes inv: "tok_inv A" and win: "t_win_inv A" and pc: "at_thr A i = X_drop n q" and n: "at_node A n = Some (j, k, rc, a)"
  shows "tok_inv (tgo i (if rc = 1 then X_free n q else X_run q) (A\<lparr>at_node := (at_node A)(n \<mapsto> (j, k, rc - 1, a))\<rparr>))" (is "tok_inv (tgo i ?pc ?A)")
proof -
  note W = t_winnerD [OF win, of i, unfolded pc, simplified]
  let ?B = "tgo i ?pc ?A"
  have pos: "xpos ?B = ?pc" using W(1) by (simp add: xpos_def)
  from win_okD [OF inv] W(3) have q: "q = hdp (at_todo A)" "n \<notin> set (at_todo A)" by simp_all
  have pd: "pend A = insert n (set (at_todo A))" "pend ?B = set (at_todo A)" unfolding pend_def pos W(3) by auto
  have np: "n \<in> pend A" using pd by simp
  note P = pending_node [OF inv W(2) np n]
  then have ji: "j \<noteq> i" using pc by auto
  have none: "\<not> owns_none A j" "\<not> owns_none ?B j" using n by (auto simp: owns_none_def)
  from P have client: "client_ok ?B j (at_thr A j)" and new: "tnode_ok ?B n (j, k, rc - 1, a)"
    using client_okD [OF inv, of j] n q(2) pd W ji none pos by (auto simp: tnode_ok_def)
  have wk: "win_ok ?B ?pc" using q P n ji by auto
  show ?thesis
  proof (rule tok_inv_cancelled [OF inv W(1), where j = j and N = "{n}" and pc = ?pc])
    show "m \<in> {n}" if "at_node A m = Some (j, t)" for m t using owner_unique [OF inv n that] by simp
    show "at_node ?B m = None \<and> m \<notin> set (at_list ?B) \<union> pend ?B \<or> (\<exists>t. at_node ?B m = Some (j, t) \<and> tnode_ok ?B m (j, t))" if "m \<in> {n}" for m
      using that new by simp
    show "client_ok ?B j (at_thr A j)" "win_ok ?B ?pc" by (fact client wk)+
  qed (use pc ji n pd t_finite [OF inv] in simp_all)
qed

lemma tok_inv_xfree:
  assumes inv: "tok_inv A" and win: "t_win_inv A" and pc: "at_thr A i = X_free n q" and n: "at_node A n = Some (j, k, rc, a)"
  shows "tok_inv (tgo i (X_ctx (Some (Inr k)) (Some j) q) (A\<lparr>at_node := (at_node A)(n := None)\<rparr>))" (is "tok_inv (tgo i ?pc ?A)")
proof -
  note W = t_winnerD [OF win, of i, unfolded pc, simplified]
  let ?B = "tgo i ?pc ?A"
  have pos: "xpos ?B = ?pc" using W(1) by (simp add: xpos_def)
  from win_okD [OF inv] W(3) n have q: "q = hdp (at_todo A)" "n \<notin> set (at_todo A)" and j: "at_thr A j = U_done False" "j \<in> at_held A" by auto
  have pd: "pend A = set (at_todo A)" "pend ?B = set (at_todo A)" unfolding pend_def pos W(3) by auto
  have ji: "j \<noteq> i" using pc j by auto
  have none: "owns_none ?B j" using owner_unique [OF inv n] by (auto simp: owns_none_def)
  have client: "client_ok ?B j (at_thr A j)" using j W(1) pos by simp
  show ?thesis
  proof (rule tok_inv_cancelled [OF inv W(1), where j = j and N = "{n}" and pc = ?pc])
    show "m \<in> {n}" if "at_node A m = Some (j, t)" for m t using owner_unique [OF inv n that] by simp
    show "client_ok ?B j (at_thr A j)" by (fact client)
    show "win_ok ?B ?pc" using none j q ji by simp
  qed (use pc ji n pd t_finite [OF inv] q(2) W(2) in simp_all)
qed

lemma tok_inv_xtoken:
  assumes inv: "tok_inv A" and win: "t_win_inv A" and pc: "at_thr A i = X_tok (Some j) q"
  shows "tok_inv (tgo i (X_run q) (A\<lparr>at_held := at_held A - {j}\<rparr>))" (is "tok_inv ?B")
proof -
  note W = t_winnerD [OF win, of i, unfolded pc, simplified]
  have pos: "xpos ?B = X_run q" using W(1) by (simp add: xpos_def)
  from win_okD [OF inv] W(3) have q: "q = hdp (at_todo A)" and j: "at_thr A j = U_done False" "owns_none A j" by auto
  have pd: "pend ?B = pend A" unfolding pend_def pos W(3) by simp
  have ji: "j \<noteq> i" using pc j by auto
  have client: "client_ok ?B j (at_thr A j)" using j W(1) by simp
  show ?thesis
    by (rule tok_inv_cancelled [OF inv W(1), where j = j and N = "{}" and pc = "X_run q"])
      (use pc ji pd t_finite [OF inv] client j q in \<open>auto simp: owns_none_def\<close>)
qed

text \<open>A client that has no node, and one that has the node \<open>n\<close>.\<close>

lemma tok_inv_client0:
  assumes "tok_inv A" and "t_win_inv A" and "\<not> x_won (at_thr A i)" "at_thr A i \<noteq> U_done False" and none: "owns_none A i"
    and B: "at_thr B = (at_thr A)(i := pc)" "at_win B = at_win A" "at_todo B = at_todo A" "at_node B = at_node A" "at_list B = at_list A"
    and held: "\<And>l. l \<noteq> i \<Longrightarrow> l \<in> at_held B \<longleftrightarrow> l \<in> at_held A" "finite (at_held B)"
    and pc: "owns_none B i \<Longrightarrow> client_ok B i pc"
  shows "tok_inv B"
proof (rule tok_inv_client [OF assms(1-4) B(1-3), where N = "{}"])
  show "m \<in> {}" if "at_node A m = Some (i, t)" for m t using none that unfolding owns_none_def by blast
  show "client_ok B i pc" using pc none B(4) by (simp add: owns_none_def)
qed (use B held t_distinct [OF assms(1)] in simp_all)

lemma tok_inv_client1:
  assumes inv: "tok_inv A" and "t_win_inv A" and "\<not> x_won (at_thr A i)" "at_thr A i \<noteq> U_done False" and n: "at_node A n = Some (i, u)"
    and B: "at_thr B = (at_thr A)(i := pc)" "at_win B = at_win A" "at_todo B = at_todo A"
    and nodes: "\<And>m. m \<noteq> n \<Longrightarrow> at_node B m = at_node A m" "\<And>m. m \<noteq> n \<Longrightarrow> m \<in> set (at_list B) \<longleftrightarrow> m \<in> set (at_list A)"
    and held: "\<And>l. l \<noteq> i \<Longrightarrow> l \<in> at_held B \<longleftrightarrow> l \<in> at_held A" "finite (at_held B)"
    and dist: "distinct (at_list B @ at_todo B)"
    and pc: "pend B = pend A \<Longrightarrow> client_ok B i pc"
    and new: "at_node B n = None \<and> n \<notin> set (at_list B) \<union> pend A \<or> (\<exists>k rc a. at_node B n = Some (i, k, rc, a) \<and> t_held pc = Some n \<and> (n \<in> pend A \<longrightarrow> \<not> a)) \<or>
      (\<exists>k. at_node B n = Some (i, k, 1, False) \<and> pc = U_done False \<and> i \<in> at_held B \<and> n \<notin> set (at_list B) \<and> n \<in> pend A)"
  shows "tok_inv B"
proof (rule tok_inv_client [OF assms(1-4) B, where N = "{n}"])
  show "m \<in> {n}" if "at_node A m = Some (i, t)" for m t using owner_unique [OF inv n that] by simp
  show "at_node B m = None \<and> m \<notin> set (at_list B) \<union> pend A \<or> (\<exists>k rc a. at_node B m = Some (i, k, rc, a) \<and> t_held pc = Some m \<and> (m \<in> pend A \<longrightarrow> \<not> a)) \<or>
      (\<exists>k. at_node B m = Some (i, k, 1, False) \<and> pc = U_done False \<and> i \<in> at_held B \<and> m \<notin> set (at_list B) \<and> m \<in> pend A)" if "m \<in> {n}" for m
    using new that by simp
qed (use n nodes held dist pc in simp_all)

lemma listed_not_pending: "t_win_inv A \<Longrightarrow> n \<in> set (at_list A) \<Longrightarrow> at_win A = None \<and> n \<notin> pend A"
  by (cases "at_win A") (auto simp: t_win_inv_def pend_def xpos_def)

lemma tok_inv_step: "t_step A B \<Longrightarrow> t_win_inv A \<Longrightarrow> tok_inv A \<Longrightarrow> tok_inv B"
proof (induction rule: t_step.induct)
  case (t_register A i k)
  then show ?case using client_okD [of A i] t_finite [of A] by - (rule tok_inv_client0 [of A i _ "R_alloc k"], simp_all)
next
  case (t_oom A i k)
  then show ?case using client_okD [of A i] t_finite [of A] by - (rule tok_inv_client0 [of A i _ "R_done NULL"], simp_all)
next
  case (t_again A i)
  then show ?case using client_okD [of A i] t_finite [of A] by - (rule tok_inv_client0 [of A i _ "X_done False"], simp_all)
next
  case (t_hook A i k w)
  then show ?case using client_okD [of A i] t_finite [of A] by - (rule tok_inv_client0 [of A i _ "U_tok w"], simp_all)
next
  case (t_token A i w)
  then show ?case using client_okD [of A i] t_finite [of A] by - (rule tok_inv_client0 [of A i _ "U_done w"], simp_all, cases w, simp_all)
next
  case (t_retain A i k n)
  then show ?case using client_okD [of A i] t_finite [of A] t_distinct [of A] by - (rule tok_inv_client1 [of A i n _ _ "R_enter k n"], auto)
next
  case (t_link A i k n)
  then show ?case using client_okD [of A i] t_finite [of A] t_distinct [of A]
    by - (rule tok_inv_client1 [of A i n _ _ "R_done (Some n)"], auto simp: pend_def)
next
  case (t_late A i k n)
  then show ?case using client_okD [of A i] t_finite [of A] t_distinct [of A] by - (rule tok_inv_client1 [of A i n _ _ "R_call k n"], auto)
next
  case (t_call A i k n)
  then show ?case using client_okD [of A i] t_finite [of A] t_distinct [of A] by - (rule tok_inv_client1 [of A i n _ _ "R_done (Some n)"], auto)
next
  case (t_unregister A i n)
  then obtain k rc a where n: "at_node A n = Some (i, k, rc, a)" using client_okD [of A i] by auto
  with t_unregister show ?case using client_okD [of A i] listed_not_pending [of A n] t_finite [of A] t_distinct [of A] by - (rule tok_inv_client1 [of A i n _ _ "U_enter n"], auto)
next
  case (t_alloc A i k n)
  let ?B = "tgo i (R_retain k n) (A\<lparr>at_node := (at_node A)(n \<mapsto> (i, k, 2, False))\<rparr>)"
  have none: "owns_none A i" "i \<notin> at_held A" using client_okD [OF t_alloc(4), of i] t_alloc(1) by simp_all
  have fresh: "n \<notin> set (at_list A) \<union> pend A" using t_linked [OF t_alloc(4), of n] t_alloc(2) by blast
  show ?case
  proof (rule tok_inv_client [OF t_alloc(4,3), where i = i and pc = "R_retain k n" and N = "{n}"])
    show "m \<in> {n}" if "at_node A m = Some (i, t)" for m t using none that unfolding owns_none_def by blast
  qed (use t_alloc none fresh t_finite [OF t_alloc(4)] t_distinct [OF t_alloc(4)] in \<open>simp_all, blast\<close>)
next
  case (t_taken A i n k)
  have "n \<in> set (at_list A)" "i \<in> at_held A" using client_okD [OF t_taken(4), of i] t_taken(1,2) by auto
  moreover from this have "at_win A = None" "n \<notin> pend A" using listed_not_pending [OF t_taken(3)] by auto
  ultimately show ?case using t_taken t_finite [of A] t_distinct [of A]
    by - (rule tok_inv_client1 [of A i n _ _ "U_free n True"], auto simp: pend_def)
next
  case (t_last A i n k)
  then show ?case using client_okD [of A i] t_finite [of A] t_distinct [of A]
    by - (rule tok_inv_client1 [of A i n _ _ "U_free n False"], auto split: if_splits)
next
  case (t_drop A i n k)
  then have "n \<in> pend A" "n \<notin> set (at_list A)" "i \<in> at_held A" "at_win A \<noteq> None" using client_okD [of A i] by (auto split: if_splits)
  with t_drop show ?case using t_finite [of A] t_distinct [of A]
    by - (rule tok_inv_client1 [of A i n _ _ "U_done False"], auto simp: owns_none_def)
next
  case (t_free A i n w k rc a)
  let ?pc = "U_ctx (Some (Inr k)) (Some i) w" let ?B = "tgo i ?pc (A\<lparr>at_node := (at_node A)(n := None)\<rparr>)"
  have none: "owns_none ?B i" using owner_unique [OF t_free(4,2)] by (auto simp: owns_none_def)
  have ok: "i \<in> at_held A" "n \<notin> set (at_list A) \<union> pend A" "w \<or> at_win A \<noteq> None" using client_okD [OF t_free(4), of i] t_free(1) by auto
  show ?case
    by (rule tok_inv_client1 [OF t_free(4,3) _ _ t_free(2), of _ ?pc])
      (use t_free(1) none ok t_finite [OF t_free(4)] t_distinct [OF t_free(4)] in simp_all)
next
  case (t_end A i)
  note W = t_winnerD [OF t_end(2), of i, unfolded t_end(1), simplified]
  have "at_todo A = []" using win_okD [OF t_end(3)] W(3) by (cases "at_todo A") simp_all
  then show ?case
    by - (rule tok_inv_canceller [OF t_end(3) W(1), of "X_done True"], use t_end(1) W in \<open>simp_all add: pend_def xpos_def\<close>)
next
  case (t_run A i n ns j k rc a)
  note W = t_winnerD [OF t_run(4), of i, unfolded t_run(1), simplified]
  have n: "n \<in> pend A" "n \<notin> set ns" "distinct ns" using t_run(2) t_distinct [OF t_run(5)] by (simp_all add: pend_def)
  have "\<not> a" using pending_node [OF t_run(5) W(2) n(1) t_run(3)] by simp
  with n t_run(1-3) W show ?case
    by - (rule tok_inv_canceller [OF t_run(5) W(1), of "X_drop n (hdp ns)"], simp_all add: pend_def xpos_def)
next
  case (t_xhook A i k j q)
  note W = t_winnerD [OF t_xhook(2), of i, unfolded t_xhook(1), simplified]
  from win_okD [OF t_xhook(3)] W(3) have "q = hdp (at_todo A)" "at_thr A j = U_done False" "j \<in> at_held A" "owns_none A j" by auto
  with W t_xhook(1) t_distinct [OF t_xhook(3)] show ?case
    by - (rule tok_inv_canceller [OF t_xhook(3) W(1), of "X_tok (Some j) q"], auto simp: pend_def xpos_def owns_none_def)
next
  case (t_xlast A i n q j k a)
  from tok_inv_drop [OF t_xlast(4,3,1,2)] show ?case by simp
next
  case (t_xdrop A i n q j k a)
  from tok_inv_drop [OF t_xdrop(4,3,1,2)] show ?case by simp
qed (rule tok_inv_cancel tok_inv_xfree tok_inv_xtoken; assumption)+

section \<open>Callbacks and release hooks\<close>

definition times_run :: "(('k + 'k) \<times> ptr) list \<Rightarrow> nat \<Rightarrow> nat" where
  "times_run l i = length (filter (\<lambda>(f, x). isl f \<and> x = Some i) l)"

definition times_released :: "(('k + 'k) \<times> ptr) list \<Rightarrow> nat \<Rightarrow> nat" where
  "times_released l i = length (filter (\<lambda>(f, x). \<not> isl f \<and> x = Some i) l)"

lemma times_run_released [simp]:
  "times_run [] i = 0" "times_released [] i = 0" "times_run (l @ l') i = times_run l i + times_run l' i" "times_released (l @ l') i = times_released l i + times_released l' i"
  "times_run [(Inl k, Some j)] i = (if j = i then 1 else 0)" "times_released [(Inl k, Some j)] i = 0"
  "times_run [(Inr k, Some j)] i = 0" "times_released [(Inr k, Some j)] i = (if j = i then 1 else 0)"
  by (simp_all add: times_run_def times_released_def)

text \<open>
  How often the callback and the release hook of client \<open>i\<close> have been called: the callback not
  while its node is listed or still to be run, and never when the client took it off the list; the
  hook once its node was freed.
\<close>

definition awaits :: "'k atok \<Rightarrow> nat \<Rightarrow> bool" where
  "awaits A i \<longleftrightarrow> (\<exists>n\<in>set (at_todo A). \<exists>t. at_node A n = Some (i, t))"

fun ran_at :: "'k atok \<Rightarrow> nat \<Rightarrow> 'k tpc \<Rightarrow> nat" where
  "ran_at A i (R_done (Some n)) = (if n \<in> set (at_list A) \<union> set (at_todo A) then 0 else 1)"
| "ran_at A i (U_enter n) = (if n \<in> set (at_list A) \<union> set (at_todo A) then 0 else 1)"
| "ran_at A i (U_free n w) = (if w then 0 else 1)" | "ran_at A i (U_ctx r x w) = (if w then 0 else 1)"
| "ran_at A i (U_tok w) = (if w then 0 else 1)" | "ran_at A i (U_done w) = (if w \<or> awaits A i then 0 else 1)" | "ran_at A i pc = 0"

fun released_at :: "'k atok \<Rightarrow> nat \<Rightarrow> 'k tpc \<Rightarrow> nat" where
  "released_at A i (U_tok w) = 1"
| "released_at A i (U_done w) = (if w \<or> i \<notin> at_held A \<or> (\<exists>q. xpos A = X_tok (Some i) q) then 1 else 0)"
| "released_at A i pc = 0"

definition calls_inv :: "'k atok \<Rightarrow> bool" where
  "calls_inv A \<longleftrightarrow> (\<forall>i. times_run (at_log A) i = ran_at A i (at_thr A i) \<and> times_released (at_log A) i = released_at A i (at_thr A i))"

lemma ran_at_frame:
  assumes "\<And>n. t_held pc = Some n \<Longrightarrow> n \<in> set (at_list B) \<union> set (at_todo B) \<longleftrightarrow> n \<in> set (at_list A) \<union> set (at_todo A)" and "awaits B i = awaits A i"
  shows "ran_at B i pc = ran_at A i pc"
  using assms by (cases "(A, i, pc)" rule: ran_at.cases) auto

lemma released_at_frame:
  assumes "i \<in> at_held B \<longleftrightarrow> i \<in> at_held A" and "(\<exists>q. xpos B = X_tok (Some i) q) \<longleftrightarrow> (\<exists>q. xpos A = X_tok (Some i) q)"
  shows "released_at B i pc = released_at A i pc"
  using assms by (cases "(A, i, pc)" rule: released_at.cases) auto

text \<open>A step of client \<open>i\<close>, and one of the canceller that concerns client \<open>j\<close>.\<close>

lemma calls_inv_client:
  assumes inv: "tok_inv A" "t_win_inv A" and calls: "calls_inv A" and i: "\<not> x_won (at_thr A i)"
    and B: "at_thr B = (at_thr A)(i := pc)" "at_win B = at_win A" "at_todo B = at_todo A" "at_log B = at_log A @ ev"
    and nodes: "\<And>m l t. l \<noteq> i \<Longrightarrow> at_node A m = Some (l, t) \<Longrightarrow> m \<in> set (at_list B) \<longleftrightarrow> m \<in> set (at_list A)"
      "\<And>m l. l \<noteq> i \<Longrightarrow> (\<exists>t. at_node B m = Some (l, t)) \<longleftrightarrow> (\<exists>t. at_node A m = Some (l, t))"
    and held: "\<And>l. l \<noteq> i \<Longrightarrow> l \<in> at_held B \<longleftrightarrow> l \<in> at_held A" and ev: "\<And>l. l \<noteq> i \<Longrightarrow> times_run ev l = 0 \<and> times_released ev l = 0"
    and own: "xpos B = xpos A \<Longrightarrow> ran_at B i pc = times_run ev i + ran_at A i (at_thr A i) \<and> released_at B i pc = times_released ev i + released_at A i (at_thr A i)"
  shows "calls_inv B"
proof -
  have pos: "xpos B = xpos A" by (rule xpos_client [OF inv(2) i B(1,2)])
  have "ran_at B l (at_thr A l) = ran_at A l (at_thr A l) \<and> released_at B l (at_thr A l) = released_at A l (at_thr A l)" if l: "l \<noteq> i" for l
  proof (intro conjI ran_at_frame released_at_frame)
    show "n \<in> set (at_list B) \<union> set (at_todo B) \<longleftrightarrow> n \<in> set (at_list A) \<union> set (at_todo A)" if "t_held (at_thr A l) = Some n" for n
      using t_held_owned [OF client_okD [OF inv(1)] that] nodes(1) [OF l] B(3) by auto
    show "awaits B l = awaits A l" unfolding awaits_def B(3) using nodes(2) [OF l] by simp
  qed (use held [OF l] pos in simp_all)
  then show ?thesis using calls own [OF pos] ev B by (simp add: calls_inv_def)
qed

lemma calls_inv_canceller:
  assumes inv: "tok_inv A" and calls: "calls_inv A" and win: "at_win A = Some i" and x: "x_won (at_thr A i)" "x_won pc" and ji: "j \<noteq> i"
    and B: "at_thr B = (at_thr A)(i := pc)" "at_win B = at_win A" "at_list B = at_list A" "at_log B = at_log A @ ev"
    and todo: "\<And>m l t. l \<noteq> j \<Longrightarrow> at_node A m = Some (l, t) \<Longrightarrow> m \<in> set (at_todo B) \<longleftrightarrow> m \<in> set (at_todo A)"
      "\<And>l. l \<noteq> j \<Longrightarrow> awaits B l = awaits A l"
    and held: "\<And>l. l \<noteq> j \<Longrightarrow> l \<in> at_held B \<longleftrightarrow> l \<in> at_held A" and ev: "\<And>l. l \<noteq> j \<Longrightarrow> times_run ev l = 0 \<and> times_released ev l = 0"
    and ctx: "\<And>l q. l \<noteq> j \<Longrightarrow> pc \<noteq> X_tok (Some l) q \<and> at_thr A i \<noteq> X_tok (Some l) q"
    and own: "ran_at B j (at_thr A j) = times_run ev j + ran_at A j (at_thr A j) \<and> released_at B j (at_thr A j) = times_released ev j + released_at A j (at_thr A j)"
  shows "calls_inv B"
proof -
  have pos: "xpos A = at_thr A i" "xpos B = pc" using win B by (simp_all add: xpos_def)
  have fr: "ran_at B l (at_thr A l) = ran_at A l (at_thr A l) \<and> released_at B l (at_thr A l) = released_at A l (at_thr A l)" if l: "l \<noteq> j" for l
  proof (intro conjI ran_at_frame released_at_frame)
    show "n \<in> set (at_list B) \<union> set (at_todo B) \<longleftrightarrow> n \<in> set (at_list A) \<union> set (at_todo A)" if "t_held (at_thr A l) = Some n" for n
      using t_held_owned [OF client_okD [OF inv] that] todo(1) [OF l] B(3) by auto
  qed (use todo(2) [OF l] held [OF l] pos ctx [OF l] in simp_all)
  have zero: "ran_at C l q = 0 \<and> released_at C l q = 0" if "x_won q" for C l and q :: "'a tpc" using that by (cases q) auto
  have "times_run (at_log B) l = ran_at B l (at_thr B l) \<and> times_released (at_log B) l = released_at B l (at_thr B l)" for l
  proof (cases "l = i")
    case True
    then show ?thesis using calls zero [OF x(1), of A i] zero [OF x(2), of B i] ev [OF ji [symmetric]] B by (simp add: calls_inv_def)
  next
    case False
    then show ?thesis using calls own fr [of l] ev [of l] B by (cases "l = j") (simp_all add: calls_inv_def)
  qed
  then show ?thesis by (simp add: calls_inv_def)
qed

text \<open>A step of client \<open>i\<close> that changes neither the lists nor who owns which node.\<close>

lemma calls_inv_own:
  assumes "tok_inv A" "t_win_inv A" "calls_inv A" "\<not> x_won (at_thr A i)"
    and "at_thr B = (at_thr A)(i := pc)" "at_win B = at_win A" "at_todo B = at_todo A" "at_log B = at_log A @ ev"
    and "at_list B = at_list A" "\<And>m. at_node B m = at_node A m \<or> (\<exists>t u. at_node A m = Some (i, t) \<and> at_node B m = Some (i, u))"
    and "\<And>l. l \<noteq> i \<Longrightarrow> l \<in> at_held B \<longleftrightarrow> l \<in> at_held A" "\<And>l. l \<noteq> i \<Longrightarrow> times_run ev l = 0 \<and> times_released ev l = 0"
    and "xpos B = xpos A \<Longrightarrow> ran_at B i pc = times_run ev i + ran_at A i (at_thr A i) \<and> released_at B i pc = times_released ev i + released_at A i (at_thr A i)"
  shows "calls_inv B"
proof (rule calls_inv_client [OF assms(1-8) _ _ assms(11-13)])
  show "(\<exists>t. at_node B m = Some (l, t)) \<longleftrightarrow> (\<exists>t. at_node A m = Some (l, t))" for m l
    using assms(10) [of m] by (elim disjE exE conjE) (simp_all del: split_paired_Ex)
qed (use assms(9) in simp_all)

text \<open>A step of the canceller that calls nothing.\<close>

lemma calls_inv_silent:
  assumes inv: "tok_inv A" and calls: "calls_inv A" and win: "at_win A = Some i" and x: "x_won (at_thr A i)" "x_won pc"
    and tok: "\<And>l q. pc \<noteq> X_tok l q \<and> at_thr A i \<noteq> X_tok l q"
    and B: "at_thr B = (at_thr A)(i := pc)" "at_win B = at_win A" "at_list B = at_list A" "at_log B = at_log A" "at_todo B = at_todo A" "at_held B = at_held A"
    and nodes: "\<And>m l. m \<in> set (at_todo A) \<Longrightarrow> (\<exists>t. at_node B m = Some (l, t)) \<longleftrightarrow> (\<exists>t. at_node A m = Some (l, t))"
  shows "calls_inv B"
proof -
  have pos: "xpos A = at_thr A i" "xpos B = pc" using win B by (simp_all add: xpos_def)
  have aw: "awaits B l = awaits A l" for l unfolding awaits_def B(5) using nodes by simp
  show ?thesis
  proof (rule calls_inv_canceller [OF inv calls win x, of "Suc i" _ "[]"])
    show "ran_at B (Suc i) (at_thr A (Suc i)) = times_run [] (Suc i) + ran_at A (Suc i) (at_thr A (Suc i)) \<and>
      released_at B (Suc i) (at_thr A (Suc i)) = times_released [] (Suc i) + released_at A (Suc i) (at_thr A (Suc i))"
      using ran_at_frame [of "at_thr A (Suc i)" B A "Suc i"] released_at_frame [of "Suc i" B A "at_thr A (Suc i)"] B aw pos tok by simp
  qed (use B aw tok in simp_all)
qed

lemma calls_inv_step: "t_step A B \<Longrightarrow> t_win_inv A \<Longrightarrow> tok_inv A \<Longrightarrow> calls_inv A \<Longrightarrow> calls_inv B"
proof (induction rule: t_step.induct)
  case (t_register A i k)
  then show ?case by - (rule calls_inv_own [of A i _ "R_alloc k" "[]"], simp_all)
next
  case (t_oom A i k)
  then show ?case by - (rule calls_inv_own [of A i _ "R_done NULL" "[]"], simp_all)
next
  case (t_again A i)
  then show ?case by - (rule calls_inv_own [of A i _ "X_done False" "[]"], simp_all)
next
  case (t_retain A i k n)
  then show ?case by - (rule calls_inv_own [of A i _ "R_enter k n" "[]"], simp_all)
next
  case (t_unregister A i n)
  then show ?case by - (rule calls_inv_own [of A i _ "U_enter n" "[]"], simp_all)
next
  case (t_late A i k n)
  then show ?case using client_okD [of A i] by - (rule calls_inv_own [of A i _ "R_call k n" "[]"], simp_all, blast)
next
  case (t_call A i k n)
  then show ?case using client_okD [of A i] by - (rule calls_inv_own [of A i _ "R_done (Some n)" "[(Inl k, Some i)]"], simp_all add: pend_def)
next
  case (t_hook A i k w)
  then show ?case by - (rule calls_inv_own [of A i _ "U_tok w" "[(Inr k, Some i)]"], simp_all)
next
  case (t_last A i n k)
  then have "n \<notin> set (at_list A) \<union> set (at_todo A)" using client_okD [of A i] by (auto simp: pend_def split: if_splits)
  with t_last show ?case by - (rule calls_inv_own [of A i _ "U_free n False" "[]"], simp_all, blast)
next
  case (t_token A i w)
  then have "\<not> awaits A i" using client_okD [of A i] by (auto simp: awaits_def owns_none_def)
  with t_token show ?case by - (rule calls_inv_own [of A i _ "U_done w" "[]"], simp_all add: awaits_def)
next
  case (t_drop A i n k)
  let ?B = "tgo i (U_done False) (A\<lparr>at_node := (at_node A)(n \<mapsto> (i, k, 1, False))\<rparr>)"
  have ok: "n \<notin> set (at_list A)" "i \<in> at_held A" using client_okD [OF t_drop(4), of i] t_drop(1,2) by (auto split: if_splits)
  have tok: "xpos A \<noteq> X_tok (Some i) q" for q using win_okD [OF t_drop(4)] t_drop(1) by auto
  have "awaits ?B i \<longleftrightarrow> n \<in> set (at_todo A)" using owner_unique [OF t_drop(4,2)] by (auto simp: awaits_def)
  with t_drop ok tok show ?case by - (rule calls_inv_own [of A i _ "U_done False" "[]"], simp_all, blast)
next
  case (t_alloc A i k n)
  then show ?case by - (rule calls_inv_client [of A i _ "R_retain k n" "[]"], auto)
next
  case (t_link A i k n)
  then have "n \<notin> set (at_list A)" "at_node A n = Some (i, k, 2, False)" using client_okD [of A i] by auto
  with t_link show ?case by - (rule calls_inv_client [of A i _ "R_done (Some n)" "[]"], auto)
next
  case (t_taken A i n k)
  have n: "n \<in> set (at_list A)" using client_okD [OF t_taken(4), of i] t_taken(1,2) by auto
  show ?case
  proof (rule calls_inv_client [OF t_taken(4,3,5), of i _ "U_free n True" "[]"])
    show "m \<in> set (at_list (tgo i (U_free n True) (A\<lparr>at_node := (at_node A)(n \<mapsto> (i, k, 0, False)), at_list := remove1 n (at_list A)\<rparr>))) \<longleftrightarrow> m \<in> set (at_list A)"
      if "l \<noteq> i" "at_node A m = Some (l, t)" for m l t
      using that t_taken(2) by (cases "m = n") (simp_all add: in_set_remove1)
  qed (use t_taken(1,2) n in auto)
next
  case (t_free A i n w k rc a)
  then show ?case by - (rule calls_inv_client [of A i _ "U_ctx (Some (Inr k)) (Some i) w" "[]"], auto)
next
  case (t_cancel A i)
  let ?B = "tgo i (X_run (hdp (at_list A))) (A\<lparr>at_win := Some i, at_node := deact (at_list A) (at_node A), at_todo := at_list A, at_list := []\<rparr>)"
  have todo: "at_todo A = []" using t_cancel(2,3) by (simp add: t_win_inv_def)
  have pos: "xpos A = K_idle" "xpos ?B = X_run (hdp (at_list A))" using t_cancel(2) by (simp_all add: xpos_def)
  have "ran_at ?B l (at_thr A l) = ran_at A l (at_thr A l) \<and> released_at ?B l (at_thr A l) = released_at A l (at_thr A l)" for l
    using client_okD [OF t_cancel(4), of l] t_cancel(2) todo pos by (cases "(A, l, at_thr A l)" rule: client_ok.cases) (auto split: if_splits)
  then show ?case using t_cancel(1,5) by (simp add: calls_inv_def)
next
  case (t_end A i)
  note W = t_winnerD [OF t_end(2), of i, unfolded t_end(1), simplified]
  show ?case by (rule calls_inv_silent [OF t_end(3,4) W(1), of "X_done True"]) (use t_end(1) in simp_all)
next
  case (t_run A i n ns j k rc a)
  let ?B = "tgo i (X_drop n (hdp ns)) (A\<lparr>at_todo := ns, at_log := at_log A @ [(Inl k, Some j)]\<rparr>)"
  note W = t_winnerD [OF t_run(4), of i, unfolded t_run(1), simplified]
  have n: "n \<in> pend A" "n \<notin> set ns" using t_run(2) t_distinct [OF t_run(5)] by (simp_all add: pend_def)
  note P = pending_node [OF t_run(5) W(2) n(1) t_run(3)]
  have ji: "j \<noteq> i" using P t_run(1) by auto
  have uniq: "at_node A m \<noteq> Some (j, t)" if "m \<in> set ns" for m t using owner_unique [OF t_run(5,3), of m t] n(2) that by blast
  have aw: "awaits A j" "\<not> awaits ?B j" using t_run(2,3) uniq by (simp_all add: awaits_def)
  have other: "awaits ?B l = awaits A l" if "l \<noteq> j" for l using that t_run(2,3) by (simp add: awaits_def)
  show ?case
    by (rule calls_inv_canceller [OF t_run(5,6) W(1), of "X_drop n (hdp ns)" j _ "[(Inl k, Some j)]"])
      (use t_run(1-3) P n ji aw W other in \<open>auto simp: xpos_def\<close>)
next
  case (t_xlast A i n q j k a)
  note W = t_winnerD [OF t_xlast(3), of i, unfolded t_xlast(1), simplified]
  show ?case by (rule calls_inv_silent [OF t_xlast(4,5) W(1), of "X_free n q"]) (use t_xlast(1,2) in auto)
next
  case (t_xdrop A i n q j k a)
  note W = t_winnerD [OF t_xdrop(3), of i, unfolded t_xdrop(1), simplified]
  show ?case by (rule calls_inv_silent [OF t_xdrop(4,5) W(1), of "X_run q"]) (use t_xdrop(1,2) in auto)
next
  case (t_xfree A i n q j k rc a)
  note W = t_winnerD [OF t_xfree(3), of i, unfolded t_xfree(1), simplified]
  have "n \<notin> set (at_todo A)" using win_okD [OF t_xfree(4)] W(3) by simp
  with t_xfree(1,2) show ?case by - (rule calls_inv_silent [OF t_xfree(4,5) W(1), of "X_ctx (Some (Inr k)) (Some j) q"], auto)
next
  case (t_xhook A i k j q)
  let ?B = "tgo i (X_tok (Some j) q) (A\<lparr>at_log := at_log A @ [(Inr k, Some j)]\<rparr>)"
  note W = t_winnerD [OF t_xhook(2), of i, unfolded t_xhook(1), simplified]
  from win_okD [OF t_xhook(3)] W(3) have j: "at_thr A j = U_done False" "j \<in> at_held A" by auto
  then have ji: "j \<noteq> i" using t_xhook(1) by auto
  have aw: "awaits ?B l = awaits A l" for l by (simp add: awaits_def)
  show ?case
    by (rule calls_inv_canceller [OF t_xhook(3,4) W(1), of "X_tok (Some j) q" j _ "[(Inr k, Some j)]"])
      (use t_xhook(1) W j ji aw in \<open>simp_all add: xpos_def\<close>)
next
  case (t_xtoken A i j q)
  let ?B = "tgo i (X_run q) (A\<lparr>at_held := at_held A - {j}\<rparr>)"
  note W = t_winnerD [OF t_xtoken(2), of i, unfolded t_xtoken(1), simplified]
  from win_okD [OF t_xtoken(3)] W(3) have j: "at_thr A j = U_done False" "j \<in> at_held A" by auto
  then have ji: "j \<noteq> i" using t_xtoken(1) by auto
  have aw: "awaits ?B l = awaits A l" for l by (simp add: awaits_def)
  show ?case
    by (rule calls_inv_canceller [OF t_xtoken(3,4) W(1), of "X_run q" j _ "[]"])
      (use t_xtoken(1) W j ji aw in \<open>simp_all add: xpos_def\<close>)
qed

text \<open>The callback of a client does not run after its release hook.\<close>

definition calls_ordered :: "(('k + 'k) \<times> ptr) list \<Rightarrow> bool" where
  "calls_ordered l \<longleftrightarrow> (\<forall>l1 l2 i. l = l1 @ l2 \<longrightarrow> 0 < times_released l1 i \<longrightarrow> times_run l2 i = 0)"

lemma calls_ordered_Nil [simp]: "calls_ordered []"
  by (simp add: calls_ordered_def)

lemma calls_ordered_snoc:
  assumes "calls_ordered l" and "\<And>i. times_run [e] i \<noteq> 0 \<Longrightarrow> times_released l i = 0"
  shows "calls_ordered (l @ [e])"
  unfolding calls_ordered_def
proof (intro allI impI)
  fix l1 l2 i assume split: "l @ [e] = l1 @ l2" and rel: "0 < times_released l1 i"
  show "times_run l2 i = 0"
  proof (cases l2 rule: rev_cases)
    case (snoc m d)
    then have l: "l = l1 @ m" "d = e" using split by auto
    then have "times_run m i = 0" using assms(1) rel by (auto simp: calls_ordered_def)
    moreover have "times_run [e] i = 0" using assms(2) [of i] l rel by auto
    ultimately show ?thesis by (simp add: snoc l)
  qed simp
qed

lemma calls_ordered_hook: "calls_ordered l \<Longrightarrow> calls_ordered (l @ [(Inr k, Some i)])"
  by (rule calls_ordered_snoc) simp_all

lemma calls_ordered_step:
  assumes "t_step A B" and "t_win_inv A" and "tok_inv A" and "calls_inv A" and "calls_ordered (at_log A)"
  shows "calls_ordered (at_log B)"
  using assms
proof (induction rule: t_step.induct)
  case (t_call A i k n)
  then have "times_released (at_log A) i = 0" by (simp add: calls_inv_def)
  with t_call show ?case by - (simp, rule calls_ordered_snoc, auto split: if_splits)
next
  case (t_run A i n ns j k rc a)
  note W = t_winnerD [OF t_run(4), of i, unfolded t_run(1), simplified]
  have "n \<in> pend A" using t_run(2) by (simp add: pend_def)
  from pending_node [OF t_run(5) W(2) this t_run(3)] have "released_at A j (at_thr A j) = 0" using W(3) by auto
  then have "times_released (at_log A) j = 0" using t_run(6) by (simp add: calls_inv_def)
  with t_run(7) show ?case by - (simp, rule calls_ordered_snoc, auto split: if_splits)
qed (simp_all add: calls_ordered_hook)

definition toks_inv :: "'k atok \<Rightarrow> bool" where
  "toks_inv A \<longleftrightarrow> t_win_inv A \<and> tok_inv A \<and> calls_inv A \<and> calls_ordered (at_log A)"

lemma toks_inv_step: "t_step A B \<Longrightarrow> toks_inv A \<Longrightarrow> toks_inv B"
  unfolding toks_inv_def using t_win_step tok_inv_step calls_inv_step calls_ordered_step by blast

end
