(* ===== verification/Cancellation_Sim.thy ===== *)
theory Cancellation_Sim
  imports Cancellation_Race
begin

text \<open>
  The interleaved code of the clients of a token and of the threads that cancel it is simulated by
  the abstract machine of \<open>Cancellation_Race\<close>, with callbacks that touch only the application's
  state and while the application keeps a reference to the token.
\<close>

section \<open>The abstraction\<close>

type_synonym 'k cb_sig = "addr \<times> ('k + 'k) \<times> ptr \<times> ('k + 'k) option \<times> int \<times> bool"

definition csig :: "('k + 'k) UfsrvCancellationCallback \<Rightarrow> 'k cb_sig" where
  "csig c = (cb_token c, cb_fn c, cb_context c, cb_release_context c, cb_refcount c, cb_active c)"

definition nsig :: "addr \<Rightarrow> nat \<times> 'k \<times> int \<times> bool \<Rightarrow> 'k cb_sig" where
  "nsig t = (\<lambda>(i, k, rc, a). (t, Inl k, Some i, Some (Inr k), rc, a))"

text \<open>The clients' nodes beside those that were registered before, on any token.\<close>

definition cview :: "addr \<Rightarrow> (addr \<rightharpoonup> 'k cb_sig) \<Rightarrow> (addr \<rightharpoonup> nat \<times> 'k \<times> int \<times> bool) \<Rightarrow> addr \<Rightarrow> 'k cb_sig option" where
  "cview t M0 N n = (case N n of None \<Rightarrow> M0 n | Some x \<Rightarrow> Some (nsig t x))"

definition sigs :: "('u, 'k + 'k, 'z) cancel_sys_scheme \<Rightarrow> addr \<Rightarrow> 'k cb_sig option" where
  "sigs s n = map_option csig (callbacks s n)"

text \<open>The application's state after a list of calls.\<close>

definition apply_calls :: "('f \<Rightarrow> ptr \<Rightarrow> 'u \<Rightarrow> 'u) \<Rightarrow> ('f \<times> ptr) list \<Rightarrow> 'u \<Rightarrow> 'u" where
  "apply_calls cbu l u = foldl (\<lambda>u (f, x). cbu f x u) u l"

lemma apply_calls_simps [simp]:
  "apply_calls cbu [] u = u" "apply_calls cbu (l @ [(f, x)]) u = cbu f x (apply_calls cbu l u)"
  by (simp_all add: apply_calls_def)

definition tsys_at ::
  "('k + 'k \<Rightarrow> ptr \<Rightarrow> 'u \<Rightarrow> 'u) \<Rightarrow> 'u \<Rightarrow> (addr \<rightharpoonup> 'k cb_sig) \<Rightarrow> int \<Rightarrow> addr \<Rightarrow> ('u, 'k + 'k, 'z) cancel_sys_scheme \<Rightarrow>
   'k atok \<Rightarrow> UfsrvCancellationToken \<Rightarrow> bool" where
  "tsys_at cbu u0 M0 R t s A k \<longleftrightarrow>
     tokens s t = Some k \<and> \<not> tok_lock k \<and> tok_is_cancelled k = (at_win A \<noteq> None) \<and> tok_refcount k = R + int (card (at_held A)) \<and>
     sigs s = cview t M0 (at_node A) \<and> (\<forall>n. at_node A n \<noteq> None \<longrightarrow> M0 n = None) \<and> (\<forall>n\<ge>next_addr s. callbacks s n = None) \<and>
     dlist (cb_nxt s) (cb_prv s) NULL (tok_hd s t) (at_list A) \<and> chain (cb_nxt s) (hdp (at_todo A)) (at_todo A) \<and>
     (\<forall>n. at_node A n \<noteq> None \<longrightarrow> n \<notin> set (at_list A) \<longrightarrow> cb_prv s n = NULL) \<and> user s = apply_calls cbu (at_log A) u0"

lemma tsys_atD:
  assumes "tsys_at cbu u0 M0 R t s A k"
  shows "tokens s t = Some k" "\<not> tok_lock k" "tok_is_cancelled k = (at_win A \<noteq> None)" "tok_refcount k = R + int (card (at_held A))"
    "sigs s = cview t M0 (at_node A)" "at_node A n \<noteq> None \<Longrightarrow> M0 n = None" "n \<ge> next_addr s \<Longrightarrow> callbacks s n = None"
    "dlist (cb_nxt s) (cb_prv s) NULL (tok_hd s t) (at_list A)" "chain (cb_nxt s) (hdp (at_todo A)) (at_todo A)"
    "at_node A n \<noteq> None \<Longrightarrow> n \<notin> set (at_list A) \<Longrightarrow> cb_prv s n = NULL" "user s = apply_calls cbu (at_log A) u0"
  using assms by (simp_all add: tsys_at_def)

definition tok_rel ::
  "('k + 'k \<Rightarrow> ptr \<Rightarrow> 'u \<Rightarrow> 'u) \<Rightarrow> 'u \<Rightarrow> (addr \<rightharpoonup> 'k cb_sig) \<Rightarrow> int \<Rightarrow> addr \<Rightarrow> ('u, 'k, 'z) tok_conf \<Rightarrow> 'k atok \<Rightarrow> bool" where
  "tok_rel cbu u0 M0 R t C A \<longleftrightarrow> at_thr A = fc_thr C \<and> (\<exists>k. tsys_at cbu u0 M0 R t (fc_sys C) A k)"

definition tok_sim ::
  "('k + 'k \<Rightarrow> ptr \<Rightarrow> 'u \<Rightarrow> 'u) \<Rightarrow> 'u \<Rightarrow> (addr \<rightharpoonup> 'k cb_sig) \<Rightarrow> int \<Rightarrow> addr \<Rightarrow> fault + ('u, 'k, 'z) tok_conf \<Rightarrow> 'k atok \<Rightarrow> bool" where
  "tok_sim cbu u0 M0 R t res A \<longleftrightarrow> (\<exists>C' A'. res = Inr C' \<and> (t_step A A' \<or> A' = A) \<and> tok_rel cbu u0 M0 R t C' A')"

lemma tok_simI:
  assumes "at_thr A = fc_thr C" and "m (fc_sys C) = Inr (pc, s)" and "tsys_at cbu u0 M0 R t s A' k" and "at_thr A' = at_thr A" and "t_step A (tgo i pc A')"
  shows "tok_sim cbu u0 M0 R t (advance i m C) A"
proof -
  have "tok_rel cbu u0 M0 R t \<lparr>fc_sys = s, fc_thr = (fc_thr C)(i := pc)\<rparr> (tgo i pc A')"
    unfolding tok_rel_def by (intro conjI exI [of _ k]) (use assms(1,3,4) in \<open>simp_all add: tsys_at_def\<close>)
  with assms(2,5) show ?thesis unfolding tok_sim_def advance_def by (auto split: sum.splits)
qed

lemma tok_nextI:
  assumes "at_thr A = fc_thr C" and pc: "fc_thr C i = pc0" and "tpc_step call t i pc0 (fc_sys C) = Inr (pc, s)"
    and "tsys_at cbu u0 M0 R t s A' k" and "at_thr A' = at_thr A" and "t_step A (tgo i pc A')"
  shows "tok_sim cbu u0 M0 R t (tok_perform call t (A_next i) C) A"
  using tok_simI [of A C "tpc_step call t i pc0", OF assms(1,3,4,5,6)] by (simp add: pc)

text \<open>A node of the machine is a node of the heap.\<close>

lemma heap_node:
  assumes S: "tsys_at cbu u0 M0 R t s A k" and n: "at_node A n = Some (i, f, rc, a)"
  obtains c where "callbacks s n = Some c" "cb_token c = t" "cb_fn c = Inl f" "cb_context c = Some i" "cb_release_context c = Some (Inr f)"
    "cb_refcount c = rc" "cb_active c = a" "n < next_addr s"
proof -
  from fun_cong [OF tsys_atD(5) [OF S], of n] n obtain c where c: "callbacks s n = Some c" "csig c = nsig t (i, f, rc, a)"
    by (auto simp: sigs_def cview_def)
  moreover have "n < next_addr s" using c(1) tsys_atD(7) [OF S, of n] by (cases "n < next_addr s") auto
  ultimately show thesis by (intro that [of c]) (auto simp: csig_def nsig_def)
qed

lemma node_fresh:
  assumes S: "tsys_at cbu u0 M0 R t s A k"
  shows "at_node A (next_addr s) = None" "M0 (next_addr s) = None" "callbacks s (next_addr s) = None"
proof -
  show *: "callbacks s (next_addr s) = None" by (rule tsys_atD(7) [OF S]) simp
  from fun_cong [OF tsys_atD(5) [OF S], of "next_addr s"] * show "at_node A (next_addr s) = None" "M0 (next_addr s) = None"
    by (simp_all add: sigs_def cview_def split: option.splits)
qed

lemma sigs_upd:
  "sigs (s\<lparr>callbacks := (callbacks s)(n \<mapsto> c)\<rparr>) = (sigs s)(n \<mapsto> csig c)" "sigs (s\<lparr>callbacks := (callbacks s)(n := None)\<rparr>) = (sigs s)(n := None)"
  "sigs (s\<lparr>tokens := T\<rparr>) = sigs s" "sigs (s\<lparr>user := u\<rparr>) = sigs s" "sigs (s\<lparr>next_addr := m\<rparr>) = sigs s"
  by (auto simp: sigs_def fun_eq_iff)

lemma cview_upd: "cview t M0 (N(n \<mapsto> x)) = (cview t M0 N)(n \<mapsto> nsig t x)" "M0 n = None \<Longrightarrow> cview t M0 (N(n := None)) = (cview t M0 N)(n := None)"
  by (auto simp: cview_def fun_eq_iff)

lemma csig_upd [simp]:
  "csig (c\<lparr>cb_prev := p\<rparr>) = csig c" "csig (c\<lparr>cb_next := p\<rparr>) = csig c" "csig (c\<lparr>cb_claimed := b\<rparr>) = csig c"
  by (simp_all add: csig_def)

lemma sigs_infos: "sigs s n = map_option csig (infos s n)"
  by (simp add: sigs_def infos_def option.map_comp comp_def)

section \<open>Effects on the heap\<close>

text \<open>Changing a node without moving it, when the pointers in use stay.\<close>

lemma tsys_node:
  assumes S: "tsys_at cbu u0 M0 R t s A k" and c: "callbacks s n = Some c" and x: "at_node A n = Some x" and c': "csig c' = nsig t x'"
    and ptrs: "cb_prev c' = cb_prev c" "cb_next c' = cb_next c \<or> n \<notin> set (at_list A) \<union> set (at_todo A)"
  shows "tsys_at cbu u0 M0 R t (s\<lparr>callbacks := (callbacks s)(n \<mapsto> c')\<rparr>) (A\<lparr>at_node := (at_node A)(n \<mapsto> x')\<rparr>) k"
proof -
  let ?s = "s\<lparr>callbacks := (callbacks s)(n \<mapsto> c')\<rparr>"
  have pv: "cb_prv ?s = cb_prv s" using c ptrs(1) by (auto simp: cb_prv_def fun_eq_iff)
  have nx: "cb_nxt ?s = (if n \<in> set (at_list A) \<union> set (at_todo A) then cb_nxt s else (cb_nxt s)(n := cb_next c'))"
    using c ptrs(2) by (auto simp: cb_nxt_def fun_eq_iff)
  have bound: "callbacks ?s m = None" if "m \<ge> next_addr s" for m using c tsys_atD(7) [OF S, of m] that by auto
  have "M0 n = None" "n \<notin> set (at_list A) \<Longrightarrow> cb_prv s n = NULL" using tsys_atD(6,10) [OF S, of n] x by simp_all
  with S bound show ?thesis unfolding tsys_at_def pv by (simp add: sigs_upd cview_upd c') (simp add: nx)
qed

lemma tsys_free:
  assumes S: "tsys_at cbu u0 M0 R t s A k" and n: "at_node A n = Some x" "n \<notin> set (at_list A) \<union> set (at_todo A)"
  shows "tsys_at cbu u0 M0 R t (s\<lparr>callbacks := (callbacks s)(n := None)\<rparr>) (A\<lparr>at_node := (at_node A)(n := None)\<rparr>) k"
proof -
  let ?s = "s\<lparr>callbacks := (callbacks s)(n := None)\<rparr>"
  have ptrs: "cb_prv ?s = (cb_prv s)(n := NULL)" "cb_nxt ?s = (cb_nxt s)(n := NULL)" by (auto simp: cb_prv_def cb_nxt_def fun_eq_iff)
  have "M0 n = None" using tsys_atD(6) [OF S, of n] n by simp
  then show ?thesis using S n by (auto simp: tsys_at_def sigs_upd cview_upd ptrs)
qed

lemma tsys_alloc:
  assumes S: "tsys_at cbu u0 M0 R t s A k" and inv: "tok_inv A" and c: "csig c = nsig t x" "cb_prev c = NULL" "cb_next c = NULL"
  shows "tsys_at cbu u0 M0 R t (s\<lparr>next_addr := Suc (next_addr s), callbacks := (callbacks s)(next_addr s \<mapsto> c)\<rparr>) (A\<lparr>at_node := (at_node A)(next_addr s \<mapsto> x)\<rparr>) k"
proof -
  let ?n = "next_addr s" let ?s = "s\<lparr>next_addr := Suc ?n, callbacks := (callbacks s)(?n \<mapsto> c)\<rparr>"
  have ptrs: "cb_prv ?s = (cb_prv s)(?n := NULL)" "cb_nxt ?s = (cb_nxt s)(?n := NULL)" using c by (auto simp: cb_prv_def cb_nxt_def fun_eq_iff)
  have sg: "sigs ?s = (sigs s)(?n \<mapsto> nsig t x)" using c by (auto simp: sigs_def fun_eq_iff)
  note F = node_fresh [OF S]
  have "?n \<notin> set (at_list A) \<union> pend A" using t_linked [OF inv, of ?n] F by auto
  then have "?n \<notin> set (at_list A)" "?n \<notin> set (at_todo A)" by (simp_all add: pend_def)
  with S F(2) show ?thesis by (auto simp: tsys_at_def sg cview_upd ptrs)
qed

lemma tsys_call: "tsys_at cbu u0 M0 R t s A k \<Longrightarrow> tsys_at cbu u0 M0 R t (s\<lparr>user := cbu f x (user s)\<rparr>) (A\<lparr>at_log := at_log A @ [(f, x)]\<rparr>) k"
  by (simp add: tsys_at_def sigs_upd)

lemma tsys_refs:
  assumes "tsys_at cbu u0 M0 R t s A k" and "int (card H) = int (card (at_held A)) + d"
  shows "tsys_at cbu u0 M0 R t (s\<lparr>tokens := (tokens s)(t \<mapsto> k\<lparr>tok_refcount := tok_refcount k + d\<rparr>)\<rparr>) (A\<lparr>at_held := H\<rparr>) (k\<lparr>tok_refcount := tok_refcount k + d\<rparr>)"
proof -
  have "tok_hd s t = tok_head k" using tsys_atD(1) [OF assms(1)] by (simp add: tok_hd_def)
  with assms show ?thesis by (simp add: tsys_at_def sigs_upd) (simp add: tok_hd_def)
qed

text \<open>The nodes of the list are allocated.\<close>

lemma list_live: "tsys_at cbu u0 M0 R t s A k \<Longrightarrow> tok_inv A \<Longrightarrow> n \<in> set (at_list A) \<union> pend A \<Longrightarrow> cb_live s n"
proof -
  assume S: "tsys_at cbu u0 M0 R t s A k" and "tok_inv A" "n \<in> set (at_list A) \<union> pend A"
  then obtain i f rc a where "at_node A n = Some (i, f, rc, a)" using t_linked [of A n] by auto
  then show "cb_live s n" using heap_node [OF S] by (metis cb_live_def option.distinct(1))
qed

lemma list_is_list:
  assumes S: "tsys_at cbu u0 M0 R t s A k" and inv: "tok_inv A"
    and s1: "cb_nxt s1 = cb_nxt s" "cb_prv s1 = cb_prv s" "tok_hd s1 = tok_hd s" "tokens s1 t \<noteq> None" "\<And>m. callbacks s m \<noteq> None \<Longrightarrow> callbacks s1 m \<noteq> None"
  shows "tl.is_list s1 t (at_list A)"
  unfolding tl.is_list_def s1(1-3)
  using tsys_atD(8) [OF S] t_distinct [OF inv] s1(4,5) list_live [OF S inv] by (auto simp: token_live_def cb_live_def)

lemma reg_enter_links:
  assumes S: "tsys_at cbu u0 M0 R t s A k" and inv: "tok_inv A" and n: "at_node A n = Some (i, f, 2, False)" "n \<notin> set (at_list A)"
    and open': "at_win A = None" "at_todo A = []"
  shows "\<exists>s' k'. reg_enter t n s = Inr (False, s') \<and> tsys_at cbu u0 M0 R t s' (A\<lparr>at_node := (at_node A)(n \<mapsto> (i, f, 2, True)), at_list := n # at_list A\<rparr>) k'"
proof -
  note D = tsys_atD [OF S]
  from heap_node [OF S n(1)] obtain c where c: "callbacks s n = Some c" "n < next_addr s" by metis
  let ?k = "k\<lparr>tok_lock := True\<rparr>"
  define s1 where "s1 = s\<lparr>tokens := (tokens s)(t \<mapsto> ?k)\<rparr>"
  have ptrs: "cb_nxt s1 = cb_nxt s" "cb_prv s1 = cb_prv s" "tok_hd s1 = tok_hd s"
    using D(1) by (auto simp: s1_def tok_hd_def fun_eq_iff)
  have lst: "tl.is_list s1 t (at_list A)" by (rule list_is_list [OF S inv ptrs]) (simp_all add: s1_def)
  have tok1: "tokens s1 t = Some ?k" and cb1: "callbacks s1 n = Some c" using c by (simp_all add: s1_def)
  have link: "cb_linkable s1 n" using D(10) [of n] n c by (simp add: cb_linkable_def s1_def cb_prv_def)
  have hd1: "pred_option (cb_live s1) (tok_head ?k)" "tok_head ?k \<noteq> Some n"
    using tl.hd_live [OF lst] lst n(2) tok1 by (auto simp: tok_hd_def tl.is_list_def; cases "at_list A"; auto)+
  obtain T M where lk: "cb_list_link t n s1 = Inr ((), s1\<lparr>tokens := T, callbacks := M\<rparr>)"
    and ti: "tinfos (s1\<lparr>tokens := T, callbacks := M\<rparr>) = tinfos s1" and ii: "infos (s1\<lparr>tokens := T, callbacks := M\<rparr>) = infos s1"
    by (rule link_keeps [OF tok1 cb1 hd1])
  define s2 where "s2 = s1\<lparr>tokens := T, callbacks := M\<rparr>"
  have s2: "exec (cb_list_link t n) s1 = s2" using lk by (simp add: s2_def)
  have sg: "sigs s2 = sigs s" unfolding sigs_infos [abs_def] s2_def ii by (simp add: s1_def)
  from fun_cong [OF sg, of n] c obtain c2 where c2: "M n = Some c2" "csig c2 = csig c" by (auto simp: s2_def sigs_def)
  from fun_cong [OF ti, of t] obtain k2 where k2: "T t = Some k2" "k2\<lparr>tok_head := NULL\<rparr> = ?k\<lparr>tok_head := NULL\<rparr>"
    by (auto simp: s1_def tinfos_def)
  have k2': "tok_lock k2" "tok_is_cancelled k2 = tok_is_cancelled k" "tok_refcount k2 = tok_refcount k"
    using arg_cong [OF k2(2), of tok_lock] arg_cong [OF k2(2), of tok_is_cancelled] arg_cong [OF k2(2), of tok_refcount] by simp_all
  define s' where "s' = s2\<lparr>callbacks := M(n \<mapsto> c2\<lparr>cb_active := True\<rparr>), tokens := T(t \<mapsto> k2\<lparr>tok_lock := False\<rparr>)\<rparr>"
  have run: "reg_enter t n s = Inr (False, s')"
    using D(1-3) open'(1) lk c2(1) k2(1) by (simp add: reg_enter_def token_mutex_lock_def token_mutex_unlock_def s1_def s2_def s'_def bindm_assoc)
  have ptrs': "cb_nxt s' = cb_nxt s2" "cb_prv s' = cb_prv s2" "tok_hd s' = tok_hd s2"
    using c2(1) k2(1) by (auto simp: s'_def s2_def cb_nxt_def cb_prv_def tok_hd_def fun_eq_iff)
  have dl: "dlist (cb_nxt s') (cb_prv s') NULL (tok_hd s' t) (n # at_list A)"
    using tl.link_dlist [OF lst link n(2)] unfolding ptrs' s2 .
  have pv: "cb_prv s' m = cb_prv s m" if "m \<notin> set (n # at_list A)" for m
  proof -
    have "tok_hd s1 t \<noteq> Some m" "token_live s1 t" "tok_hd s1 t \<noteq> Some n"
      using lst that n(2) by (cases "at_list A"; auto simp: tl.is_list_def)+
    then show ?thesis
      using tl.link_prev [OF _ link _ tl.hd_live [OF lst], unfolded s2] that by (cases "tok_hd s1 t") (simp_all add: ptrs' ptrs)
  qed
  have sg': "sigs s' = (sigs s)(n \<mapsto> nsig t (i, f, 2, True))"
  proof -
    have "csig c = nsig t (i, f, 2, False)" using fun_cong [OF D(5), of n] c n by (simp add: sigs_def cview_def)
    then have "csig (c2\<lparr>cb_active := True\<rparr>) = nsig t (i, f, 2, True)" using c2(2) by (simp add: csig_def nsig_def)
    moreover have "sigs s' = (sigs s2)(n \<mapsto> csig (c2\<lparr>cb_active := True\<rparr>))" by (auto simp: s'_def s2_def sigs_def fun_eq_iff)
    ultimately show ?thesis by (simp add: sg)
  qed
  have bound: "callbacks s' m = None" if "m \<ge> next_addr s" for m
    using fun_cong [OF sg, of m] D(7) [OF that] that c(2) by (auto simp: s'_def s2_def sigs_def)
  have "tsys_at cbu u0 M0 R t s' (A\<lparr>at_node := (at_node A)(n \<mapsto> (i, f, 2, True)), at_list := n # at_list A\<rparr>) (k2\<lparr>tok_lock := False\<rparr>)"
    using S dl pv bound k2' n open' D(6) [of n] by (simp add: tsys_at_def sg' cview_upd) (simp add: s'_def s2_def s1_def)
  with run show ?thesis by blast
qed

lemma unreg_enter_unlinks:
  assumes S: "tsys_at cbu u0 M0 R t s A k" and inv: "tok_inv A" and n: "at_node A n = Some (i, f, 2, True)" "n \<in> set (at_list A)" and todo: "at_todo A = []"
  shows "\<exists>s' k'. unreg_enter n s = Inr ((True, True), s') \<and>
    tsys_at cbu u0 M0 R t s' (A\<lparr>at_node := (at_node A)(n \<mapsto> (i, f, 0, False)), at_list := remove1 n (at_list A)\<rparr>) k'"
proof -
  note D = tsys_atD [OF S]
  from heap_node [OF S n(1)] obtain c where c: "callbacks s n = Some c" "cb_token c = t" "cb_active c" "cb_refcount c = 2" "n < next_addr s" by metis
  have di: "distinct (at_list A)" using t_distinct [OF inv] by simp
  from n(2) obtain ys zs where split: "at_list A = ys @ n # zs" by (meson split_list)
  then have rm: "remove1 n (at_list A) = ys @ zs" using di by (simp add: remove1_append)
  let ?c = "c\<lparr>cb_active := False, cb_claimed := True\<rparr>"
  define s1 where "s1 = s\<lparr>tokens := (tokens s)(t \<mapsto> k\<lparr>tok_lock := True\<rparr>), callbacks := (callbacks s)(n \<mapsto> ?c)\<rparr>"
  have ptrs: "cb_nxt s1 = cb_nxt s" "cb_prv s1 = cb_prv s" "tok_hd s1 = tok_hd s"
    using D(1) c(1) by (auto simp: s1_def cb_nxt_def cb_prv_def tok_hd_def fun_eq_iff)
  have lst: "tl.is_list s1 t (ys @ n # zs)" unfolding split [symmetric]
    by (rule list_is_list [OF S inv ptrs]) (auto simp: s1_def)
  obtain T M where un: "cb_list_unlink t n s1 = Inr ((), s1\<lparr>tokens := T, callbacks := M\<rparr>)"
    and ti: "tinfos (s1\<lparr>tokens := T, callbacks := M\<rparr>) = tinfos s1" and ii: "infos (s1\<lparr>tokens := T, callbacks := M\<rparr>) = infos s1"
    by (rule unlink_keeps [OF lst])
  define s2 where "s2 = s1\<lparr>tokens := T, callbacks := M\<rparr>"
  have s2: "exec (cb_list_unlink t n) s1 = s2" using un by (simp add: s2_def)
  have sg: "sigs s2 = sigs s1" unfolding sigs_infos [abs_def] s2_def ii ..
  from fun_cong [OF sg, of n] obtain c2 where c2: "M n = Some c2" "csig c2 = csig ?c" by (auto simp: s2_def s1_def sigs_def)
  have c2': "cb_token c2 = t" "cb_refcount c2 = 2" using c2(2) c by (simp_all add: csig_def)
  from fun_cong [OF ti, of t] obtain k2 where k2: "T t = Some k2" "k2\<lparr>tok_head := NULL\<rparr> = k\<lparr>tok_lock := True, tok_head := NULL\<rparr>"
    by (auto simp: s1_def tinfos_def)
  have k2': "tok_is_cancelled k2 = tok_is_cancelled k" "tok_refcount k2 = tok_refcount k"
    using arg_cong [OF k2(2), of tok_is_cancelled] arg_cong [OF k2(2), of tok_refcount] by simp_all
  define s' where "s' = s2\<lparr>callbacks := M(n \<mapsto> c2\<lparr>cb_refcount := 0\<rparr>), tokens := T(t \<mapsto> k2\<lparr>tok_lock := False\<rparr>)\<rparr>"
  have run: "unreg_enter n s = Inr ((True, True), s')"
    using D(1-2) c un c2(1) c2' k2(1) by (simp add: unreg_enter_def token_mutex_lock_def token_mutex_unlock_def s1_def s2_def s'_def bindm_assoc)
  have ptrs': "cb_nxt s' = cb_nxt s2" "cb_prv s' = cb_prv s2" "tok_hd s' = tok_hd s2"
    using c2(1) k2(1) by (auto simp: s'_def s2_def cb_nxt_def cb_prv_def tok_hd_def fun_eq_iff)
  note U = tl.unlink_dlist [OF lst, unfolded s2, folded ptrs']
  have pv: "cb_prv s' m = NULL" if "at_node A m \<noteq> None" "m \<notin> set (ys @ zs)" for m
  proof (cases "m = n")
    case False
    note nb = tl.neighbours [OF lst]
    have "cb_nxt s1 n \<noteq> Some m" using nb(2) that(2) hd_in_set [of zs] by auto
    then show ?thesis
      using tl.unlink_prev [OF nb(7,6,5,3,4), unfolded s2] False that D(10) [of m] split by (cases "cb_nxt s1 n") (simp_all add: ptrs' ptrs)
  qed (simp add: U(3))
  have sg': "sigs s' = (sigs s)(n \<mapsto> nsig t (i, f, 0, False))"
  proof -
    have "csig c = nsig t (i, f, 2, True)" using fun_cong [OF D(5), of n] c n by (simp add: sigs_def cview_def)
    then have "csig (c2\<lparr>cb_refcount := 0\<rparr>) = nsig t (i, f, 0, False)" using c2(2) by (simp add: csig_def nsig_def)
    moreover have "sigs s' = (sigs s2)(n \<mapsto> csig (c2\<lparr>cb_refcount := 0\<rparr>))" by (auto simp: s'_def s2_def sigs_def fun_eq_iff)
    moreover have "sigs s1 = (sigs s)(n \<mapsto> csig ?c)" by (auto simp: s1_def sigs_def fun_eq_iff)
    ultimately show ?thesis by (simp add: sg)
  qed
  have bound: "callbacks s' m = None" if "m \<ge> next_addr s" for m
    using fun_cong [OF sg, of m] D(7) [OF that] that c(5) by (auto simp: s'_def s2_def s1_def sigs_def)
  have "tsys_at cbu u0 M0 R t s' (A\<lparr>at_node := (at_node A)(n \<mapsto> (i, f, 0, False)), at_list := ys @ zs\<rparr>) (k2\<lparr>tok_lock := False\<rparr>)"
    using S U(1,3) pv bound k2' n todo D(6) [of n] by (simp add: tsys_at_def sg' cview_upd) (simp add: s'_def s2_def s1_def)
  with run rm show ?thesis by metis
qed

text \<open>The walk over the list is bounded by the addresses handed out.\<close>

lemma list_bound:
  assumes S: "tsys_at cbu u0 M0 R t s A k" and inv: "tok_inv A"
  shows "length (at_list A) \<le> next_addr s"
proof -
  have "m < next_addr s" if "m \<in> set (at_list A)" for m
    using list_live [OF S inv, of m] tsys_atD(7) [OF S, of m] that by (cases "m < next_addr s") (auto simp: cb_live_def)
  then have "card (set (at_list A)) \<le> card {..<next_addr s}" by (intro card_mono) auto
  then show ?thesis using t_distinct [OF inv] by (simp add: distinct_card)
qed

lemma cancel_enter_detaches:
  assumes S: "tsys_at cbu u0 M0 R t s A k" and inv: "tok_inv A" and open': "at_win A = None"
  shows "\<exists>s' k'. cancel_enter (next_addr s) t s = Inr (Some (hdp (at_list A)), s') \<and>
    tsys_at cbu u0 M0 R t s' (A\<lparr>at_win := Some i, at_node := deact (at_list A) (at_node A), at_todo := at_list A, at_list := []\<rparr>) k'"
proof -
  note D = tsys_atD [OF S]
  let ?L = "at_list A" let ?k = "k\<lparr>tok_is_cancelled := True, tok_head := NULL\<rparr>"
  have hd: "tok_head k = hdp ?L" using D(1,8) by (cases ?L) (simp_all add: tok_hd_def)
  have ch: "chain (cb_nxt s) (hdp ?L) ?L" using dlist_chain [OF D(8)] hd D(1) by (simp add: tok_hd_def)
  define s1 where "s1 = s\<lparr>tokens := (tokens s)(t \<mapsto> k\<lparr>tok_lock := True, tok_is_cancelled := True, tok_head := NULL\<rparr>)\<rparr>"
  define s' where "s' = s\<lparr>tokens := (tokens s)(t \<mapsto> ?k), callbacks := on_nodes (set ?L) detached (callbacks s)\<rparr>"
  have di: "distinct ?L" using t_distinct [OF inv] by simp
  have det: "cancel_detach_loop (next_addr s) (hdp ?L) s1 = Inr ((), s1\<lparr>callbacks := on_nodes (set ?L) detached (callbacks s)\<rparr>)"
    using detach_loop_effect [of s1 "hdp ?L" ?L "next_addr s"] ch di list_bound [OF S inv] list_live [OF S inv] by (simp add: s1_def cb_live_def)
  have kk: "k\<lparr>tok_is_cancelled := True, tok_head := NULL, tok_lock := False\<rparr> = ?k" using D(2) by (cases k) simp
  have run: "cancel_enter (next_addr s) t s = Inr (Some (hdp ?L), s')"
    using D(1-3) open' det by (simp add: cancel_enter_def token_mutex_lock_def token_mutex_unlock_def s1_def s'_def hd kk)
  have ptrs: "cb_nxt s' = cb_nxt s" "cb_prv s' = (\<lambda>m. if m \<in> set ?L then NULL else cb_prv s m)"
    by (auto simp: s'_def cb_nxt_def cb_prv_def on_nodes_def detached_def fun_eq_iff split: option.split)
  have sg: "sigs s' = cview t M0 (deact ?L (at_node A))"
  proof
    fix m
    show "sigs s' m = cview t M0 (deact ?L (at_node A)) m"
    proof (cases "m \<in> set ?L")
      case True
      then obtain j f rc a where m: "at_node A m = Some (j, f, rc, a)" using t_linked [OF inv, of m] by auto
      from heap_node [OF S m] obtain c where "callbacks s m = Some c" "cb_token c = t" "cb_fn c = Inl f" "cb_context c = Some j"
        "cb_release_context c = Some (Inr f)" "cb_refcount c = rc" by metis
      with True m show ?thesis by (simp add: s'_def sigs_def on_nodes_def detached_def csig_def cview_def deact_def nsig_def)
    next
      case False
      then show ?thesis using fun_cong [OF D(5), of m] by (simp add: s'_def sigs_def on_nodes_def cview_def deact_def)
    qed
  qed
  have none: "at_node A m \<noteq> None" if "deact ?L (at_node A) m \<noteq> None" for m using that by (auto simp: deact_def split: if_splits)
  have "tsys_at cbu u0 M0 R t s' (A\<lparr>at_win := Some i, at_node := deact ?L (at_node A), at_todo := ?L, at_list := []\<rparr>) ?k"
    using S ch none unfolding tsys_at_def by (simp add: sg ptrs) (auto simp: s'_def on_nodes_def tok_hd_def)
  with run show ?thesis by blast
qed

lemma tok_release_drops:
  assumes S: "tsys_at cbu u0 M0 R t s A k" and R: "1 \<le> R" and i: "i \<in> at_held A" "finite (at_held A)"
  shows "\<exists>s' k'. sTokenRelease call fuel t s = Inr ((), s') \<and> tsys_at cbu u0 M0 R t s' (A\<lparr>at_held := at_held A - {i}\<rparr>) k'"
proof -
  note D = tsys_atD [OF S]
  have pos: "0 < card (at_held A)" using i by (auto simp: card_gt_0_iff)
  then have card: "int (card (at_held A - {i})) = int (card (at_held A)) + - 1" using i by (simp add: card_Diff_singleton of_nat_diff Suc_leI)
  from pos have "tok_refcount k \<noteq> 1" using D(4) R by simp
  then have "sTokenRelease call fuel t s = Inr ((), s\<lparr>tokens := (tokens s)(t \<mapsto> k\<lparr>tok_refcount := tok_refcount k + - 1\<rparr>)\<rparr>)"
    using sTokenRelease_effect [OF D(1,2)] by (simp add: drop_token_ref_def)
  with tsys_refs [OF S card] show ?thesis by blast
qed

lemma node_take_frees:
  assumes S: "tsys_at cbu u0 M0 R t s A k" and n: "at_node A n = Some (i, f, rc, a)" "n \<notin> set (at_list A) \<union> set (at_todo A)"
  shows "\<exists>c s'. node_take n s = Inr (c, s') \<and> cb_context c = Some i \<and> cb_release_context c = Some (Inr f) \<and>
    tsys_at cbu u0 M0 R t s' (A\<lparr>at_node := (at_node A)(n := None)\<rparr>) k"
proof -
  from heap_node [OF S n(1)] obtain c where "callbacks s n = Some c" "cb_context c = Some i" "cb_release_context c = Some (Inr f)" by metis
  with tsys_free [OF S n] show ?thesis by (simp add: node_take_def)
qed

text \<open>A critical section that only changes one node leaves the token as it was.\<close>

lemma token_relock: "tokens s t = Some k \<Longrightarrow> s\<lparr>callbacks := M, tokens := (tokens s)(t \<mapsto> k)\<rparr> = s\<lparr>callbacks := M\<rparr>"
  by (simp add: map_upd_triv)

lemma cancel_drop_drops:
  assumes S: "tsys_at cbu u0 M0 R t s A k" and n: "at_node A n = Some (j, f, rc, a)" "n \<notin> set (at_list A) \<union> set (at_todo A)"
  shows "\<exists>s'. cancel_drop n s = Inr (rc = 1, s') \<and> tsys_at cbu u0 M0 R t s' (A\<lparr>at_node := (at_node A)(n \<mapsto> (j, f, rc - 1, a))\<rparr>) k"
proof -
  from heap_node [OF S n(1)] obtain c where c: "callbacks s n = Some c" "cb_token c = t" "cb_fn c = Inl f" "cb_context c = Some j"
    "cb_release_context c = Some (Inr f)" "cb_refcount c = rc" "cb_active c = a" by metis
  have "cancel_drop n s = Inr (rc = 1, s\<lparr>callbacks := (callbacks s)(n \<mapsto> c\<lparr>cb_next := NULL, cb_refcount := rc - 1\<rparr>)\<rparr>)"
    using c tsys_atD(1,2) [OF S] by (simp add: cancel_drop_def token_mutex_lock_def token_mutex_unlock_def token_relock)
  moreover have "csig (c\<lparr>cb_next := NULL, cb_refcount := rc - 1\<rparr>) = nsig t (j, f, rc - 1, a)" using c by (simp add: csig_def nsig_def)
  ultimately show ?thesis using tsys_node [OF S c(1) n(1), of "c\<lparr>cb_next := NULL, cb_refcount := rc - 1\<rparr>"] n(2) by auto
qed

lemma unreg_enter_drops:
  assumes S: "tsys_at cbu u0 M0 R t s A k" and n: "at_node A n = Some (i, f, rc, False)"
  shows "\<exists>s'. unreg_enter n s = Inr ((False, rc = 1), s') \<and> tsys_at cbu u0 M0 R t s' (A\<lparr>at_node := (at_node A)(n \<mapsto> (i, f, rc - 1, False))\<rparr>) k"
proof -
  from heap_node [OF S n] obtain c where c: "callbacks s n = Some c" "cb_token c = t" "cb_fn c = Inl f" "cb_context c = Some i"
    "cb_release_context c = Some (Inr f)" "cb_refcount c = rc" "cb_active c = False" by metis
  have "unreg_enter n s = Inr ((False, rc = 1), s\<lparr>callbacks := (callbacks s)(n \<mapsto> c\<lparr>cb_refcount := rc - 1\<rparr>)\<rparr>)"
    using c tsys_atD(1,2) [OF S] by (simp add: unreg_enter_def token_mutex_lock_def token_mutex_unlock_def token_relock)
  moreover have "csig (c\<lparr>cb_refcount := rc - 1\<rparr>) = nsig t (i, f, rc - 1, False)" using c by (simp add: csig_def nsig_def)
  ultimately show ?thesis using tsys_node [OF S c(1) n, of "c\<lparr>cb_refcount := rc - 1\<rparr>"] by auto
qed

lemma reg_enter_late:
  assumes S: "tsys_at cbu u0 M0 R t s A k" and n: "at_node A n = Some (i, f, rc, False)" and won: "at_win A \<noteq> None"
  shows "\<exists>s'. reg_enter t n s = Inr (True, s') \<and> tsys_at cbu u0 M0 R t s' (A\<lparr>at_node := (at_node A)(n \<mapsto> (i, f, 1, False))\<rparr>) k"
proof -
  from heap_node [OF S n] obtain c where c: "callbacks s n = Some c" "cb_token c = t" "cb_fn c = Inl f" "cb_context c = Some i"
    "cb_release_context c = Some (Inr f)" "cb_active c = False" by metis
  have "reg_enter t n s = Inr (True, s\<lparr>callbacks := (callbacks s)(n \<mapsto> c\<lparr>cb_claimed := True, cb_refcount := 1\<rparr>)\<rparr>)"
    using c tsys_atD(1-3) [OF S] won by (simp add: reg_enter_def token_mutex_lock_def token_mutex_unlock_def token_relock)
  moreover have "csig (c\<lparr>cb_claimed := True, cb_refcount := 1\<rparr>) = nsig t (i, f, 1, False)" using c by (simp add: csig_def nsig_def)
  ultimately show ?thesis using tsys_node [OF S c(1) n, of "c\<lparr>cb_claimed := True, cb_refcount := 1\<rparr>"] by auto
qed

lemma cancel_again_returns:
  assumes S: "tsys_at cbu u0 M0 R t s A k" and won: "at_win A \<noteq> None"
  shows "cancel_enter fuel t s = Inr (None, s)"
proof -
  note D = tsys_atD [OF S]
  have "k\<lparr>tok_lock := True, tok_is_cancelled := True, tok_lock := False\<rparr> = k" using D(2,3) won by (cases k) simp
  then show ?thesis using D(1-3) won by (simp add: cancel_enter_def token_mutex_lock_def token_mutex_unlock_def map_upd_triv)
qed

section \<open>Simulation of the clients\<close>

lemma tok_stay: "tok_rel cbu u0 M0 R t C A \<Longrightarrow> tok_sim cbu u0 M0 R t (Inr C) A"
  unfolding tok_sim_def by blast

lemma sim_registering:
  assumes S: "tsys_at cbu u0 M0 R t (fc_sys C) A k" and inv: "toks_inv A" and th: "at_thr A = fc_thr C"
    and pc: "fc_thr C i \<in> {R_alloc f, R_retain f n, R_enter f n, R_call f n}"
  shows "tok_sim cbu u0 M0 R t (tok_perform (passive_call cbu) t (A_next i) C) A"
proof -
  let ?s = "fc_sys C" let ?m = "next_addr ?s"
  from inv have ti: "tok_inv A" and tw: "t_win_inv A" by (simp_all add: toks_inv_def)
  have ok: "client_ok A i (fc_thr C i)" using client_okD [OF ti, of i] th by simp
  from pc show ?thesis
  proof (elim insertE emptyE)
    assume pc: "fc_thr C i = R_alloc f"
    let ?c = "\<lparr>cb_prev = NULL, cb_next = NULL, cb_token = t, cb_refcount = 2, cb_active = False, cb_claimed = False,
      cb_fn = Inl f, cb_context = Some i, cb_release_context = Some (Inr f)\<rparr>"
    show ?thesis
    proof (cases "sys_ok ?s ?m")
      case True
      then have run: "tpc_step (passive_call cbu) t i (R_alloc f) ?s = Inr (R_retain f ?m, ?s\<lparr>next_addr := Suc ?m, callbacks := (callbacks ?s)(?m \<mapsto> ?c)\<rparr>)"
        by (simp add: reg_alloc_def bindm_assoc)
      have "t_step A (tgo i (R_retain f ?m) (A\<lparr>at_node := (at_node A)(?m \<mapsto> (i, f, 2, False))\<rparr>))"
        by (rule t_alloc) (use pc th node_fresh [OF S] in simp_all)
      moreover have "csig ?c = nsig t (i, f, 2, False)" by (simp add: csig_def nsig_def)
      ultimately show ?thesis by - (rule tok_nextI [OF th pc run tsys_alloc [OF S ti]], simp_all)
    next
      case False
      then have run: "tpc_step (passive_call cbu) t i (R_alloc f) ?s = Inr (R_done NULL, ?s\<lparr>next_addr := Suc ?m\<rparr>)"
        by (simp add: reg_alloc_def bindm_assoc)
      have "tsys_at cbu u0 M0 R t (?s\<lparr>next_addr := Suc ?m\<rparr>) A k" using S by (simp add: tsys_at_def sigs_upd)
      then show ?thesis by (rule tok_nextI [OF th pc run _ refl t_oom]) (simp add: th pc)
    qed
  next
    assume pc: "fc_thr C i = R_retain f n"
    let ?k = "k\<lparr>tok_refcount := tok_refcount k + 1\<rparr>"
    have run: "tpc_step (passive_call cbu) t i (R_retain f n) ?s = Inr (R_enter f n, ?s\<lparr>tokens := (tokens ?s)(t \<mapsto> ?k)\<rparr>)"
      using tsys_atD(1) [OF S] by (simp add: UfsrvCancellationTokenRetainInternal_def)
    have "int (card (insert i (at_held A))) = int (card (at_held A)) + 1" using ok pc t_finite [OF ti] by simp
    from tsys_refs [OF S this] show ?thesis by (rule tok_nextI [OF th pc run _ _ t_retain]) (simp_all add: th pc)
  next
    assume pc: "fc_thr C i = R_enter f n"
    then have n: "at_node A n = Some (i, f, 2, False)" "n \<notin> set (at_list A)" using ok by simp_all
    show ?thesis
    proof (cases "at_win A")
      case None
      then have "at_todo A = []" using tw by (simp add: t_win_inv_def)
      from reg_enter_links [OF S ti n None this] obtain s' k' where run: "reg_enter t n ?s = Inr (False, s')"
        and S': "tsys_at cbu u0 M0 R t s' (A\<lparr>at_node := (at_node A)(n \<mapsto> (i, f, 2, True)), at_list := n # at_list A\<rparr>) k'" by blast
      have "tpc_step (passive_call cbu) t i (R_enter f n) ?s = Inr (R_done (Some n), s')" using run by (simp add: bindm_def)
      from this S' show ?thesis by (rule tok_nextI [OF th pc _ _ _ t_link]) (use None in \<open>simp_all add: th pc\<close>)
    next
      case (Some w)
      with reg_enter_late [OF S n(1)] obtain s' where run: "reg_enter t n ?s = Inr (True, s')"
        and S': "tsys_at cbu u0 M0 R t s' (A\<lparr>at_node := (at_node A)(n \<mapsto> (i, f, 1, False))\<rparr>) k" by auto
      show ?thesis by (rule tok_nextI [OF th pc _ S' _ t_late]) (use run Some in \<open>simp_all add: th pc\<close>)
    qed
  next
    assume pc: "fc_thr C i = R_call f n"
    show ?thesis by (rule tok_nextI [OF th pc _ tsys_call [OF S, of "Inl f" "Some i"] _ t_call]) (simp_all add: th pc)
  qed
qed

lemma sim_unregistering:
  assumes S: "tsys_at cbu u0 M0 R t (fc_sys C) A k" and inv: "toks_inv A" and R: "1 \<le> R" and th: "at_thr A = fc_thr C"
    and pc: "fc_thr C i \<in> {U_enter n, U_free n w, U_ctx r x w, U_tok w}"
  shows "tok_sim cbu u0 M0 R t (tok_perform (passive_call cbu) t (A_next i) C) A"
proof -
  let ?s = "fc_sys C"
  from inv have ti: "tok_inv A" and tw: "t_win_inv A" by (simp_all add: toks_inv_def)
  have ok: "client_ok A i (fc_thr C i)" using client_okD [OF ti, of i] th by simp
  from pc show ?thesis
  proof (elim insertE emptyE)
    assume pc: "fc_thr C i = U_enter n"
    show ?thesis
    proof (cases "n \<in> set (at_list A)")
      case True
      with ok pc obtain f where n: "at_node A n = Some (i, f, 2, True)" by auto
      have "at_todo A = []" using listed_not_pending [OF tw True] tw by (simp add: t_win_inv_def)
      from unreg_enter_unlinks [OF S ti n True this] obtain s' k' where run: "unreg_enter n ?s = Inr ((True, True), s')"
        and S': "tsys_at cbu u0 M0 R t s' (A\<lparr>at_node := (at_node A)(n \<mapsto> (i, f, 0, False)), at_list := remove1 n (at_list A)\<rparr>) k'" by blast
      show ?thesis by (rule tok_nextI [OF th pc _ S' _ t_taken]) (use run n in \<open>simp_all add: th pc\<close>)
    next
      case False
      with ok pc obtain f rc where n: "at_node A n = Some (i, f, rc, False)" "rc = 1 \<or> rc = 2" by auto
      from unreg_enter_drops [OF S n(1)] obtain s' where run: "unreg_enter n ?s = Inr ((False, rc = 1), s')"
        and S': "tsys_at cbu u0 M0 R t s' (A\<lparr>at_node := (at_node A)(n \<mapsto> (i, f, rc - 1, False))\<rparr>) k" by blast
      from n(2) show ?thesis
      proof
        assume rc: "rc = 1"
        show ?thesis by (rule tok_nextI [OF th pc _ S' [unfolded rc, simplified] _ t_last]) (use run n rc in \<open>simp_all add: th pc\<close>)
      next
        assume rc: "rc = 2"
        show ?thesis by (rule tok_nextI [OF th pc _ S' [unfolded rc, simplified] _ t_drop]) (use run n rc in \<open>simp_all add: th pc\<close>)
      qed
    qed
  next
    assume pc: "fc_thr C i = U_free n w"
    then obtain f where n: "at_node A n = Some (i, f, 0, False)" "n \<notin> set (at_list A) \<union> set (at_todo A)" using ok by (auto simp: pend_def)
    from node_take_frees [OF S n] obtain c s' where run: "node_take n ?s = Inr (c, s')" "cb_context c = Some i" "cb_release_context c = Some (Inr f)"
      and S': "tsys_at cbu u0 M0 R t s' (A\<lparr>at_node := (at_node A)(n := None)\<rparr>) k" by blast
    show ?thesis by (rule tok_nextI [OF th pc _ S' _ t_free [OF _ n(1)]]) (use run in \<open>simp_all add: th pc\<close>)
  next
    assume pc: "fc_thr C i = U_ctx r x w"
    then obtain f where f: "r = Some (Inr f)" "x = Some i" using ok by auto
    show ?thesis by (rule tok_nextI [OF th pc _ tsys_call [OF S, of "Inr f" "Some i"] _ t_hook]) (simp_all add: th pc f)
  next
    assume pc: "fc_thr C i = U_tok w"
    then have "i \<in> at_held A" using ok by simp
    from tok_release_drops [OF S R this t_finite [OF ti]] obtain s' k' where run: "sTokenRelease (passive_call cbu) 0 t ?s = Inr ((), s')"
      and S': "tsys_at cbu u0 M0 R t s' (A\<lparr>at_held := at_held A - {i}\<rparr>) k'" by blast
    show ?thesis by (rule tok_nextI [OF th pc _ S' _ t_token]) (use run in \<open>simp_all add: th pc\<close>)
  qed
qed

section \<open>Simulation of the cancellers\<close>

lemma sim_cancelling:
  assumes S: "tsys_at cbu u0 M0 R t (fc_sys C) A k" and inv: "toks_inv A" and R: "1 \<le> R" and th: "at_thr A = fc_thr C"
    and pc: "fc_thr C i \<in> {X_run p, X_drop n q, X_free n q, X_ctx r x q, X_tok x q}"
  shows "tok_sim cbu u0 M0 R t (tok_perform (passive_call cbu) t (A_next i) C) A"
proof -
  let ?s = "fc_sys C"
  from inv have ti: "tok_inv A" and tw: "t_win_inv A" by (simp_all add: toks_inv_def)
  have W: "at_win A = Some i" "at_list A = []" "xpos A = fc_thr C i" using t_winnerD [OF tw, of i] pc th by auto
  have ok: "win_ok A (fc_thr C i)" using win_okD [OF ti] W(3) by simp
  from pc show ?thesis
  proof (elim insertE emptyE)
    assume pc: "fc_thr C i = X_run p"
    show ?thesis
    proof (cases "at_todo A")
      case Nil
      then have p: "p = NULL" using ok pc by simp
      show ?thesis by (rule tok_nextI [OF th pc _ S refl t_end]) (simp_all add: th pc p)
    next
      case (Cons m ns)
      then have p: "p = Some m" using ok pc by simp
      have "m \<in> pend A" using Cons by (simp add: pend_def)
      then obtain j f rc a where m: "at_node A m = Some (j, f, rc, a)" using t_linked [OF ti, of m] by auto
      from heap_node [OF S m] obtain c where c: "callbacks ?s m = Some c" "cb_fn c = Inl f" "cb_context c = Some j" by metis
      have ch: "chain (cb_nxt ?s) (cb_next c) ns" using tsys_atD(9) [OF S] Cons c by (simp add: cb_nxt_def)
      then have nx: "cb_next c = hdp ns" by (cases ns) simp_all
      let ?s' = "?s\<lparr>user := cbu (Inl f) (Some j) (user ?s)\<rparr>"
      have run: "tpc_step (passive_call cbu) t i (X_run p) ?s = Inr (X_drop m (hdp ns), ?s')"
        using c by (simp add: p cancel_run_def bindm_assoc nx)
      have "tsys_at cbu u0 M0 R t ?s' (A\<lparr>at_todo := ns, at_log := at_log A @ [(Inl f, Some j)]\<rparr>) k"
        using tsys_call [OF S, of "Inl f" "Some j"] ch nx by (simp add: tsys_at_def sigs_upd)
      then show ?thesis by (rule tok_nextI [OF th pc run _ _ t_run [OF _ Cons m]]) (simp_all add: th pc p)
    qed
  next
    assume pc: "fc_thr C i = X_drop n q"
    have n: "n \<in> pend A" "n \<notin> set (at_list A) \<union> set (at_todo A)" using ok pc W by (auto simp: pend_def)
    then obtain j f rc a where nd: "at_node A n = Some (j, f, rc, a)" using t_linked [OF ti, of n] by auto
    from cancel_drop_drops [OF S nd n(2)] obtain s' where run: "cancel_drop n ?s = Inr (rc = 1, s')"
      and S': "tsys_at cbu u0 M0 R t s' (A\<lparr>at_node := (at_node A)(n \<mapsto> (j, f, rc - 1, a))\<rparr>) k" by blast
    have run': "tpc_step (passive_call cbu) t i (X_drop n q) ?s = Inr (if rc = 1 then X_free n q else X_run q, s')"
      using run by (simp add: bindm_def)
    have "rc = 1 \<or> rc = 2" using pending_node [OF ti W(2) n(1) nd] by auto
    then show ?thesis
    proof
      assume rc: "rc = 1"
      show ?thesis by (rule tok_nextI [OF th pc _ S' [unfolded rc, simplified] _ t_xlast]) (use run' nd rc in \<open>simp_all add: th pc\<close>)
    next
      assume rc: "rc = 2"
      show ?thesis by (rule tok_nextI [OF th pc _ S' [unfolded rc, simplified] _ t_xdrop]) (use run' nd rc in \<open>simp_all add: th pc\<close>)
    qed
  next
    assume pc: "fc_thr C i = X_free n q"
    then obtain j f where n: "at_node A n = Some (j, f, 0, False)" "n \<notin> set (at_list A) \<union> set (at_todo A)" using ok W by auto
    from node_take_frees [OF S n] obtain c s' where run: "node_take n ?s = Inr (c, s')" "cb_context c = Some j" "cb_release_context c = Some (Inr f)"
      and S': "tsys_at cbu u0 M0 R t s' (A\<lparr>at_node := (at_node A)(n := None)\<rparr>) k" by blast
    show ?thesis by (rule tok_nextI [OF th pc _ S' _ t_xfree [OF _ n(1)]]) (use run in \<open>simp_all add: th pc\<close>)
  next
    assume pc: "fc_thr C i = X_ctx r x q"
    then obtain j f where f: "r = Some (Inr f)" "x = Some j" using ok by auto
    show ?thesis by (rule tok_nextI [OF th pc _ tsys_call [OF S, of "Inr f" "Some j"] _ t_xhook]) (simp_all add: th pc f)
  next
    assume pc: "fc_thr C i = X_tok x q"
    then obtain j where j: "x = Some j" "j \<in> at_held A" using ok by auto
    from tok_release_drops [OF S R j(2) t_finite [OF ti]] obtain s' k' where run: "sTokenRelease (passive_call cbu) 0 t ?s = Inr ((), s')"
      and S': "tsys_at cbu u0 M0 R t s' (A\<lparr>at_held := at_held A - {j}\<rparr>) k'" by blast
    show ?thesis by (rule tok_nextI [OF th pc _ S' _ t_xtoken]) (use run in \<open>simp_all add: th pc j\<close>)
  qed
qed

lemma sim_tok_cancel:
  assumes S: "tsys_at cbu u0 M0 R t (fc_sys C) A k" and inv: "toks_inv A" and th: "at_thr A = fc_thr C" and pc: "fc_thr C i = K_idle"
  shows "tok_sim cbu u0 M0 R t (tok_perform (passive_call cbu) t (A_cancel i) C) A"
proof -
  let ?s = "fc_sys C"
  let ?m = "bindm (cancel_enter (next_addr ?s) t) (\<lambda>p. ret (case p of None \<Rightarrow> X_done False | Some h \<Rightarrow> X_run h))"
  from inv have ti: "tok_inv A" by (simp add: toks_inv_def)
  have "tok_sim cbu u0 M0 R t (advance i ?m C) A"
  proof (cases "at_win A")
    case None
    from cancel_enter_detaches [OF S ti None] obtain s' k' where run: "cancel_enter (next_addr ?s) t ?s = Inr (Some (hdp (at_list A)), s')"
      and S': "tsys_at cbu u0 M0 R t s' (A\<lparr>at_win := Some i, at_node := deact (at_list A) (at_node A), at_todo := at_list A, at_list := []\<rparr>) k'" by blast
    have "?m ?s = Inr (X_run (hdp (at_list A)), s')" using run by simp
    then show ?thesis by (rule tok_simI [where m = ?m, OF th _ S' _ t_cancel]) (simp_all add: th pc None)
  next
    case (Some w)
    then have "?m ?s = Inr (X_done False, ?s)" using cancel_again_returns [OF S] by simp
    then show ?thesis by (rule tok_simI [where m = ?m, OF th _ S _ t_again]) (simp_all add: th pc Some)
  qed
  then show ?thesis using pc by simp
qed

lemma tok_simulation:
  assumes rel: "tok_rel cbu u0 M0 R t C A" and inv: "toks_inv A" and R: "1 \<le> R"
  shows "tok_sim cbu u0 M0 R t (tok_perform (passive_call cbu) t a C) A"
proof -
  from rel obtain k where S: "tsys_at cbu u0 M0 R t (fc_sys C) A k" and th: "at_thr A = fc_thr C" by (auto simp: tok_rel_def)
  have ok: "client_ok A i (fc_thr C i)" for i using client_okD [of A i] inv th by (simp add: toks_inv_def)
  have same: "advance i (ret (fc_thr C i)) C = Inr C" for i by (simp add: advance_def)
  show ?thesis
  proof (cases a)
    case (A_register i f)
    show ?thesis
    proof (cases "fc_thr C i = K_idle")
      case True
      have "tok_sim cbu u0 M0 R t (advance i (ret (R_alloc f)) C) A"
        by (rule tok_simI [where m = "ret (R_alloc f)", OF th _ S refl t_register]) (simp_all add: th True)
      then show ?thesis using True A_register by simp
    qed (use tok_stay [OF rel] A_register in simp)
  next
    case (A_unregister i)
    show ?thesis
    proof (cases "\<exists>n. fc_thr C i = R_done (Some n)")
      case True
      then obtain n where n: "fc_thr C i = R_done (Some n)" by blast
      have "tok_sim cbu u0 M0 R t (advance i (ret (U_enter n)) C) A"
        by (rule tok_simI [where m = "ret (U_enter n)", OF th _ S refl t_unregister]) (simp_all add: th n)
      then show ?thesis using n A_unregister by simp
    next
      case False
      then have "tok_perform (passive_call cbu) t a C = Inr C" using A_unregister by (auto split: tpc.split option.split)
      then show ?thesis using tok_stay [OF rel] by simp
    qed
  next
    case (A_cancel i)
    then show ?thesis using sim_tok_cancel [OF S inv th, of i] tok_stay [OF rel] by (cases "fc_thr C i = K_idle") simp_all
  next
    case (A_next i)
    show ?thesis
    proof (cases "fc_thr C i \<in> {K_idle} \<union> range R_done \<union> range U_done \<union> range X_done")
      case True
      then have "tok_perform (passive_call cbu) t a C = Inr C" using same [of i] A_next by auto
      then show ?thesis using tok_stay [OF rel] by simp
    next
      case False
      then show ?thesis unfolding A_next
        using sim_registering [OF S inv th, of i] sim_unregistering [OF S inv R th, of i] sim_cancelling [OF S inv R th, of i]
        by (cases "fc_thr C i") auto
    qed
  qed
qed

interpretation ts: simulation "tok_perform (passive_call cbu) t" t_step "\<lambda>C A. 1 \<le> R \<and> tok_rel cbu u0 M0 R t C A" toks_inv
  for cbu :: "'k + 'k \<Rightarrow> ptr \<Rightarrow> 'u \<Rightarrow> 'u" and u0 M0 R t
proof
  fix C :: "('u, 'k, 'z) tok_conf" and A a
  assume rel: "1 \<le> R \<and> tok_rel cbu u0 M0 R t C A" and inv: "toks_inv A"
  have "tok_sim cbu u0 M0 R t (tok_perform (passive_call cbu) t a C) A"
    by (rule tok_simulation [OF conjunct2 [OF rel] inv conjunct1 [OF rel]])
  then show "\<exists>C' A'. tok_perform (passive_call cbu) t a C = Inr C' \<and> (t_step A A' \<or> A' = A) \<and> 1 \<le> R \<and> tok_rel cbu u0 M0 R t C' A'"
    using rel unfolding tok_sim_def by blast
qed (rule toks_inv_step)

end
