(* ===== verification/Cancellation_Conc_Spec.thy ===== *)
theory Cancellation_Conc_Spec
  imports Cancellation_Sim
begin

text \<open>
  What the race between the clients of a token and the threads that cancel it guarantees, in every
  interleaving: no node is used after it was freed, a callback runs at most once and never after
  its release hook, cancelling and unregistering agree on who owns a callback, every function
  returns within a bounded number of its own steps, and nothing is left allocated.
\<close>

section \<open>The initial configuration\<close>

definition tok_start :: "('u, 'k + 'k, 'z) cancel_sys_scheme \<Rightarrow> ('u, 'k, 'z) tok_conf" where
  "tok_start s = \<lparr>fc_sys = s, fc_thr = (\<lambda>_. K_idle)\<rparr>"

definition atok_start :: "'k atok" where
  "atok_start = \<lparr>at_thr = (\<lambda>_. K_idle), at_node = Map.empty, at_list = [], at_todo = [], at_held = {}, at_win = None, at_log = []\<rparr>"

lemma atok_start_inv: "toks_inv atok_start"
  by (simp add: atok_start_def toks_inv_def t_win_inv_def tok_inv_def calls_inv_def xpos_def pend_def owns_none_def)

text \<open>
  A token with an empty list, not cancelled, of which the application holds a reference; other
  tokens may have callbacks.
\<close>

definition tok_ready :: "('u, 'k + 'k, 'z) cancel_sys_scheme \<Rightarrow> addr \<Rightarrow> bool" where
  "tok_ready s t \<longleftrightarrow>
     (case tokens s t of None \<Rightarrow> False
      | Some k \<Rightarrow> 1 \<le> tok_refcount k \<and> \<not> tok_lock k \<and> \<not> tok_is_cancelled k \<and> tok_head k = NULL) \<and>
     (\<forall>n\<ge>next_addr s. callbacks s n = None)"

lemma tok_start_rel:
  assumes "tok_ready s t" and "tokens s t = Some k"
  shows "1 \<le> tok_refcount k \<and> tok_rel cbu (user s) (sigs s) (tok_refcount k) t (tok_start s) atok_start"
proof -
  have "tsys_at cbu (user s) (sigs s) (tok_refcount k) t s atok_start k"
    using assms by (simp add: tok_ready_def tsys_at_def atok_start_def tok_hd_def cview_def fun_eq_iff)
  then show ?thesis using assms by (auto simp: tok_rel_def tok_start_def atok_start_def tok_ready_def)
qed

text \<open>Every interleaving runs without a fault and stays related to the machine.\<close>

lemma tok_run:
  assumes "tok_ready s t"
  obtains C A k k' where "run_actions (tok_perform (passive_call cbu) t) as (tok_start s) = Inr C" and "tokens s t = Some k"
    and "tsys_at cbu (user s) (sigs s) (tok_refcount k) t (fc_sys C) A k'" and "at_thr A = fc_thr C" and "toks_inv A"
proof -
  from assms obtain k where k: "tokens s t = Some k" by (auto simp: tok_ready_def split: option.splits)
  from ts.run_sim [OF tok_start_rel [OF assms k, of cbu] atok_start_inv, of as] obtain C A where
    "run_actions (tok_perform (passive_call cbu) t) as (tok_start s) = Inr C" "tok_rel cbu (user s) (sigs s) (tok_refcount k) t C A" "toks_inv A" by blast
  with k that show thesis by (auto simp: tok_rel_def)
qed

section \<open>A concrete race\<close>

text \<open>Callbacks that record their calls.\<close>

definition log_call :: "'f \<Rightarrow> ptr \<Rightarrow> ('f \<times> ptr) list \<Rightarrow> ('f \<times> ptr) list" where
  "log_call f x u = u @ [(f, x)]"

lemma apply_log_calls: "apply_calls log_call l u = u @ l"
  by (induction l arbitrary: u) (simp_all add: apply_calls_def log_call_def)

definition demo_race_token :: "(((nat + nat) \<times> ptr) list, nat + nat) cancel_sys" where
  "demo_race_token = \<lparr>user = [], next_addr = 8, sys_ok = (\<lambda>_. True),
     tokens = [5 \<mapsto> \<lparr>tok_refcount = 1, tok_lock = False, tok_is_cancelled = False, tok_head = NULL\<rparr>], callbacks = Map.empty\<rparr>"

lemma demo_race_token_ready: "tok_ready demo_race_token 5"
  by (simp add: tok_ready_def demo_race_token_def)

text \<open>
  The clients 0, 1 and 2 register; client 1 takes its callback off the list, thread 3 cancels and
  runs the callback of client 2, client 0 unregisters before the canceller reaches its node, client 4
  registers after the cancellation.
\<close>

definition demo_tok_race :: "nat tok_act list" where
  "demo_tok_race = [A_register 0 70, A_next 0, A_register 1 71, A_next 1, A_next 0, A_next 1, A_next 1, A_next 0, A_register 2 72, A_next 2, A_next 2, A_next 2,
     A_unregister 1, A_next 1, A_next 1, A_cancel 3, A_next 3, A_next 1, A_next 1, A_unregister 0, A_next 0, A_register 4 74, A_next 4, A_next 4, A_next 4,
     A_next 3, A_next 3, A_next 3, A_next 4, A_next 3, A_next 3, A_next 3, A_next 3, A_unregister 2, A_unregister 4, A_next 2, A_next 4, A_next 2, A_next 4,
     A_next 2, A_next 4, A_next 2, A_next 4]"

lemma detach_loop_numeral:
  "cancel_detach_loop (numeral v) (Some walk) =
     bindm (upd_callback walk (\<lambda>c. c\<lparr>cb_active := False, cb_claimed := True, cb_prev := NULL\<rparr>)) (\<lambda>_.
     bindm (callback_at walk) (\<lambda>c.
     cancel_detach_loop (pred_numeral v) (cb_next c)))"
  by (simp add: numeral_eq_Suc)

lemma demo_tok_race_run:
  "\<exists>C. run_actions (tok_perform (passive_call log_call) 5) demo_tok_race (tok_start demo_race_token) = Inr C \<and>
    fc_thr C = (\<lambda>_. K_idle)(0 := U_done False, 1 := U_done True, 2 := U_done False, 3 := X_done True, 4 := U_done False) \<and>
    user (fc_sys C) = [(Inl 72, Some 2), (Inr 71, Some 1), (Inl 70, Some 0), (Inl 74, Some 4), (Inr 70, Some 0), (Inr 72, Some 2), (Inr 74, Some 4)]"
  by (simp add: demo_tok_race_def tok_start_def demo_race_token_def advance_def reg_alloc_def UfsrvCancellationTokenRetainInternal_def reg_enter_def
      unreg_enter_def node_take_def cancel_enter_def cancel_run_def cancel_drop_def sTokenRelease_def token_mutex_lock_def token_mutex_unlock_def
      cb_list_link_def cb_list_unlink_def log_call_def malloc_def detach_loop_numeral bindm_assoc fun_eq_iff)

section \<open>Calls of the application\<close>

text \<open>
C8: in every interleaving of any number of clients that register a callback and unregister it and
of threads that cancel the token, no atomic action faults (no node or token is used after it was
freed and the mutex is never taken twice), at most one thread wins the cancellation, and the
application sees each callback at most once, each release hook at most once, and no callback after
the release hook of its context.
\<close>

theorem token_race_safe:
  assumes "tok_ready s t"
  shows "\<exists>C log. run_actions (tok_perform (passive_call cbu) t) as (tok_start s) = Inr C \<and> user (fc_sys C) = apply_calls cbu log (user s) \<and>
    calls_ordered log \<and> (\<forall>i. times_run log i \<le> 1 \<and> times_released log i \<le> 1) \<and> (\<forall>i j. x_won (fc_thr C i) \<and> x_won (fc_thr C j) \<longrightarrow> i = j)"
proof -
  obtain C A k k' where run: "run_actions (tok_perform (passive_call cbu) t) as (tok_start s) = Inr C" and k: "tokens s t = Some k"
    and S: "tsys_at cbu (user s) (sigs s) (tok_refcount k) t (fc_sys C) A k'" and th: "at_thr A = fc_thr C" and inv: "toks_inv A"
    by (rule tok_run [OF assms, of cbu as])
  have "ran_at A i pc \<le> 1 \<and> released_at A i pc \<le> 1" for i pc
    by (cases "(A, i, pc)" rule: ran_at.cases; cases "(A, i, pc)" rule: released_at.cases) simp_all
  then have counts: "times_run (at_log A) i \<le> 1 \<and> times_released (at_log A) i \<le> 1" for i using inv by (simp add: toks_inv_def calls_inv_def)
  have "x_won (fc_thr C i) \<longleftrightarrow> at_win A = Some i" for i using inv th by (simp add: toks_inv_def t_win_inv_def)
  with counts tsys_atD(11) [OF S] run inv show ?thesis by (intro exI [of _ C] exI [of _ "at_log A"]) (auto simp: toks_inv_def)
qed

theorem token_race_safe_witness:
  "\<exists>C. run_actions (tok_perform (passive_call log_call) 5) demo_tok_race (tok_start demo_race_token) = Inr C \<and>
    calls_ordered (user (fc_sys C)) \<and> times_run (user (fc_sys C)) 0 \<le> 1 \<and> times_released (user (fc_sys C)) 0 \<le> 1"
proof -
  have "user demo_race_token = []" by (simp add: demo_race_token_def)
  with token_race_safe [OF demo_race_token_ready, of log_call demo_tok_race] show ?thesis by (auto simp: apply_log_calls)
qed

text \<open>Once the canceller has returned, or none has started, a client that gave up its handle owns nothing.\<close>

lemma client_settled:
  assumes inv: "tok_inv A" and pos: "xpos A = K_idle \<or> xpos A = X_done True" and i: "at_thr A i = U_done w"
  shows "i \<notin> at_held A" "owns_none A i"
proof -
  have pd: "pend A = {}" using win_okD [OF inv] pos by (auto simp: pend_def)
  show none: "owns_none A i" unfolding owns_none_def
  proof (intro allI notI)
    fix n u assume n: "at_node A n = Some (i, u)"
    show False using tnode_okD [OF inv n] i pd pos by (cases u) (auto simp: tnode_ok_def)
  qed
  show "i \<notin> at_held A" using client_okD [OF inv, of i] i none pos by (auto split: if_splits)
qed

lemma canceller_done: "toks_inv A \<Longrightarrow> at_thr A x = X_done True \<Longrightarrow> xpos A = X_done True \<and> at_list A = [] \<and> at_todo A = []"
  using t_winnerD [of A x] win_okD [of A] by (auto simp: toks_inv_def)

text \<open>
C9: cancelling and unregistering agree on every callback: when unregistering answers true the
callback has not run and never will, and its release hook has run once; when it answers false the
token is cancelled, and once the cancelling thread has returned the callback has run exactly once
and the hook too.  A client that still holds its handle when the cancelling thread has returned has
seen its callback run exactly once, and its context is not released.
\<close>

theorem token_race_agrees:
  assumes "tok_ready s t"
  shows "\<exists>C log k. run_actions (tok_perform (passive_call cbu) t) as (tok_start s) = Inr C \<and> user (fc_sys C) = apply_calls cbu log (user s) \<and>
    tokens (fc_sys C) t = Some k \<and>
    (\<forall>i. fc_thr C i = U_done True \<longrightarrow> times_run log i = 0 \<and> times_released log i = 1) \<and>
    (\<forall>i. fc_thr C i = U_done False \<longrightarrow> tok_is_cancelled k) \<and>
    (\<forall>x i. fc_thr C x = X_done True \<and> fc_thr C i = U_done False \<longrightarrow> times_run log i = 1 \<and> times_released log i = 1) \<and>
    (\<forall>x i n. fc_thr C x = X_done True \<and> fc_thr C i = R_done (Some n) \<longrightarrow> times_run log i = 1 \<and> times_released log i = 0)"
proof -
  obtain C A k k' where run: "run_actions (tok_perform (passive_call cbu) t) as (tok_start s) = Inr C" and k: "tokens s t = Some k"
    and S: "tsys_at cbu (user s) (sigs s) (tok_refcount k) t (fc_sys C) A k'" and th: "at_thr A = fc_thr C" and inv: "toks_inv A"
    by (rule tok_run [OF assms, of cbu as])
  note D = tsys_atD [OF S]
  from inv have ti: "tok_inv A" and calls: "times_run (at_log A) i = ran_at A i (fc_thr C i)" "times_released (at_log A) i = released_at A i (fc_thr C i)" for i
    using th by (simp_all add: toks_inv_def calls_inv_def)
  have won: "times_run (at_log A) i = 0 \<and> times_released (at_log A) i = 1" if "fc_thr C i = U_done True" for i using calls [of i] that by simp
  have lost: "tok_is_cancelled k'" if "fc_thr C i = U_done False" for i
    using client_okD [OF ti, of i] D(3) that th by simp
  have late: "times_run (at_log A) i = 1 \<and> times_released (at_log A) i = 1" if x: "fc_thr C x = X_done True" and i: "fc_thr C i = U_done False" for x i
  proof -
    have X: "xpos A = X_done True" "at_todo A = []" using canceller_done [OF inv, of x] x th by simp_all
    then show ?thesis using client_settled(1) [OF ti, of i False] calls [of i] i th by (simp add: awaits_def)
  qed
  have kept: "times_run (at_log A) i = 1 \<and> times_released (at_log A) i = 0" if "fc_thr C x = X_done True" "fc_thr C i = R_done (Some n)" for x i n
    using canceller_done [OF inv, of x] calls [of i] that th by simp
  show ?thesis
    by (intro exI [of _ C] exI [of _ "at_log A"] exI [of _ k']) (use run D(1,11) won lost late kept in blast)
qed

theorem token_race_agrees_witness:
  "\<exists>C. run_actions (tok_perform (passive_call log_call) 5) demo_tok_race (tok_start demo_race_token) = Inr C \<and> fc_thr C 3 = X_done True \<and>
    fc_thr C 0 = U_done False \<and> times_run (user (fc_sys C)) 0 = 1 \<and> fc_thr C 1 = U_done True \<and> times_run (user (fc_sys C)) 1 = 0"
proof -
  have "user demo_race_token = []" by (simp add: demo_race_token_def)
  with token_race_agrees [OF demo_race_token_ready, of log_call demo_tok_race] obtain C where
    run: "run_actions (tok_perform (passive_call log_call) 5) demo_tok_race (tok_start demo_race_token) = Inr C"
    and won: "\<And>i. fc_thr C i = U_done True \<Longrightarrow> times_run (user (fc_sys C)) i = 0"
    and lost: "\<And>x i. fc_thr C x = X_done True \<and> fc_thr C i = U_done False \<Longrightarrow> times_run (user (fc_sys C)) i = 1"
    by (auto simp: apply_log_calls)
  from demo_tok_race_run run have th: "fc_thr C = (\<lambda>_. K_idle)(0 := U_done False, 1 := U_done True, 2 := U_done False, 3 := X_done True, 4 := U_done False)"
    by auto
  with won [of 1] lost [of 3 0] run show ?thesis by simp
qed

section \<open>Memory\<close>

text \<open>A thread that has no call in progress and holds no handle.\<close>

fun gone :: "'k tpc \<Rightarrow> bool" where
  "gone K_idle = True" | "gone (R_done p) = (p = NULL)" | "gone (U_done w) = True" | "gone (X_done b) = True" | "gone pc = False"

text \<open>
C10: in every interleaving, when all threads have returned and every handle was given up, each node
that a registration allocated is freed, by whichever side dropped the last reference, the callbacks of other
tokens are as they were, and the token has the references it had at the start.
\<close>

theorem token_race_no_leak:
  assumes "tok_ready s t" and "tokens s t = Some k"
  shows "\<exists>C k'. run_actions (tok_perform (passive_call cbu) t) as (tok_start s) = Inr C \<and> tokens (fc_sys C) t = Some k' \<and> \<not> tok_lock k' \<and>
    tok_refcount k \<le> tok_refcount k' \<and>
    ((\<forall>i. gone (fc_thr C i)) \<longrightarrow> sigs (fc_sys C) = sigs s \<and> dom (callbacks (fc_sys C)) = dom (callbacks s) \<and> tok_refcount k' = tok_refcount k)"
proof -
  obtain C A k0 k' where run: "run_actions (tok_perform (passive_call cbu) t) as (tok_start s) = Inr C" and k0: "tokens s t = Some k0"
    and S: "tsys_at cbu (user s) (sigs s) (tok_refcount k0) t (fc_sys C) A k'" and th: "at_thr A = fc_thr C" and inv: "toks_inv A"
    by (rule tok_run [OF assms(1), of cbu as])
  note D = tsys_atD [OF S]
  from inv have ti: "tok_inv A" by (simp add: toks_inv_def)
  have all: "sigs (fc_sys C) = sigs s \<and> dom (callbacks (fc_sys C)) = dom (callbacks s) \<and> at_held A = {}" if gone: "\<forall>i. gone (fc_thr C i)"
  proof -
    have pos: "xpos A = K_idle \<or> xpos A = X_done True"
    proof (cases "at_win A")
      case (Some w)
      then have "x_won (fc_thr C w)" "xpos A = fc_thr C w" using inv th by (simp_all add: toks_inv_def t_win_inv_def xpos_def)
      then show ?thesis using gone [rule_format, of w] by (cases "fc_thr C w") auto
    qed (simp add: xpos_def)
    have free: "i \<notin> at_held A \<and> owns_none A i" for i
      using gone [rule_format, of i] client_okD [OF ti, of i] client_settled [OF ti pos, of i] th by (cases "fc_thr C i") auto
    then have "at_node A n = None" for n by (cases "at_node A n") (auto simp: owns_none_def)
    then have sg: "sigs (fc_sys C) = sigs s" by (simp add: D(5) cview_def fun_eq_iff)
    have "n \<in> dom (callbacks (fc_sys C)) \<longleftrightarrow> n \<in> dom (callbacks s)" for n
      using fun_cong [OF sg, of n] by (cases "callbacks s n"; cases "callbacks (fc_sys C) n") (simp_all add: sigs_def domIff)
    then have "dom (callbacks (fc_sys C)) = dom (callbacks s)" by (rule set_eqI)
    with sg free show ?thesis by blast
  qed
  have "tok_refcount k \<le> tok_refcount k'" "at_held A = {} \<Longrightarrow> tok_refcount k' = tok_refcount k" using D(4) k0 assms(2) by simp_all
  with run D(1,2) all show ?thesis by (intro exI [of _ C] exI [of _ k']) simp
qed

theorem token_race_no_leak_witness:
  "\<exists>C k'. run_actions (tok_perform (passive_call log_call) 5) demo_tok_race (tok_start demo_race_token) = Inr C \<and> (\<forall>i. gone (fc_thr C i)) \<and>
    dom (callbacks (fc_sys C)) = {} \<and> tokens (fc_sys C) 5 = Some k' \<and> tok_refcount k' = 1"
proof -
  let ?k = "\<lparr>tok_refcount = 1, tok_lock = False, tok_is_cancelled = False, tok_head = NULL\<rparr>"
  have k: "tokens demo_race_token 5 = Some ?k" "dom (callbacks demo_race_token) = {}" by (simp_all add: demo_race_token_def)
  from token_race_no_leak [OF demo_race_token_ready k(1), of log_call demo_tok_race] obtain C k' where
    run: "run_actions (tok_perform (passive_call log_call) 5) demo_tok_race (tok_start demo_race_token) = Inr C" "tokens (fc_sys C) 5 = Some k'"
    and all: "(\<forall>i. gone (fc_thr C i)) \<longrightarrow> dom (callbacks (fc_sys C)) = {} \<and> tok_refcount k' = 1" using k(2) by auto
  from demo_tok_race_run run(1) have "fc_thr C = (\<lambda>_. K_idle)(0 := U_done False, 1 := U_done True, 2 := U_done False, 3 := X_done True, 4 := U_done False)"
    by auto
  then have "\<forall>i. gone (fc_thr C i)" by simp
  with run all show ?thesis by blast
qed

section \<open>Wait-freedom\<close>

fun t_returned :: "'k tpc \<Rightarrow> bool" where
  "t_returned K_idle = True" | "t_returned (R_done p) = True" | "t_returned (U_done w) = True" | "t_returned (X_done b) = True" | "t_returned pc = False"

text \<open>How many actions of its own a thread still needs, with \<open>m\<close> detached nodes left.\<close>

fun t_left :: "nat \<Rightarrow> 'k tpc \<Rightarrow> nat" where
  "t_left m (R_alloc k) = 4" | "t_left m (R_retain k n) = 3" | "t_left m (R_enter k n) = 2" | "t_left m (R_call k n) = 1"
| "t_left m (U_enter n) = 4" | "t_left m (U_free n w) = 3" | "t_left m (U_ctx r x w) = 2" | "t_left m (U_tok w) = 1"
| "t_left m (X_run q) = 5 * m + 1" | "t_left m (X_drop n q) = 5 * m + 5" | "t_left m (X_free n q) = 5 * m + 4"
| "t_left m (X_ctx r x q) = 5 * m + 3" | "t_left m (X_tok x q) = 5 * m + 2" | "t_left m pc = 0"

lemma t_step_progress:
  "t_step A B \<Longrightarrow> at_thr B i \<noteq> at_thr A i \<Longrightarrow> \<not> t_returned (at_thr A i) \<Longrightarrow>
   t_left (length (at_todo B)) (at_thr B i) < t_left (length (at_todo A)) (at_thr A i)"
  by (induction rule: t_step.induct) (simp_all split: if_splits)

lemma tpc_step_moves: "tpc_step call t i pc s = Inr (pc', s') \<Longrightarrow> \<not> t_returned pc \<Longrightarrow> pc' \<noteq> pc"
  by (cases "(call, t, i, pc)" rule: tpc_step.cases) (auto simp: bindm_eq_Inr_iff split: option.splits if_splits)

lemma tok_progress:
  assumes R: "1 \<le> R" and rel: "tok_rel cbu u0 M0 R t C A" and inv: "toks_inv A" and on: "\<not> t_returned (fc_thr C i)"
  shows "\<exists>D B. tok_perform (passive_call cbu) t (A_next i) C = Inr D \<and> tok_rel cbu u0 M0 R t D B \<and> toks_inv B \<and>
    t_left (length (at_todo B)) (fc_thr D i) < t_left (length (at_todo A)) (fc_thr C i)"
proof -
  from ts.sim [OF conjI [OF R rel] inv, of "A_next i"] obtain D B where
    D: "tok_perform (passive_call cbu) t (A_next i) C = Inr D" "t_step A B \<or> B = A" "tok_rel cbu u0 M0 R t D B" by blast
  have th: "at_thr A = fc_thr C" "at_thr B = fc_thr D" using rel D(3) by (simp_all add: tok_rel_def)
  from D(1) obtain pc s where pc: "tpc_step (passive_call cbu) t i (fc_thr C i) (fc_sys C) = Inr (pc, s)" "fc_thr D i = pc"
    by (auto simp: advance_def split: sum.splits)
  have "fc_thr D i \<noteq> fc_thr C i" using tpc_step_moves [OF pc(1) on] pc(2) by simp
  then have st: "t_step A B" using D(2) th by auto
  from t_step_progress [OF st, of i] \<open>fc_thr D i \<noteq> fc_thr C i\<close> on th toks_inv_step [OF st inv] D(1,3) show ?thesis by auto
qed

lemma tok_alone:
  assumes R: "1 \<le> R"
  shows "tok_rel cbu u0 M0 R t C A \<Longrightarrow> toks_inv A \<Longrightarrow> t_left (length (at_todo A)) (fc_thr C i) \<le> m \<Longrightarrow>
    \<exists>l\<le>m. \<exists>D. run_actions (tok_perform (passive_call cbu) t) (replicate l (A_next i)) C = Inr D \<and> t_returned (fc_thr D i)"
proof (induction m arbitrary: C A)
  case 0
  then have "t_returned (fc_thr C i)" by (cases "fc_thr C i") auto
  then show ?case by (intro exI [of _ 0]) auto
next
  case (Suc m)
  show ?case
  proof (cases "t_returned (fc_thr C i)")
    case True
    then show ?thesis by (intro exI [of _ 0]) auto
  next
    case False
    from tok_progress [OF R Suc.prems(1,2) False] obtain D B where
      D: "tok_perform (passive_call cbu) t (A_next i) C = Inr D" "tok_rel cbu u0 M0 R t D B" "toks_inv B"
        "t_left (length (at_todo B)) (fc_thr D i) < t_left (length (at_todo A)) (fc_thr C i)" by blast
    have "t_left (length (at_todo B)) (fc_thr D i) \<le> m" using D(4) Suc.prems(3) by linarith
    from Suc.IH [OF D(2,3) this] obtain l D' where
      l: "l \<le> m" "run_actions (tok_perform (passive_call cbu) t) (replicate l (A_next i)) D = Inr D'" "t_returned (fc_thr D' i)" by blast
    with D(1) show ?thesis by (intro exI [of _ "Suc l"] conjI exI [of _ D']) (simp_all del: tok_perform.simps passive_call_apply)
  qed
qed

lemma todo_allocated:
  assumes S: "tsys_at cbu u0 M0 R t s A k" and inv: "tok_inv A"
  shows "length (at_todo A) \<le> card (dom (callbacks s))"
proof -
  have "n < next_addr s" if "n \<in> dom (callbacks s)" for n using tsys_atD(7) [OF S, of n] that by (cases "n < next_addr s") auto
  then have "dom (callbacks s) \<subseteq> {..<next_addr s}" by blast
  then have fin: "finite (dom (callbacks s))" by (rule finite_subset) simp
  have sub: "set (at_todo A) \<subseteq> dom (callbacks s)" using list_live [OF S inv] by (auto simp: pend_def cb_live_def)
  from card_mono [OF fin sub] distinct_card [of "at_todo A"] t_distinct [OF inv] show ?thesis by simp
qed

text \<open>
C11: registering, unregistering and cancelling end whatever the other threads do: wherever the
interleaving has left a thread, its own next actions alone bring it back from its call, at most
five and five for every allocated node.
\<close>

theorem token_race_returns:
  assumes "tok_ready s t"
  shows "\<exists>C l D. run_actions (tok_perform (passive_call cbu) t) as (tok_start s) = Inr C \<and> l \<le> 5 * card (dom (callbacks (fc_sys C))) + 5 \<and>
    run_actions (tok_perform (passive_call cbu) t) (as @ replicate l (A_next i)) (tok_start s) = Inr D \<and> t_returned (fc_thr D i)"
proof -
  obtain C A k k' where run: "run_actions (tok_perform (passive_call cbu) t) as (tok_start s) = Inr C" and k: "tokens s t = Some k"
    and S: "tsys_at cbu (user s) (sigs s) (tok_refcount k) t (fc_sys C) A k'" and th: "at_thr A = fc_thr C" and inv: "toks_inv A"
    by (rule tok_run [OF assms, of cbu as])
  have rel: "tok_rel cbu (user s) (sigs s) (tok_refcount k) t C A" using S th by (auto simp: tok_rel_def)
  have R: "1 \<le> tok_refcount k" using assms k by (simp add: tok_ready_def)
  have "t_left (length (at_todo A)) (fc_thr C i) \<le> 5 * card (dom (callbacks (fc_sys C))) + 5"
    using todo_allocated [OF S] inv by (cases "fc_thr C i") (auto simp: toks_inv_def)
  from tok_alone [OF R rel inv this] obtain l D where l: "l \<le> 5 * card (dom (callbacks (fc_sys C))) + 5"
    "run_actions (tok_perform (passive_call cbu) t) (replicate l (A_next i)) C = Inr D" "t_returned (fc_thr D i)" by blast
  with run show ?thesis by (intro exI [of _ C] exI [of _ l] exI [of _ D]) (simp add: run_actions_append del: passive_call_apply)
qed

theorem token_race_returns_witness:
  "\<exists>l D. run_actions (tok_perform (passive_call log_call) 5) ([A_register 0 70, A_next 0, A_next 0, A_next 0, A_cancel 3] @ replicate l (A_next 3)) (tok_start demo_race_token)
      = Inr D \<and> t_returned (fc_thr D 3)"
  using token_race_returns [OF demo_race_token_ready, of log_call _ 3] by blast

end
