(* ===== verification/Scheduler.thy ===== *)
theory Scheduler
  imports Cancellation
begin

text \<open>
  The single-worker scheduler, \<^verbatim>\<open>src/ufsrv_scheduler/ufsrv_scheduler.c\<close>: a queue of
  jobs, an eventfd that wakes the worker, and one worker thread.

  The multi-producer queue is uflib's \<^verbatim>\<open>cdt_mpsc_queue\<close> and not part of this
  repository: its operations are the parameter \<open>Q\<close> and its documented behaviour, a
  first-in first-out queue, is the predicate \<open>mpsc_fifo\<close>.  The kernel's part is
  modelled: an eventfd is a counter that \<^verbatim>\<open>write\<close> increments and a blocking
  \<^verbatim>\<open>read\<close> empties, a thread is the program point it has reached.  The worker thread
  \<^verbatim>\<open>sWorkerMain\<close> is a step function, one atomic action of the C code per step, and the
  functions that run on other threads are composed of the atomic segments that can be
  interleaved with it.
\<close>

section \<open>State\<close>

text \<open>The operations of the external queue.\<close>

record 'q mpsc_ops =
  mpsc_queue_init :: 'q
  mpsc_queue_insert :: "addr \<Rightarrow> 'q \<Rightarrow> 'q"
  mpsc_queue_pop :: "'q \<Rightarrow> addr option \<times> 'q"

text \<open>What the scheduler relies on: the queue represents a list, first in, first out.\<close>

definition mpsc_fifo :: "'q mpsc_ops \<Rightarrow> ('q \<Rightarrow> addr list) \<Rightarrow> bool" where
  "mpsc_fifo Q jobs_of \<longleftrightarrow>
     jobs_of (mpsc_queue_init Q) = [] \<and>
     (\<forall>a q. jobs_of (mpsc_queue_insert Q a q) = jobs_of q @ [a]) \<and>
     (\<forall>q. jobs_of q = [] \<longrightarrow> fst (mpsc_queue_pop Q q) = None \<and> jobs_of (snd (mpsc_queue_pop Q q)) = []) \<and>
     (\<forall>q a as. jobs_of q = a # as \<longrightarrow> fst (mpsc_queue_pop Q q) = Some a \<and> jobs_of (snd (mpsc_queue_pop Q q)) = as)"

record 'fn UfsrvSchedulerJob =
  job_callback :: "'fn option"
  job_callback_context :: ptr

record 'q UfsrvScheduler =
  sch_queue :: 'q
  sch_event_fd :: int
  sch_thread :: nat
  sch_name :: "string option"
  sch_is_running :: bool
  sch_is_started :: bool
  sch_is_joined :: bool
  sch_is_worker_id_ready :: bool
  sch_worker_id :: nat

text \<open>
  The program points of \<^verbatim>\<open>sWorkerMain\<close>: on entry, before the loop condition, before
  the pop, before the second test of \<^verbatim>\<open>is_running\<close>, before the \<^verbatim>\<open>read\<close>, in the
  final drain, and after the return.
\<close>

datatype worker_pc = W_entry | W_while | W_pop | W_recheck | W_read | W_drain | W_exit

text \<open>How the \<^verbatim>\<open>read\<close> of the eventfd can end.\<close>

datatype read_result = Read_value | Read_EINTR | Read_error

record ('u, 'fn, 'q) sched_sys = "('u, 'fn) cancel_sys" +
  schedulers :: "addr \<rightharpoonup> 'q UfsrvScheduler"
  sched_jobs :: "addr \<rightharpoonup> 'fn UfsrvSchedulerJob"
  eventfds :: "int \<rightharpoonup> nat"
  threads :: "nat \<rightharpoonup> worker_pc"
  t_worker_scheduler :: "nat \<Rightarrow> ptr"
  cur_thread :: nat

type_synonym ('u, 'fn, 'q, 'z, 'a) sprog = "(('u, 'fn, 'q, 'z) sched_sys_scheme, 'a) prog"

type_synonym ('u, 'fn, 'q, 'z) scall = "'fn \<Rightarrow> ptr \<Rightarrow> ('u, 'fn, 'q, 'z, unit) sprog"

abbreviation scheduler_at :: "addr \<Rightarrow> ('u, 'fn, 'q, 'z, 'q UfsrvScheduler) sprog" where
  "scheduler_at \<equiv> obj_at schedulers"

abbreviation upd_scheduler ::
  "addr \<Rightarrow> ('q UfsrvScheduler \<Rightarrow> 'q UfsrvScheduler) \<Rightarrow> ('u, 'fn, 'q, 'z, unit) sprog" where
  "upd_scheduler \<equiv> upd_obj schedulers schedulers_update"

abbreviation job_at :: "addr \<Rightarrow> ('u, 'fn, 'q, 'z, 'fn UfsrvSchedulerJob) sprog" where
  "job_at \<equiv> obj_at sched_jobs"

abbreviation free_job :: "addr \<Rightarrow> ('u, 'fn, 'q, 'z, unit) sprog" where
  "free_job \<equiv> free_obj sched_jobs sched_jobs_update"

section \<open>The kernel's part\<close>

text \<open>\<^verbatim>\<open>eventfd(0, EFD_CLOEXEC)\<close>: a new descriptor with counter 0, or -1.\<close>

definition eventfd :: "('u, 'fn, 'q, 'z, int) sprog" where
  "eventfd =
     bindm malloc (\<lambda>p.
     case p of
       None \<Rightarrow> ret (- 1)
     | Some n \<Rightarrow> bindm (modify (\<lambda>s. s\<lparr>eventfds := (eventfds s)(int n \<mapsto> 0)\<rparr>)) (\<lambda>_. ret (int n)))"

text \<open>
  \<^verbatim>\<open>write(fd, &one, 8)\<close>: add one; on a descriptor that is not open the call fails and
  the code ignores the error.
\<close>

definition eventfd_write :: "int \<Rightarrow> ('u, 'fn, 'q, 'z, unit) sprog" where
  "eventfd_write fd =
     modify (\<lambda>s. case eventfds s fd of None \<Rightarrow> s | Some v \<Rightarrow> s\<lparr>eventfds := (eventfds s)(fd \<mapsto> v + 1)\<rparr>)"

definition eventfd_close :: "int \<Rightarrow> ('u, 'fn, 'q, 'z, unit) sprog" where
  "eventfd_close fd = modify (\<lambda>s. s\<lparr>eventfds := (eventfds s)(fd := None)\<rparr>)"

section \<open>The worker\<close>

definition sRunJob :: "('u, 'fn, 'q, 'z) scall \<Rightarrow> addr \<Rightarrow> ('u, 'fn, 'q, 'z, unit) sprog" where
  "sRunJob call job =
     bindm (job_at job) (\<lambda>j.
     bindm (when_some (job_callback j) (\<lambda>f. call f (job_callback_context j))) (\<lambda>_.
     free_job job))"

definition goto :: "nat \<Rightarrow> worker_pc \<Rightarrow> ('u, 'fn, 'q, 'z, unit) sprog" where
  "goto tid pc = modify (\<lambda>s. s\<lparr>threads := (threads s)(tid \<mapsto> pc)\<rparr>)"

text \<open>Pop the next job of the scheduler's queue.\<close>

definition queue_pop :: "'q mpsc_ops \<Rightarrow> addr \<Rightarrow> ('u, 'fn, 'q, 'z, addr option) sprog" where
  "queue_pop Q sch =
     bindm (scheduler_at sch) (\<lambda>c.
     bindm (upd_scheduler sch (\<lambda>c. c\<lparr>sch_queue := snd (mpsc_queue_pop Q (sch_queue c))\<rparr>)) (\<lambda>_.
     ret (fst (mpsc_queue_pop Q (sch_queue c)))))"

text \<open>
  One step of the worker thread \<open>tid\<close> of scheduler \<open>sch\<close>, and whether it could move:
  the \<^verbatim>\<open>read\<close> blocks while the counter is 0.  A job runs within one step.
\<close>

definition sWorkerMain_step ::
  "'q mpsc_ops \<Rightarrow> ('u, 'fn, 'q, 'z) scall \<Rightarrow> read_result \<Rightarrow> addr \<Rightarrow> nat \<Rightarrow> ('u, 'fn, 'q, 'z, bool) sprog" where
  "sWorkerMain_step Q call rd sch tid =
     bindm (scheduler_at sch) (\<lambda>c.
     bindm (obj_at threads tid) (\<lambda>pc.
     case pc of
       W_entry \<Rightarrow>
         bindm (upd_scheduler sch (\<lambda>c. c\<lparr>sch_worker_id := tid, sch_is_worker_id_ready := True\<rparr>)) (\<lambda>_.
         bindm (modify (\<lambda>s. s\<lparr>t_worker_scheduler := (t_worker_scheduler s)(tid := Some sch)\<rparr>)) (\<lambda>_.
         bindm (goto tid W_while) (\<lambda>_. ret True)))
     | W_while \<Rightarrow>
         bindm (goto tid (if sch_is_running c then W_pop else W_drain)) (\<lambda>_. ret True)
     | W_pop \<Rightarrow>
         bindm (queue_pop Q sch) (\<lambda>node.
         case node of
           Some job \<Rightarrow> bindm (sRunJob call job) (\<lambda>_. bindm (goto tid W_while) (\<lambda>_. ret True))
         | None \<Rightarrow> bindm (goto tid W_recheck) (\<lambda>_. ret True))
     | W_recheck \<Rightarrow>
         bindm (goto tid (if sch_is_running c then W_read else W_drain)) (\<lambda>_. ret True)
     | W_read \<Rightarrow>
         (case rd of
            Read_EINTR \<Rightarrow> bindm (goto tid W_while) (\<lambda>_. ret True)
          | Read_error \<Rightarrow> bindm (goto tid W_drain) (\<lambda>_. ret True)
          | Read_value \<Rightarrow>
              bindm (gets (\<lambda>s. eventfds s (sch_event_fd c))) (\<lambda>v.
              case v of
                None \<Rightarrow> bindm (goto tid W_drain) (\<lambda>_. ret True)
              | Some n \<Rightarrow>
                  if n = 0 then ret False
                  else
                    bindm (modify (\<lambda>s. s\<lparr>eventfds := (eventfds s)(sch_event_fd c \<mapsto> 0)\<rparr>)) (\<lambda>_.
                    bindm (goto tid W_while) (\<lambda>_. ret True))))
     | W_drain \<Rightarrow>
         bindm (queue_pop Q sch) (\<lambda>node.
         case node of
           Some job \<Rightarrow> bindm (sRunJob call job) (\<lambda>_. ret True)
         | None \<Rightarrow>
             bindm (modify (\<lambda>s. s\<lparr>t_worker_scheduler := (t_worker_scheduler s)(tid := NULL)\<rparr>)) (\<lambda>_.
             bindm (goto tid W_exit) (\<lambda>_. ret True)))
     | W_exit \<Rightarrow> ret False))"

section \<open>The functions of the API\<close>

definition UfsrvSchedulerCreate :: "'q mpsc_ops \<Rightarrow> string option \<Rightarrow> ('u, 'fn, 'q, 'z, ptr) sprog" where
  "UfsrvSchedulerCreate Q name_ptr =
     bindm malloc (\<lambda>p.
     case p of
       None \<Rightarrow> ret NULL
     | Some sch \<Rightarrow>
         bindm (if name_ptr = None then ret True else sys_try) (\<lambda>name_ok.
         if \<not> name_ok then ret NULL
         else
           bindm eventfd (\<lambda>fd.
           if fd < 0 then ret NULL
           else
             bindm (new_obj schedulers schedulers_update sch
               \<lparr>sch_queue = mpsc_queue_init Q, sch_event_fd = fd, sch_thread = 0, sch_name = name_ptr,
                sch_is_running = False, sch_is_started = False, sch_is_joined = False,
                sch_is_worker_id_ready = False, sch_worker_id = 0\<rparr>) (\<lambda>_.
             ret (Some sch)))))"

text \<open>\<^verbatim>\<open>pthread_create\<close>: a fresh thread at the entry of \<^verbatim>\<open>sWorkerMain\<close>.\<close>

definition UfsrvSchedulerStart :: "ptr \<Rightarrow> ('u, 'fn, 'q, 'z, int) sprog" where
  "UfsrvSchedulerStart scheduler_ptr =
     (case scheduler_ptr of
        None \<Rightarrow> ret (- 1)
      | Some sch \<Rightarrow>
          bindm (scheduler_at sch) (\<lambda>c.
          if sch_is_started c then ret (- 1)
          else
            bindm (upd_scheduler sch (\<lambda>c. c\<lparr>sch_is_running := True\<rparr>)) (\<lambda>_.
            bindm malloc (\<lambda>p.
            case p of
              None \<Rightarrow>
                bindm (upd_scheduler sch (\<lambda>c. c\<lparr>sch_is_running := False\<rparr>)) (\<lambda>_. ret (- 1))
            | Some tid \<Rightarrow>
                bindm (goto tid W_entry) (\<lambda>_.
                bindm (upd_scheduler sch (\<lambda>c. c\<lparr>sch_thread := tid\<rparr>)) (\<lambda>_.
                bindm (upd_scheduler sch (\<lambda>c. c\<lparr>sch_is_started := True\<rparr>)) (\<lambda>_.
                ret 0)))))))"

text \<open>The atomic segments of \<^verbatim>\<open>sSubmitToScheduler\<close> and \<^verbatim>\<open>UfsrvSchedulerStop\<close>.\<close>

definition submit_prepare :: "'fn option \<Rightarrow> ptr \<Rightarrow> ('u, 'fn, 'q, 'z, ptr) sprog" where
  "submit_prepare callback context_ptr =
     bindm malloc (\<lambda>p.
     case p of
       None \<Rightarrow> ret NULL
     | Some job \<Rightarrow>
         bindm (new_obj sched_jobs sched_jobs_update job
                  \<lparr>job_callback = callback, job_callback_context = context_ptr\<rparr>) (\<lambda>_.
         ret (Some job)))"

definition submit_check :: "addr \<Rightarrow> addr \<Rightarrow> ('u, 'fn, 'q, 'z, bool) sprog" where
  "submit_check sch job =
     bindm (scheduler_at sch) (\<lambda>c.
     if sch_is_running c then ret True
     else bindm (free_job job) (\<lambda>_. ret False))"

definition submit_insert :: "'q mpsc_ops \<Rightarrow> addr \<Rightarrow> addr \<Rightarrow> ('u, 'fn, 'q, 'z, unit) sprog" where
  "submit_insert Q sch job =
     upd_scheduler sch (\<lambda>c. c\<lparr>sch_queue := mpsc_queue_insert Q job (sch_queue c)\<rparr>)"

definition wake_worker :: "addr \<Rightarrow> ('u, 'fn, 'q, 'z, unit) sprog" where
  "wake_worker sch = bindm (scheduler_at sch) (\<lambda>c. eventfd_write (sch_event_fd c))"

definition stop_store :: "addr \<Rightarrow> ('u, 'fn, 'q, 'z, unit) sprog" where
  "stop_store sch = upd_scheduler sch (\<lambda>c. c\<lparr>sch_is_running := False\<rparr>)"

definition sSubmitToScheduler ::
  "'q mpsc_ops \<Rightarrow> addr \<Rightarrow> 'fn option \<Rightarrow> ptr \<Rightarrow> ('u, 'fn, 'q, 'z, bool) sprog" where
  "sSubmitToScheduler Q sch callback context_ptr =
     bindm (submit_prepare callback context_ptr) (\<lambda>p.
     case p of
       None \<Rightarrow> ret False
     | Some job \<Rightarrow>
         bindm (submit_check sch job) (\<lambda>running.
         if \<not> running then ret False
         else
           bindm (submit_insert Q sch job) (\<lambda>_.
           bindm (wake_worker sch) (\<lambda>_. ret True))))"

definition UfsrvSchedulerSubmit ::
  "'q mpsc_ops \<Rightarrow> ptr \<Rightarrow> 'fn option \<Rightarrow> ptr \<Rightarrow> ('u, 'fn, 'q, 'z, bool) sprog" where
  "UfsrvSchedulerSubmit Q scheduler_ptr callback context_ptr =
     (case (scheduler_ptr, callback) of
        (Some sch, Some f) \<Rightarrow> sSubmitToScheduler Q sch callback context_ptr
      | _ \<Rightarrow> ret False)"

definition UfsrvSchedulerStop :: "ptr \<Rightarrow> ('u, 'fn, 'q, 'z, unit) sprog" where
  "UfsrvSchedulerStop scheduler_ptr =
     (case scheduler_ptr of
        None \<Rightarrow> ret ()
      | Some sch \<Rightarrow> bindm (stop_store sch) (\<lambda>_. wake_worker sch))"

text \<open>
  \<^verbatim>\<open>pthread_join\<close>: the caller is blocked until the worker has returned, so the worker's
  steps are the ones that happen.  A worker that blocks for good makes it a deadlock.
\<close>

fun pthread_join ::
  "'q mpsc_ops \<Rightarrow> ('u, 'fn, 'q, 'z) scall \<Rightarrow> nat \<Rightarrow> addr \<Rightarrow> nat \<Rightarrow> ('u, 'fn, 'q, 'z, unit) sprog" where
  "pthread_join Q call 0 sch tid = fail OutOfFuel"
| "pthread_join Q call (Suc fuel) sch tid =
     bindm (obj_at threads tid) (\<lambda>pc.
     if pc = W_exit then ret ()
     else
       bindm (sWorkerMain_step Q call Read_value sch tid) (\<lambda>moved.
       if moved then pthread_join Q call fuel sch tid else fail Deadlock))"

definition UfsrvSchedulerJoin ::
  "'q mpsc_ops \<Rightarrow> ('u, 'fn, 'q, 'z) scall \<Rightarrow> nat \<Rightarrow> ptr \<Rightarrow> ('u, 'fn, 'q, 'z, unit) sprog" where
  "UfsrvSchedulerJoin Q call fuel scheduler_ptr =
     (case scheduler_ptr of
        None \<Rightarrow> ret ()
      | Some sch \<Rightarrow>
          bindm (scheduler_at sch) (\<lambda>c.
          if \<not> sch_is_started c then ret ()
          else
            bindm (upd_scheduler sch (\<lambda>c. c\<lparr>sch_is_joined := True\<rparr>)) (\<lambda>_.
            if sch_is_joined c then ret ()
            else pthread_join Q call fuel sch (sch_thread c))))"

fun destroy_drain :: "'q mpsc_ops \<Rightarrow> nat \<Rightarrow> addr \<Rightarrow> ('u, 'fn, 'q, 'z, unit) sprog" where
  "destroy_drain Q 0 sch = fail OutOfFuel"
| "destroy_drain Q (Suc fuel) sch =
     bindm (queue_pop Q sch) (\<lambda>node.
     case node of
       None \<Rightarrow> ret ()
     | Some job \<Rightarrow> bindm (free_job job) (\<lambda>_. destroy_drain Q fuel sch))"

definition UfsrvSchedulerDestroy ::
  "'q mpsc_ops \<Rightarrow> ('u, 'fn, 'q, 'z) scall \<Rightarrow> nat \<Rightarrow> ptr \<Rightarrow> ('u, 'fn, 'q, 'z, unit) sprog" where
  "UfsrvSchedulerDestroy Q call fuel scheduler_ptr =
     (case scheduler_ptr of
        None \<Rightarrow> ret ()
      | Some sch \<Rightarrow>
          bindm (scheduler_at sch) (\<lambda>c.
          bindm (if sch_is_started c \<and> \<not> sch_is_joined c then
                   bindm (UfsrvSchedulerStop scheduler_ptr) (\<lambda>_.
                   UfsrvSchedulerJoin Q call fuel scheduler_ptr)
                 else ret ()) (\<lambda>_.
          bindm (destroy_drain Q fuel sch) (\<lambda>_.
          bindm (if sch_event_fd c \<ge> 0 then eventfd_close (sch_event_fd c) else ret ()) (\<lambda>_.
          free_obj schedulers schedulers_update sch)))))"

definition UfsrvSchedulerIsWorkerThread :: "ptr \<Rightarrow> ('u, 'fn, 'q, 'z, bool) sprog" where
  "UfsrvSchedulerIsWorkerThread scheduler_ptr =
     (case scheduler_ptr of
        None \<Rightarrow> ret False
      | Some sch \<Rightarrow>
          bindm (scheduler_at sch) (\<lambda>c.
          if \<not> sch_is_worker_id_ready c then ret False
          else gets (\<lambda>s. cur_thread s = sch_worker_id c)))"

definition UfsrvSchedulerIsOnWorkerThread :: "('u, 'fn, 'q, 'z, bool) sprog" where
  "UfsrvSchedulerIsOnWorkerThread = gets (\<lambda>s. t_worker_scheduler s (cur_thread s) \<noteq> NULL)"

end
