(* ===== verification/Scheduler_Conc.thy ===== *)
theory Scheduler_Conc
  imports Scheduler Simulation "HOL-Library.Sublist"
begin

text \<open>
  The scheduler under concurrency: the worker thread, any number of submitting threads and a
  stopping thread, interleaved at their atomic actions.  \<open>sched_exec\<close> runs one action of
  one thread with the definitions of the code; an interleaving is a list of actions.  It is
  shown to refine an abstract machine over a plain list of jobs, on which the invariants are
  proved: jobs run in insertion order and at most once, no wake-up is lost, and a job inserted
  before the stop has run when the worker returns.
\<close>

section \<open>Interleaving the code\<close>

text \<open>
  Where a submitting thread is: outside, with an allocated job, past the test of
  \<^verbatim>\<open>is_running\<close>, past the insertion, or returned with an answer.
\<close>

datatype sub_pc = S_idle | S_prepared addr | S_checked addr | S_inserted addr | S_done bool

record ('u, 'fn, 'q) sched_conf =
  cf_sys :: "('u, 'fn, 'q) sched_sys"
  cf_sub :: "nat \<Rightarrow> sub_pc"
  cf_stop :: bool

datatype 'fn sched_act =
    A_worker bool
  | A_prepare nat 'fn ptr
  | A_check nat
  | A_insert nat
  | A_wake nat
  | A_return nat
  | A_stop_store
  | A_stop_wake

text \<open>
  One action on scheduler \<open>sch\<close> with worker thread \<open>tid\<close>.  An action of a thread that is
  not at the right program point leaves the configuration as it is.  The flag of a worker
  action says whether a signal interrupts its \<open>read\<close>; a blocking read of an open eventfd
  fails in no other way.
\<close>

fun sched_exec ::
  "'q mpsc_ops \<Rightarrow> ('fn \<Rightarrow> ptr \<Rightarrow> 'u \<Rightarrow> 'u) \<Rightarrow> addr \<Rightarrow> nat \<Rightarrow> 'fn sched_act \<Rightarrow> ('u, 'fn, 'q) sched_conf \<Rightarrow>
   fault + ('u, 'fn, 'q) sched_conf" where
  "sched_exec Q cbu sch tid (A_worker intr) C =
     (case sWorkerMain_step Q (passive_call cbu) (if intr then Read_EINTR else Read_value) sch tid (cf_sys C) of
        Inl e \<Rightarrow> Inl e | Inr (moved, s) \<Rightarrow> Inr (C\<lparr>cf_sys := s\<rparr>))"
| "sched_exec Q cbu sch tid (A_prepare i f x) C =
     (if cf_sub C i = S_idle then
        (case submit_prepare (Some f) x (cf_sys C) of
           Inl e \<Rightarrow> Inl e
         | Inr (p, s) \<Rightarrow>
             Inr (C\<lparr>cf_sys := s, cf_sub := (cf_sub C)(i := (case p of None \<Rightarrow> S_done False | Some job \<Rightarrow> S_prepared job))\<rparr>))
      else Inr C)"
| "sched_exec Q cbu sch tid (A_check i) C =
     (case cf_sub C i of
        S_prepared job \<Rightarrow>
          (case submit_check sch job (cf_sys C) of
             Inl e \<Rightarrow> Inl e
           | Inr (b, s) \<Rightarrow>
               Inr (C\<lparr>cf_sys := s, cf_sub := (cf_sub C)(i := (if b then S_checked job else S_done False))\<rparr>))
      | _ \<Rightarrow> Inr C)"
| "sched_exec Q cbu sch tid (A_insert i) C =
     (case cf_sub C i of
        S_checked job \<Rightarrow>
          (case submit_insert Q sch job (cf_sys C) of
             Inl e \<Rightarrow> Inl e
           | Inr (_, s) \<Rightarrow> Inr (C\<lparr>cf_sys := s, cf_sub := (cf_sub C)(i := S_inserted job)\<rparr>))
      | _ \<Rightarrow> Inr C)"
| "sched_exec Q cbu sch tid (A_wake i) C =
     (case cf_sub C i of
        S_inserted job \<Rightarrow>
          (case wake_worker sch (cf_sys C) of
             Inl e \<Rightarrow> Inl e
           | Inr (_, s) \<Rightarrow> Inr (C\<lparr>cf_sys := s, cf_sub := (cf_sub C)(i := S_done True)\<rparr>))
      | _ \<Rightarrow> Inr C)"
| "sched_exec Q cbu sch tid (A_return i) C =
     (case cf_sub C i of S_done b \<Rightarrow> Inr (C\<lparr>cf_sub := (cf_sub C)(i := S_idle)\<rparr>) | _ \<Rightarrow> Inr C)"
| "sched_exec Q cbu sch tid A_stop_store C =
     (case stop_store sch (cf_sys C) of
        Inl e \<Rightarrow> Inl e | Inr (_, s) \<Rightarrow> Inr (C\<lparr>cf_sys := s, cf_stop := True\<rparr>))"
| "sched_exec Q cbu sch tid A_stop_wake C =
     (if cf_stop C then
        (case wake_worker sch (cf_sys C) of
           Inl e \<Rightarrow> Inl e | Inr (_, s) \<Rightarrow> Inr (C\<lparr>cf_sys := s, cf_stop := False\<rparr>))
      else Inr C)"

fun sched_run ::
  "'q mpsc_ops \<Rightarrow> ('fn \<Rightarrow> ptr \<Rightarrow> 'u \<Rightarrow> 'u) \<Rightarrow> addr \<Rightarrow> nat \<Rightarrow> 'fn sched_act list \<Rightarrow> ('u, 'fn, 'q) sched_conf \<Rightarrow>
   fault + ('u, 'fn, 'q) sched_conf" where
  "sched_run Q cbu sch tid [] C = Inr C"
| "sched_run Q cbu sch tid (a # as) C =
     (case sched_exec Q cbu sch tid a C of Inl e \<Rightarrow> Inl e | Inr C' \<Rightarrow> sched_run Q cbu sch tid as C')"

section \<open>The abstract machine\<close>

text \<open>
  \<open>a_ins\<close> is the history of insertions, \<open>a_ran\<close> of jobs that ran; \<open>a_mark\<close> is the
  number of insertions at the first stop.
\<close>

record sched_abs =
  a_run :: bool
  a_q :: "addr list"
  a_ev :: nat
  a_pc :: worker_pc
  a_sub :: "nat \<Rightarrow> sub_pc"
  a_stop :: bool
  a_jobs :: "addr set"
  a_ins :: "addr list"
  a_ran :: "addr list"
  a_mark :: "nat option"

definition a_take :: "worker_pc \<Rightarrow> sched_abs \<Rightarrow> sched_abs" where
  "a_take pc A = A\<lparr>a_q := tl (a_q A), a_ran := a_ran A @ [hd (a_q A)], a_jobs := a_jobs A - {hd (a_q A)}, a_pc := pc\<rparr>"

inductive a_step :: "sched_abs \<Rightarrow> sched_abs \<Rightarrow> bool" where
  a_entry: "a_pc A = W_entry \<Longrightarrow> a_step A (A\<lparr>a_pc := W_while\<rparr>)"
| a_while: "a_pc A = W_while \<Longrightarrow> a_step A (A\<lparr>a_pc := (if a_run A then W_pop else W_drain)\<rparr>)"
| a_pop: "a_pc A = W_pop \<Longrightarrow> a_q A \<noteq> [] \<Longrightarrow> a_step A (a_take W_while A)"
| a_empty: "a_pc A = W_pop \<Longrightarrow> a_q A = [] \<Longrightarrow> a_step A (A\<lparr>a_pc := W_recheck\<rparr>)"
| a_recheck: "a_pc A = W_recheck \<Longrightarrow> a_step A (A\<lparr>a_pc := (if a_run A then W_read else W_drain)\<rparr>)"
| a_read: "a_pc A = W_read \<Longrightarrow> 0 < a_ev A \<Longrightarrow> a_step A (A\<lparr>a_ev := 0, a_pc := W_while\<rparr>)"
| a_eintr: "a_pc A = W_read \<Longrightarrow> a_step A (A\<lparr>a_pc := W_while\<rparr>)"
| a_drain: "a_pc A = W_drain \<Longrightarrow> a_q A \<noteq> [] \<Longrightarrow> a_step A (a_take W_drain A)"
| a_exit: "a_pc A = W_drain \<Longrightarrow> a_q A = [] \<Longrightarrow> a_step A (A\<lparr>a_pc := W_exit\<rparr>)"
| a_prepare: "a_sub A i = S_idle \<Longrightarrow> j \<notin> a_jobs A \<Longrightarrow> j \<notin> set (a_ins A) \<Longrightarrow>
    a_step A (A\<lparr>a_sub := (a_sub A)(i := S_prepared j), a_jobs := insert j (a_jobs A)\<rparr>)"
| a_oom: "a_sub A i = S_idle \<Longrightarrow> a_step A (A\<lparr>a_sub := (a_sub A)(i := S_done False)\<rparr>)"
| a_check: "a_sub A i = S_prepared j \<Longrightarrow> a_run A \<Longrightarrow> a_step A (A\<lparr>a_sub := (a_sub A)(i := S_checked j)\<rparr>)"
| a_refuse: "a_sub A i = S_prepared j \<Longrightarrow> \<not> a_run A \<Longrightarrow>
    a_step A (A\<lparr>a_sub := (a_sub A)(i := S_done False), a_jobs := a_jobs A - {j}\<rparr>)"
| a_insert: "a_sub A i = S_checked j \<Longrightarrow>
    a_step A (A\<lparr>a_sub := (a_sub A)(i := S_inserted j), a_q := a_q A @ [j], a_ins := a_ins A @ [j]\<rparr>)"
| a_wake: "a_sub A i = S_inserted j \<Longrightarrow>
    a_step A (A\<lparr>a_sub := (a_sub A)(i := S_done True), a_ev := a_ev A + 1\<rparr>)"
| a_return: "a_sub A i = S_done b \<Longrightarrow> a_step A (A\<lparr>a_sub := (a_sub A)(i := S_idle)\<rparr>)"
| a_store: "a_step A (A\<lparr>a_run := False, a_stop := True,
    a_mark := (case a_mark A of None \<Rightarrow> Some (length (a_ins A)) | Some m \<Rightarrow> Some m)\<rparr>)"
| a_wake_stop: "a_stop A \<Longrightarrow> a_step A (A\<lparr>a_stop := False, a_ev := a_ev A + 1\<rparr>)"

inductive_cases a_stepE: "a_step A B"

section \<open>Invariants\<close>

text \<open>The job a submitting thread owns before it has inserted it.\<close>

fun holds :: "sub_pc \<Rightarrow> addr option" where
  "holds (S_prepared j) = Some j"
| "holds (S_checked j) = Some j"
| "holds _ = None"

text \<open>Insertion order is execution order; every queued or held job is allocated and distinct.\<close>

definition jobs_inv :: "sched_abs \<Rightarrow> bool" where
  "jobs_inv A \<longleftrightarrow>
     a_ins A = a_ran A @ a_q A \<and> distinct (a_ins A) \<and> set (a_q A) \<subseteq> a_jobs A \<and>
     (\<forall>i j. holds (a_sub A i) = Some j \<longrightarrow> j \<in> a_jobs A \<and> j \<notin> set (a_ins A)) \<and>
     (\<forall>i i' j. holds (a_sub A i) = Some j \<and> holds (a_sub A i') = Some j \<longrightarrow> i = i')"

text \<open>
  No lost wake-up: when the worker has seen an empty queue and there is work, or a stop it has
  not seen, then the eventfd is signalled or a thread is about to signal it.
\<close>

definition wake_inv :: "sched_abs \<Rightarrow> bool" where
  "wake_inv A \<longleftrightarrow>
     (a_pc A \<in> {W_recheck, W_read} \<and> a_q A \<noteq> [] \<or> a_pc A = W_read \<and> \<not> a_run A \<longrightarrow>
        0 < a_ev A \<or> a_stop A \<or> (\<exists>i j. a_sub A i = S_inserted j))"

text \<open>The final drain: everything inserted before the stop has run when the worker returns.\<close>

definition stop_inv :: "sched_abs \<Rightarrow> bool" where
  "stop_inv A \<longleftrightarrow>
     (a_run A \<longleftrightarrow> a_mark A = None) \<and>
     (\<forall>m. a_mark A = Some m \<longrightarrow> m \<le> length (a_ins A)) \<and>
     (a_pc A \<in> {W_drain, W_exit} \<longrightarrow> \<not> a_run A) \<and>
     (\<forall>m. a_pc A = W_exit \<and> a_mark A = Some m \<longrightarrow> m \<le> length (a_ran A))"

lemma jobs_inv_take:
  assumes "jobs_inv A" and "a_q A \<noteq> []"
  shows "jobs_inv (a_take pc A)"
proof (cases "a_q A")
  case (Cons j js)
  have "holds (a_sub A i) \<noteq> Some j" for i using assms(1) Cons by (force simp: jobs_inv_def)
  then show ?thesis using assms(1) Cons by (auto simp: jobs_inv_def a_take_def)
qed (use assms in simp)

text \<open>A step that touches no job.\<close>

lemma jobs_inv_same:
  assumes "jobs_inv A" and "a_ins B = a_ins A" and "a_ran B = a_ran A" and "a_q B = a_q A"
    and "a_jobs B = a_jobs A" and "\<And>i j. holds (a_sub B i) = Some j \<Longrightarrow> holds (a_sub A i) = Some j"
  shows "jobs_inv B"
  using assms(1) unfolding jobs_inv_def assms(2-5) using assms(6) by blast

lemma jobs_inv_step: "a_step A B \<Longrightarrow> jobs_inv A \<Longrightarrow> jobs_inv B"
proof (induction rule: a_step.induct)
  case (a_prepare A i j)
  then have "holds (a_sub A i') \<noteq> Some j" for i' by (auto simp: jobs_inv_def)
  with a_prepare show ?case by (auto simp: jobs_inv_def)
next
  case (a_refuse A i j)
  then have "holds (a_sub A i') = Some j \<Longrightarrow> i' = i" for i'
    unfolding jobs_inv_def by (metis holds.simps(1))
  moreover from a_refuse have "holds (a_sub A i) = Some j" by simp
  then have "j \<notin> set (a_ins A)" using a_refuse(3) unfolding jobs_inv_def by blast
  ultimately show ?case using a_refuse by (auto simp: jobs_inv_def)
next
  case (a_insert A i j)
  then have "holds (a_sub A i') = Some j \<Longrightarrow> i' = i" for i'
    unfolding jobs_inv_def by (metis holds.simps(2))
  moreover from a_insert have "holds (a_sub A i) = Some j" by simp
  then have "j \<notin> set (a_ins A) \<and> j \<in> a_jobs A" using a_insert(2) unfolding jobs_inv_def by blast
  ultimately show ?case using a_insert by (auto simp: jobs_inv_def)
qed (erule jobs_inv_take jobs_inv_same; simp split: if_splits)+

lemma wake_inv_step: "a_step A B \<Longrightarrow> wake_inv A \<Longrightarrow> wake_inv B"
proof (induction rule: a_step.induct)
  case (a_insert A i j)
  then show ?case by (auto simp: wake_inv_def)
next
  case (a_prepare A i j)
  then show ?case by (simp add: wake_inv_def) (metis sub_pc.distinct(5))
next
  case (a_oom A i)
  then show ?case by (simp add: wake_inv_def) (metis sub_pc.distinct(5))
next
  case (a_check A i j)
  then show ?case by (simp add: wake_inv_def) (metis sub_pc.distinct(11))
next
  case (a_refuse A i j)
  then show ?case by (simp add: wake_inv_def) (metis sub_pc.distinct(11))
next
  case (a_return A i b)
  then show ?case by (simp add: wake_inv_def) (metis sub_pc.distinct(19))
qed (auto simp: wake_inv_def a_take_def)

lemma stop_inv_step: "a_step A B \<Longrightarrow> jobs_inv A \<Longrightarrow> stop_inv A \<Longrightarrow> stop_inv B"
  by (induction rule: a_step.induct) (auto simp: stop_inv_def jobs_inv_def a_take_def split: option.splits)

section \<open>The code refines the abstract machine\<close>

definition sched_rel ::
  "('q \<Rightarrow> addr list) \<Rightarrow> addr \<Rightarrow> nat \<Rightarrow> ('u, 'fn, 'q) sched_conf \<Rightarrow> sched_abs \<Rightarrow> bool" where
  "sched_rel jobs_of sch tid C A \<longleftrightarrow>
     (\<exists>c. schedulers (cf_sys C) sch = Some c \<and> sch_is_running c = a_run A \<and> jobs_of (sch_queue c) = a_q A \<and>
          eventfds (cf_sys C) (sch_event_fd c) = Some (a_ev A)) \<and>
     threads (cf_sys C) tid = Some (a_pc A) \<and> a_jobs A = dom (sched_jobs (cf_sys C)) \<and>
     cf_sub C = a_sub A \<and> cf_stop C = a_stop A \<and>
     (\<forall>j\<in>a_jobs A \<union> set (a_ins A). j < next_addr (cf_sys C))"

lemma mpsc_fifoD:
  assumes "mpsc_fifo Q jobs_of"
  shows "jobs_of (mpsc_queue_init Q) = []"
    and "jobs_of (mpsc_queue_insert Q a q) = jobs_of q @ [a]"
    and "jobs_of q = [] \<Longrightarrow> fst (mpsc_queue_pop Q q) = None \<and> jobs_of (snd (mpsc_queue_pop Q q)) = []"
    and "jobs_of q = a # as \<Longrightarrow> fst (mpsc_queue_pop Q q) = Some a \<and> jobs_of (snd (mpsc_queue_pop Q q)) = as"
  using assms by (auto simp: mpsc_fifo_def)

text \<open>What running a job does to the application's state.\<close>

definition job_user :: "('fn \<Rightarrow> ptr \<Rightarrow> 'u \<Rightarrow> 'u) \<Rightarrow> 'fn UfsrvSchedulerJob \<Rightarrow> 'u \<Rightarrow> 'u" where
  "job_user cbu d u = (case job_callback d of None \<Rightarrow> u | Some f \<Rightarrow> cbu f (job_callback_context d) u)"

text \<open>Running a job frees it and changes nothing else of the scheduler.\<close>

lemma sRunJob_effect:
  assumes "sched_jobs s job = Some j"
  shows "sRunJob (passive_call cbu) job s =
    Inr ((), s\<lparr>user := job_user cbu j (user s),
              sched_jobs := (sched_jobs s)(job := None)\<rparr>)"
  using assms by (cases "job_callback j") (simp_all add: sRunJob_def job_user_def)

definition sched_sim ::
  "'q mpsc_ops \<Rightarrow> ('q \<Rightarrow> addr list) \<Rightarrow> ('fn \<Rightarrow> ptr \<Rightarrow> 'u \<Rightarrow> 'u) \<Rightarrow> addr \<Rightarrow> nat \<Rightarrow> 'fn sched_act \<Rightarrow>
   ('u, 'fn, 'q) sched_conf \<Rightarrow> sched_abs \<Rightarrow> bool" where
  "sched_sim Q jobs_of cbu sch tid a C A \<longleftrightarrow>
     (\<exists>C' A'. sched_exec Q cbu sch tid a C = Inr C' \<and> (a_step A A' \<or> A' = A) \<and> sched_rel jobs_of sch tid C' A')"

lemma sched_simI:
  "sched_exec Q cbu sch tid a C = Inr C' \<Longrightarrow> a_step A A' \<or> A' = A \<Longrightarrow> sched_rel jobs_of sch tid C' A' \<Longrightarrow>
   sched_sim Q jobs_of cbu sch tid a C A"
  by (auto simp: sched_sim_def)

lemma sim_pop:
  assumes fifo: "mpsc_fifo Q jobs_of" and rel: "sched_rel jobs_of sch tid C A" and inv: "jobs_inv A"
    and pc: "a_pc A = W_pop \<and> pc' = W_while \<or> a_pc A = W_drain \<and> pc' = W_drain" and q: "a_q A \<noteq> []"
  shows "sched_sim Q jobs_of cbu sch tid (A_worker intr) C A"
proof -
  from rel obtain c where c: "schedulers (cf_sys C) sch = Some c" "jobs_of (sch_queue c) = a_q A"
    by (auto simp: sched_rel_def)
  from q obtain j js where js: "a_q A = j # js" by (cases "a_q A") auto
  note pop = mpsc_fifoD(4) [OF fifo, of "sch_queue c" j js, unfolded c(2), OF js]
  have "j \<in> dom (sched_jobs (cf_sys C))" using rel inv js by (auto simp: sched_rel_def jobs_inv_def)
  then obtain d where d: "sched_jobs (cf_sys C) j = Some d" by auto
  have thr: "threads (cf_sys C) tid = Some (a_pc A)" using rel by (simp add: sched_rel_def)
  let ?s = "(cf_sys C)\<lparr>schedulers := (schedulers (cf_sys C))(sch \<mapsto> c\<lparr>sch_queue := snd (mpsc_queue_pop Q (sch_queue c))\<rparr>),
      user := job_user cbu d (user (cf_sys C)),
      sched_jobs := (sched_jobs (cf_sys C))(j := None), threads := (threads (cf_sys C))(tid \<mapsto> pc')\<rparr>"
  have keep: "(threads (cf_sys C))(tid \<mapsto> W_drain) = threads (cf_sys C)" if "a_pc A = W_drain"
    using thr that by auto
  have run: "sched_exec Q cbu sch tid (A_worker intr) C = Inr (C\<lparr>cf_sys := ?s\<rparr>)"
    using pc c(1) thr pop d keep
    by (auto simp: sWorkerMain_step_def queue_pop_def goto_def sRunJob_effect [where j = d])
  have "a_step A (a_take pc' A)" using pc q by (auto intro: a_step.intros)
  moreover have "sched_rel jobs_of sch tid (C\<lparr>cf_sys := ?s\<rparr>) (a_take pc' A)"
    using rel c(1) pop js by (auto simp: sched_rel_def a_take_def)
  ultimately show ?thesis by (blast intro: sched_simI [OF run])
qed

lemma sim_worker:
  assumes fifo: "mpsc_fifo Q jobs_of" and rel: "sched_rel jobs_of sch tid C A" and inv: "jobs_inv A"
  shows "sched_sim Q jobs_of cbu sch tid (A_worker intr) C A"
proof -
  from rel obtain c where c: "schedulers (cf_sys C) sch = Some c" "jobs_of (sch_queue c) = a_q A"
      "sch_is_running c = a_run A" "eventfds (cf_sys C) (sch_event_fd c) = Some (a_ev A)"
    and thr: "threads (cf_sys C) tid = Some (a_pc A)"
    by (auto simp: sched_rel_def)
  note code = sWorkerMain_step_def queue_pop_def goto_def c thr
  note rl = rel [unfolded sched_rel_def]
  show ?thesis
  proof (cases "a_pc A")
    case W_entry
    show ?thesis by (rule sched_simI [OF _ disjI1 [OF a_entry [OF W_entry]]])
      (simp add: code W_entry, use rl c in \<open>simp add: sched_rel_def\<close>)
  next
    case W_while
    show ?thesis by (rule sched_simI [OF _ disjI1 [OF a_while [OF W_while]]])
      (simp add: code W_while, use rl c in \<open>simp add: sched_rel_def\<close>)
  next
    case W_pop
    show ?thesis
    proof (cases "a_q A = []")
      case True
      note pop = mpsc_fifoD(3) [OF fifo, of "sch_queue c", unfolded c(2), OF True]
      show ?thesis by (rule sched_simI [OF _ disjI1 [OF a_empty [OF W_pop True]]])
        (simp add: code W_pop True pop, use rl c pop True in \<open>simp add: sched_rel_def\<close>)
    qed (use sim_pop [OF fifo rel inv] W_pop in blast)
  next
    case W_recheck
    show ?thesis by (rule sched_simI [OF _ disjI1 [OF a_recheck [OF W_recheck]]])
      (simp add: code W_recheck, use rl c in \<open>simp add: sched_rel_def\<close>)
  next
    case W_read
    show ?thesis
    proof (cases intr)
      case True
      show ?thesis by (rule sched_simI [OF _ disjI1 [OF a_eintr [OF W_read]]])
        (simp add: code W_read True, use rl c in \<open>simp add: sched_rel_def\<close>)
    next
      case quiet: False
      show ?thesis
      proof (cases "a_ev A = 0")
        case True
        show ?thesis by (rule sched_simI [OF _ disjI2 [OF refl]])
          (simp add: code W_read quiet True, use rl c in \<open>simp add: sched_rel_def\<close>)
      next
        case False
        then have "0 < a_ev A" by simp
        show ?thesis by (rule sched_simI [OF _ disjI1 [OF a_read [OF W_read \<open>0 < a_ev A\<close>]]])
          (simp add: code W_read quiet False, use rl c in \<open>simp add: sched_rel_def\<close>)
      qed
    qed
  next
    case W_drain
    show ?thesis
    proof (cases "a_q A = []")
      case True
      note pop = mpsc_fifoD(3) [OF fifo, of "sch_queue c", unfolded c(2), OF True]
      show ?thesis by (rule sched_simI [OF _ disjI1 [OF a_exit [OF W_drain True]]])
        (simp add: code W_drain True pop, use rl c pop True in \<open>simp add: sched_rel_def\<close>)
    qed (use sim_pop [OF fifo rel inv] W_drain in blast)
  next
    case W_exit
    show ?thesis by (rule sched_simI [OF _ disjI2 [OF refl]])
      (simp add: code W_exit, use rl c in \<open>simp add: sched_rel_def\<close>)
  qed
qed

lemma sim_submit:
  assumes fifo: "mpsc_fifo Q jobs_of" and rel: "sched_rel jobs_of sch tid C A" and inv: "jobs_inv A"
  shows "sched_sim Q jobs_of cbu sch tid (A_prepare i f x) C A"
    and "sched_sim Q jobs_of cbu sch tid (A_check i) C A"
    and "sched_sim Q jobs_of cbu sch tid (A_insert i) C A"
    and "sched_sim Q jobs_of cbu sch tid (A_wake i) C A"
    and "sched_sim Q jobs_of cbu sch tid (A_return i) C A"
proof -
  from rel obtain c where c: "schedulers (cf_sys C) sch = Some c" "jobs_of (sch_queue c) = a_q A"
      "sch_is_running c = a_run A" "eventfds (cf_sys C) (sch_event_fd c) = Some (a_ev A)"
    by (auto simp: sched_rel_def)
  have sub: "cf_sub C = a_sub A" using rel by (simp add: sched_rel_def)
  note rl = rel [unfolded sched_rel_def]
  note code = submit_prepare_def submit_check_def submit_insert_def wake_worker_def eventfd_write_def c sub
  have stay: "sched_exec Q cbu sch tid a C = Inr C \<Longrightarrow> sched_sim Q jobs_of cbu sch tid a C A" for a
    by (rule sched_simI [OF _ disjI2 [OF refl] rel])
  show "sched_sim Q jobs_of cbu sch tid (A_prepare i f x) C A"
  proof (cases "a_sub A i = S_idle")
    case idle: True
    have fresh: "next_addr (cf_sys C) \<notin> a_jobs A" "next_addr (cf_sys C) \<notin> set (a_ins A)" using rl by auto
    show ?thesis
    proof (cases "sys_ok (cf_sys C) (next_addr (cf_sys C))")
      case True
      show ?thesis by (rule sched_simI [OF _ disjI1 [OF a_prepare [OF idle fresh]]])
        (simp add: code idle True, use rl c in \<open>auto simp: sched_rel_def less_Suc_eq\<close>)
    next
      case False
      show ?thesis by (rule sched_simI [OF _ disjI1 [OF a_oom [OF idle]]])
        (simp add: code idle False, use rl c in \<open>auto simp: sched_rel_def less_Suc_eq\<close>)
    qed
  qed (simp add: stay code)
  show "sched_sim Q jobs_of cbu sch tid (A_check i) C A"
  proof (cases "a_sub A i")
    case j: (S_prepared j)
    then have "holds (a_sub A i) = Some j" by simp
    then have "j \<in> dom (sched_jobs (cf_sys C))" using inv rl unfolding jobs_inv_def by metis
    then obtain d where d: "sched_jobs (cf_sys C) j = Some d" by auto
    show ?thesis
    proof (cases "a_run A")
      case True
      show ?thesis by (rule sched_simI [OF _ disjI1 [OF a_check [OF j True]]])
        (simp add: code j True, use rl c in \<open>simp add: sched_rel_def True\<close>)
    next
      case False
      show ?thesis by (rule sched_simI [OF _ disjI1 [OF a_refuse [OF j False]]])
        (simp add: code j False d, use rl c in \<open>auto simp: sched_rel_def\<close>)
    qed
  qed (simp_all add: stay code)
  show "sched_sim Q jobs_of cbu sch tid (A_insert i) C A"
  proof (cases "a_sub A i")
    case j: (S_checked j)
    then have "holds (a_sub A i) = Some j" by simp
    then have "j \<in> a_jobs A" using inv unfolding jobs_inv_def by metis
    then have "j < next_addr (cf_sys C)" using rl by blast
    then show ?thesis by (intro sched_simI [OF _ disjI1 [OF a_insert [OF j]]])
      (simp add: code j, use rl c mpsc_fifoD(2) [OF fifo] in \<open>auto simp: sched_rel_def\<close>)
  qed (simp_all add: stay code)
  show "sched_sim Q jobs_of cbu sch tid (A_wake i) C A"
  proof (cases "a_sub A i")
    case j: (S_inserted j)
    show ?thesis by (rule sched_simI [OF _ disjI1 [OF a_wake [OF j]]])
      (simp add: code j, use rl c in \<open>simp add: sched_rel_def\<close>)
  qed (simp_all add: stay code)
  show "sched_sim Q jobs_of cbu sch tid (A_return i) C A"
  proof (cases "a_sub A i")
    case j: (S_done b)
    show ?thesis by (rule sched_simI [OF _ disjI1 [OF a_return [OF j]]])
      (simp add: code j, use rl c in \<open>simp add: sched_rel_def\<close>)
  qed (simp_all add: stay code)
qed

lemma sim_stop:
  assumes rel: "sched_rel jobs_of sch tid C A"
  shows "sched_sim Q jobs_of cbu sch tid A_stop_store C A"
    and "sched_sim Q jobs_of cbu sch tid A_stop_wake C A"
proof -
  from rel obtain c where c: "schedulers (cf_sys C) sch = Some c" "jobs_of (sch_queue c) = a_q A"
      "sch_is_running c = a_run A" "eventfds (cf_sys C) (sch_event_fd c) = Some (a_ev A)"
    by (auto simp: sched_rel_def)
  have stop: "cf_stop C = a_stop A" using rel by (simp add: sched_rel_def)
  note rl = rel [unfolded sched_rel_def]
  note code = stop_store_def wake_worker_def eventfd_write_def c stop
  show "sched_sim Q jobs_of cbu sch tid A_stop_store C A"
    by (rule sched_simI [OF _ disjI1 [OF a_store]])
      (simp add: code, use rl c in \<open>simp add: sched_rel_def\<close>)
  show "sched_sim Q jobs_of cbu sch tid A_stop_wake C A"
  proof (cases "a_stop A")
    case True
    show ?thesis by (rule sched_simI [OF _ disjI1 [OF a_wake_stop [OF True]]])
      (simp add: code True, use rl c in \<open>simp add: sched_rel_def\<close>)
  next
    case False
    show ?thesis by (rule sched_simI [OF _ disjI2 [OF refl] rel]) (simp add: code False)
  qed
qed

definition sched_inv :: "sched_abs \<Rightarrow> bool" where
  "sched_inv A \<longleftrightarrow> jobs_inv A \<and> wake_inv A \<and> stop_inv A"

interpretation ss: simulation "sched_exec Q cbu sch tid" a_step "\<lambda>C A. mpsc_fifo Q jobs_of \<and> sched_rel jobs_of sch tid C A" sched_inv
  for Q :: "'q mpsc_ops" and cbu :: "'fn \<Rightarrow> ptr \<Rightarrow> 'u \<Rightarrow> 'u" and sch tid jobs_of
proof
  fix C :: "('u, 'fn, 'q) sched_conf" and A a
  assume rel: "mpsc_fifo Q jobs_of \<and> sched_rel jobs_of sch tid C A" and "sched_inv A"
  then have "sched_sim Q jobs_of cbu sch tid a C A"
    using sim_worker [of Q jobs_of] sim_submit [of Q jobs_of] sim_stop
    by (cases a) (auto simp: sched_inv_def)
  with rel show "\<exists>C' A'. sched_exec Q cbu sch tid a C = Inr C' \<and> (a_step A A' \<or> A' = A) \<and>
      mpsc_fifo Q jobs_of \<and> sched_rel jobs_of sch tid C' A'"
    unfolding sched_sim_def by blast
qed (auto simp: sched_inv_def intro: jobs_inv_step wake_inv_step stop_inv_step)

lemmas sched_inv_steps = ss.inv_steps

lemma sched_run_actions: "sched_run Q cbu sch tid as C = run_actions (sched_exec Q cbu sch tid) as C"
  by (induction as arbitrary: C) (simp_all split: sum.split)

lemma sched_run_sim:
  assumes "mpsc_fifo Q jobs_of" and "sched_rel jobs_of sch tid C A" and "sched_inv A"
  shows "\<exists>C' A'. sched_run Q cbu sch tid as C = Inr C' \<and> a_step\<^sup>*\<^sup>* A A' \<and> sched_rel jobs_of sch tid C' A'"
  using ss.run_sim [OF conjI [OF assms(1,2)] assms(3), of cbu as] unfolding sched_run_actions by blast

text \<open>What the abstract machine never undoes.\<close>

lemma a_step_mark: "a_step A B \<Longrightarrow> a_mark A = Some m \<Longrightarrow> a_mark B = Some m"
  by (erule a_stepE) (auto simp: a_take_def)

lemma a_steps_mark: "a_step\<^sup>*\<^sup>* A B \<Longrightarrow> a_mark A = Some m \<Longrightarrow> a_mark B = Some m"
  by (induction rule: rtranclp_induct) (auto dest: a_step_mark)

lemma a_step_ins: "a_step A B \<Longrightarrow> prefix (a_ins A) (a_ins B)"
  by (erule a_stepE) (auto simp: a_take_def)

lemma a_steps_ins: "a_step\<^sup>*\<^sup>* A B \<Longrightarrow> prefix (a_ins A) (a_ins B)"
  by (induction rule: rtranclp_induct) (auto dest: a_step_ins prefix_order.trans)

text \<open>Once the worker has returned after a stop, the insertions made before the stop have run.\<close>

lemma exit_ran:
  assumes steps: "a_step\<^sup>*\<^sup>* A B" and "sched_inv B" and "a_mark A = Some (length (a_ins A))" and "a_pc B = W_exit"
  shows "prefix (a_ins A) (a_ran B)"
proof -
  have "length (a_ins A) \<le> length (a_ran B)"
    using assms(2,4) a_steps_mark [OF steps assms(3)] by (simp add: sched_inv_def stop_inv_def)
  moreover have "a_ins B = a_ran B @ a_q B" using assms(2) by (simp add: sched_inv_def jobs_inv_def)
  ultimately show ?thesis using a_steps_ins [OF steps] by (metis prefix_length_prefix prefixI)
qed

end
