(* ===== verification/Scheduler_Spec.thy ===== *)
theory Scheduler_Spec
  imports Scheduler_Conc
begin

text \<open>
  What the scheduler promises: the properties of every interleaving of submitters, a stopper
  and the worker, and the sequential behaviour of stopping, joining and destroying.
\<close>

section \<open>Starting up\<close>

definition sched_init :: "'u \<Rightarrow> (nat \<Rightarrow> bool) \<Rightarrow> ('u, 'fn, 'q) sched_sys" where
  "sched_init u ok = \<lparr>user = u, next_addr = 16, sys_ok = ok, tokens = Map.empty, callbacks = Map.empty,
     schedulers = Map.empty, sched_jobs = Map.empty, eventfds = Map.empty, threads = Map.empty,
     t_worker_scheduler = (\<lambda>_. NULL), cur_thread = 0\<rparr>"

text \<open>
  A scheduler that was created with a name and started, all of whose system calls succeeded
  (the scheduler is object 16, its eventfd 18, its worker thread 19); later ones may fail.
\<close>

definition sched_boot :: "'q mpsc_ops \<Rightarrow> string \<Rightarrow> 'u \<Rightarrow> (nat \<Rightarrow> bool) \<Rightarrow> ('u, 'fn, 'q) sched_conf" where
  "sched_boot Q name u ok =
     \<lparr>cf_sys = exec (bindm (UfsrvSchedulerCreate Q (Some name)) UfsrvSchedulerStart)
                 (sched_init u (\<lambda>n. n < 20 \<or> ok n)),
      cf_sub = (\<lambda>_. S_idle), cf_stop = False\<rparr>"

definition abs_boot :: sched_abs where
  "abs_boot = \<lparr>a_run = True, a_q = [], a_ev = 0, a_pc = W_entry, a_sub = (\<lambda>_. S_idle), a_stop = False,
     a_jobs = {}, a_ins = [], a_ran = [], a_mark = None\<rparr>"

lemma sched_boot_rel:
  "mpsc_fifo Q jobs_of \<Longrightarrow> sched_rel jobs_of 16 19 (sched_boot Q name u ok) abs_boot"
  by (simp add: sched_boot_def sched_init_def abs_boot_def sched_rel_def exec_def mpsc_fifoD
      UfsrvSchedulerCreate_def UfsrvSchedulerStart_def eventfd_def goto_def)

lemma abs_boot_inv: "sched_inv abs_boot"
  by (simp add: abs_boot_def sched_inv_def jobs_inv_def wake_inv_def stop_inv_def)

lemma boot_run_sim:
  assumes "mpsc_fifo Q jobs_of"
  shows "\<exists>C A. sched_run Q cbu 16 19 as (sched_boot Q name u ok) = Inr C \<and> a_step\<^sup>*\<^sup>* abs_boot A \<and>
    sched_rel jobs_of 16 19 C A \<and> sched_inv A"
  using sched_run_sim [OF assms sched_boot_rel [OF assms] abs_boot_inv]
  by (meson abs_boot_inv sched_inv_steps)

section \<open>Joining\<close>

text \<open>The jobs of a queue are allocated and distinct, and what running them does.\<close>

definition queued :: "('u, 'fn, 'q, 'z) sched_sys_scheme \<Rightarrow> addr list \<Rightarrow> bool" where
  "queued s js \<longleftrightarrow> distinct js \<and> set js \<subseteq> dom (sched_jobs s)"

definition run_jobs ::
  "('fn \<Rightarrow> ptr \<Rightarrow> 'u \<Rightarrow> 'u) \<Rightarrow> (addr \<rightharpoonup> 'fn UfsrvSchedulerJob) \<Rightarrow> addr list \<Rightarrow> 'u \<Rightarrow> 'u" where
  "run_jobs cbu m js = fold (\<lambda>j u. case m j of None \<Rightarrow> u | Some d \<Rightarrow> job_user cbu d u) js"

lemma run_jobs_upd: "j \<notin> set js \<Longrightarrow> run_jobs cbu (m(j := v)) js u = run_jobs cbu m js u"
  unfolding run_jobs_def by (rule fold_cong) auto

text \<open>
  A stopped worker that is not blocked for good reaches its end, wherever it is, and runs every
  queued job on the way.
\<close>

definition stoppable :: "('q \<Rightarrow> addr list) \<Rightarrow> addr \<Rightarrow> nat \<Rightarrow> ('u, 'fn, 'q, 'z) sched_sys_scheme \<Rightarrow> addr list \<Rightarrow> bool" where
  "stoppable jobs_of sch tid s js \<longleftrightarrow>
     (\<exists>c pc v. schedulers s sch = Some c \<and> \<not> sch_is_running c \<and> jobs_of (sch_queue c) = js \<and> queued s js \<and>
        threads s tid = Some pc \<and> pc \<noteq> W_exit \<and> eventfds s (sch_event_fd c) = Some v \<and> (pc = W_read \<longrightarrow> 0 < v))"

text \<open>What is left when it has returned.\<close>

definition drained ::
  "('fn \<Rightarrow> ptr \<Rightarrow> 'u \<Rightarrow> 'u) \<Rightarrow> ('q \<Rightarrow> addr list) \<Rightarrow> addr \<Rightarrow> nat \<Rightarrow> ('u, 'fn, 'q, 'z) sched_sys_scheme \<Rightarrow> addr list \<Rightarrow>
   ('u, 'fn, 'q, 'z) sched_sys_scheme \<Rightarrow> bool" where
  "drained cbu jobs_of sch tid s js s' \<longleftrightarrow>
     user s' = run_jobs cbu (sched_jobs s) js (user s) \<and> threads s' tid = Some W_exit \<and>
     sched_jobs s' = (\<lambda>j. if j \<in> set js then None else sched_jobs s j) \<and>
     (\<exists>c c'. schedulers s sch = Some c \<and> schedulers s' = (schedulers s)(sch \<mapsto> c') \<and> jobs_of (sch_queue c') = [] \<and>
        sch_event_fd c' = sch_event_fd c \<and> sch_is_running c' = sch_is_running c)"

text \<open>Running the first job, then draining the others.\<close>

lemma drained_Cons:
  assumes "schedulers s sch = Some c" and "sched_jobs s j = Some d" and "j \<notin> set js"
    and "drained cbu jobs_of sch tid (s\<lparr>schedulers := (schedulers s)(sch \<mapsto> c\<lparr>sch_queue := q\<rparr>),
           user := job_user cbu d (user s), sched_jobs := (sched_jobs s)(j := None), threads := T\<rparr>) js s'"
  shows "drained cbu jobs_of sch tid s (j # js) s'"
proof -
  have "run_jobs cbu ((sched_jobs s)(j := None)) js (job_user cbu d (user s)) = run_jobs cbu (sched_jobs s) (j # js) (user s)"
    using assms(2,3) by (simp add: run_jobs_upd) (simp add: run_jobs_def)
  moreover have "(\<lambda>i. if i \<in> set js then None else ((sched_jobs s)(j := None)) i) =
      (\<lambda>i. if i \<in> set (j # js) then None else sched_jobs s i)" by auto
  ultimately show ?thesis using assms by (auto simp: drained_def)
qed

text \<open>The final drain runs every queued job, in order, and ends the thread.\<close>

lemma drain_drained:
  assumes fifo: "mpsc_fifo Q jobs_of"
  shows "schedulers s sch = Some c \<Longrightarrow> jobs_of (sch_queue c) = js \<Longrightarrow> queued s js \<Longrightarrow>
    threads s tid = Some W_drain \<Longrightarrow> length js + 2 \<le> fuel \<Longrightarrow>
    \<exists>s'. pthread_join Q (passive_call cbu) fuel sch tid s = Inr ((), s') \<and> drained cbu jobs_of sch tid s js s'"
proof (induction js arbitrary: s c fuel)
  case Nil
  note pop = mpsc_fifoD(3) [OF fifo Nil.prems(2)]
  let ?c = "c\<lparr>sch_queue := snd (mpsc_queue_pop Q (sch_queue c))\<rparr>"
  let ?s = "s\<lparr>schedulers := (schedulers s)(sch \<mapsto> ?c),
      t_worker_scheduler := (t_worker_scheduler s)(tid := NULL), threads := (threads s)(tid \<mapsto> W_exit)\<rparr>"
  from Nil.prems(5) obtain n where "fuel = Suc (Suc n)" by (cases fuel; cases "fuel - 1") auto
  then have "pthread_join Q (passive_call cbu) fuel sch tid s = Inr ((), ?s)"
    using Nil.prems pop by (simp add: sWorkerMain_step_def queue_pop_def goto_def)
  moreover have "drained cbu jobs_of sch tid s [] ?s"
    using Nil.prems pop by (auto simp: drained_def run_jobs_def intro!: exI [of _ ?c])
  ultimately show ?case by blast
next
  case (Cons j js)
  note pop = mpsc_fifoD(4) [OF fifo Cons.prems(2)]
  from Cons.prems obtain n where fuel: "fuel = Suc n" by (cases fuel) auto
  from Cons.prems(3) obtain d where d: "sched_jobs s j = Some d" and j: "j \<notin> set js" by (auto simp: queued_def)
  let ?c = "c\<lparr>sch_queue := snd (mpsc_queue_pop Q (sch_queue c))\<rparr>"
  let ?s = "s\<lparr>schedulers := (schedulers s)(sch \<mapsto> ?c), user := job_user cbu d (user s),
      sched_jobs := (sched_jobs s)(j := None), threads := threads s\<rparr>"
  have run: "pthread_join Q (passive_call cbu) fuel sch tid s = pthread_join Q (passive_call cbu) n sch tid ?s"
    using Cons.prems pop d
    by (simp add: fuel sWorkerMain_step_def queue_pop_def sRunJob_effect [where j = d])
  have "schedulers ?s sch = Some ?c" and "jobs_of (sch_queue ?c) = js" and "queued ?s js"
    and "threads ?s tid = Some W_drain" and "length js + 2 \<le> n"
    using Cons.prems pop fuel by (simp_all add: queued_def) auto
  from Cons.IH [OF this] run drained_Cons [OF Cons.prems(1) d j] show ?case by metis
qed

text \<open>The first steps of a stopped worker lead to the drain; at most one of them runs a job.\<close>

lemma join_step:
  assumes "sWorkerMain_step Q call Read_value sch tid s = Inr (True, s1)" and "threads s tid = Some pc" and "pc \<noteq> W_exit"
  shows "pthread_join Q call (Suc fuel) sch tid s = pthread_join Q call fuel sch tid s1"
  using assms by simp

lemma join_while:
  assumes fifo: "mpsc_fifo Q jobs_of" and c: "schedulers s sch = Some c" "\<not> sch_is_running c" "jobs_of (sch_queue c) = js"
    and "queued s js" and "threads s tid = Some W_while" and "length js + 3 \<le> fuel"
  shows "\<exists>s'. pthread_join Q (passive_call cbu) fuel sch tid s = Inr ((), s') \<and> drained cbu jobs_of sch tid s js s'"
proof -
  from assms obtain n where fuel: "fuel = Suc n" and n: "length js + 2 \<le> n" by (cases fuel) auto
  let ?s = "s\<lparr>threads := (threads s)(tid \<mapsto> W_drain)\<rparr>"
  have "pthread_join Q (passive_call cbu) fuel sch tid s = pthread_join Q (passive_call cbu) n sch tid ?s"
    unfolding fuel by (rule join_step) (use assms in \<open>simp add: sWorkerMain_step_def goto_def\<close>)+
  moreover obtain s' where "pthread_join Q (passive_call cbu) n sch tid ?s = Inr ((), s')" "drained cbu jobs_of sch tid ?s js s'"
    using drain_drained [OF fifo, of ?s sch c js tid n cbu] assms n by (auto simp: queued_def)
  ultimately show ?thesis by (auto simp: drained_def)
qed

lemma join_effect:
  assumes fifo: "mpsc_fifo Q jobs_of" and st: "stoppable jobs_of sch tid s js" and fuel: "length js + 5 \<le> fuel"
  shows "\<exists>s'. pthread_join Q (passive_call cbu) fuel sch tid s = Inr ((), s') \<and> drained cbu jobs_of sch tid s js s'"
proof -
  from st obtain c pc v where c: "schedulers s sch = Some c" "\<not> sch_is_running c" "jobs_of (sch_queue c) = js"
    and q: "queued s js" and pc: "threads s tid = Some pc" "pc \<noteq> W_exit"
    and v: "eventfds s (sch_event_fd c) = Some v" "pc = W_read \<longrightarrow> 0 < v" by (auto simp: stoppable_def)
  from fuel obtain n where n: "fuel = Suc n" "length js + 4 \<le> n" by (cases fuel) auto
  then obtain m where m: "n = Suc m" "length js + 3 \<le> m" by (cases n) auto
  note code = sWorkerMain_step_def goto_def queue_pop_def c v
  show ?thesis
  proof (cases pc)
    case W_entry
    let ?c = "c\<lparr>sch_worker_id := tid, sch_is_worker_id_ready := True\<rparr>"
    let ?s = "s\<lparr>schedulers := (schedulers s)(sch \<mapsto> ?c),
        t_worker_scheduler := (t_worker_scheduler s)(tid := Some sch), threads := (threads s)(tid \<mapsto> W_while)\<rparr>"
    have "pthread_join Q (passive_call cbu) fuel sch tid s = pthread_join Q (passive_call cbu) n sch tid ?s"
      unfolding n(1) by (rule join_step) (use pc W_entry in \<open>simp add: code\<close>)+
    moreover obtain s' where "pthread_join Q (passive_call cbu) n sch tid ?s = Inr ((), s')" "drained cbu jobs_of sch tid ?s js s'"
      using join_while [OF fifo, of ?s sch ?c js tid n cbu] c q n by (auto simp: queued_def)
    ultimately show ?thesis using c by (auto simp: drained_def)
  next
    case W_while
    then show ?thesis using join_while [OF fifo c q _, of tid fuel cbu] pc n m by simp
  next
    case W_read
    then have "v \<noteq> 0" using v(2) by simp
    let ?s = "s\<lparr>eventfds := (eventfds s)(sch_event_fd c \<mapsto> 0), threads := (threads s)(tid \<mapsto> W_while)\<rparr>"
    have "pthread_join Q (passive_call cbu) fuel sch tid s = pthread_join Q (passive_call cbu) n sch tid ?s"
      unfolding n(1) by (rule join_step) (use pc W_read \<open>v \<noteq> 0\<close> in \<open>simp add: code\<close>)+
    moreover obtain s' where "pthread_join Q (passive_call cbu) n sch tid ?s = Inr ((), s')" "drained cbu jobs_of sch tid ?s js s'"
      using join_while [OF fifo, of ?s sch c js tid n cbu] c q n by (auto simp: queued_def)
    ultimately show ?thesis by (auto simp: drained_def)
  next
    case W_recheck
    let ?s = "s\<lparr>threads := (threads s)(tid \<mapsto> W_drain)\<rparr>"
    have "pthread_join Q (passive_call cbu) fuel sch tid s = pthread_join Q (passive_call cbu) n sch tid ?s"
      unfolding n(1) by (rule join_step) (use pc W_recheck in \<open>simp add: code\<close>)+
    moreover obtain s' where "pthread_join Q (passive_call cbu) n sch tid ?s = Inr ((), s')" "drained cbu jobs_of sch tid ?s js s'"
      using drain_drained [OF fifo, of ?s sch c js tid n cbu] c q n by (auto simp: queued_def)
    ultimately show ?thesis by (auto simp: drained_def)
  next
    case W_drain
    then show ?thesis using drain_drained [OF fifo c(1,3) q, of tid fuel cbu] pc n m by simp
  next
    case W_pop
    let ?c = "c\<lparr>sch_queue := snd (mpsc_queue_pop Q (sch_queue c))\<rparr>"
    show ?thesis
    proof (cases js)
      case Nil
      note pop = mpsc_fifoD(3) [OF fifo, of "sch_queue c", unfolded c(3), OF Nil]
      let ?s = "s\<lparr>schedulers := (schedulers s)(sch \<mapsto> ?c), threads := (threads s)(tid \<mapsto> W_drain)\<rparr>"
      have "pthread_join Q (passive_call cbu) fuel sch tid s = pthread_join Q (passive_call cbu) m sch tid ?s"
        unfolding n(1) m(1) using pc W_pop pop by (simp add: code)
      moreover obtain s' where "pthread_join Q (passive_call cbu) m sch tid ?s = Inr ((), s')" "drained cbu jobs_of sch tid ?s js s'"
        using drain_drained [OF fifo, of ?s sch ?c js tid m cbu] c q n m pop Nil by (auto simp: queued_def)
      ultimately show ?thesis using c by (auto simp: drained_def)
    next
      case (Cons j ks)
      note pop = mpsc_fifoD(4) [OF fifo, of "sch_queue c" j ks, unfolded c(3), OF Cons]
      from q Cons obtain d where d: "sched_jobs s j = Some d" and j: "j \<notin> set ks" by (auto simp: queued_def)
      let ?s = "s\<lparr>schedulers := (schedulers s)(sch \<mapsto> ?c), user := job_user cbu d (user s),
          sched_jobs := (sched_jobs s)(j := None), threads := (threads s)(tid \<mapsto> W_while)\<rparr>"
      have "pthread_join Q (passive_call cbu) fuel sch tid s = pthread_join Q (passive_call cbu) n sch tid ?s"
        unfolding n(1) by (rule join_step) (use pc W_pop pop d in \<open>simp add: code sRunJob_effect [where j = d]\<close>)+
      moreover obtain s' where "pthread_join Q (passive_call cbu) n sch tid ?s = Inr ((), s')" "drained cbu jobs_of sch tid ?s ks s'"
        using join_while [OF fifo, of ?s sch ?c ks tid n cbu] c q n pop Cons by (auto simp: queued_def)
      ultimately show ?thesis using drained_Cons [OF c(1) d j] Cons by auto
    qed
  qed (use pc in simp)
qed

section \<open>Stopping, joining, destroying\<close>

lemma stop_join_effect:
  assumes fifo: "mpsc_fifo Q jobs_of" and c: "schedulers s sch = Some c" "sch_is_started c" "\<not> sch_is_joined c"
    and q: "queued s (jobs_of (sch_queue c))" and pc: "threads s (sch_thread c) = Some pc" "pc \<noteq> W_exit"
    and v: "eventfds s (sch_event_fd c) = Some v" and fuel: "length (jobs_of (sch_queue c)) + 5 \<le> fuel"
  shows "\<exists>s' c'. bindm (UfsrvSchedulerStop (Some sch)) (\<lambda>_. UfsrvSchedulerJoin Q (passive_call cbu) fuel (Some sch)) s = Inr ((), s') \<and>
    user s' = run_jobs cbu (sched_jobs s) (jobs_of (sch_queue c)) (user s) \<and>
    sched_jobs s' = (\<lambda>j. if j \<in> set (jobs_of (sch_queue c)) then None else sched_jobs s j) \<and>
    threads s' (sch_thread c) = Some W_exit \<and> schedulers s' = (schedulers s)(sch \<mapsto> c') \<and>
    jobs_of (sch_queue c') = [] \<and> sch_event_fd c' = sch_event_fd c \<and> \<not> sch_is_running c'"
proof -
  let ?c = "c\<lparr>sch_is_running := False, sch_is_joined := True\<rparr>"
  let ?s = "s\<lparr>eventfds := (eventfds s)(sch_event_fd c \<mapsto> v + 1), schedulers := (schedulers s)(sch \<mapsto> ?c)\<rparr>"
  have run: "bindm (UfsrvSchedulerStop (Some sch)) (\<lambda>_. UfsrvSchedulerJoin Q (passive_call cbu) fuel (Some sch)) s =
      pthread_join Q (passive_call cbu) fuel sch (sch_thread c) ?s"
    using c v by (simp add: UfsrvSchedulerStop_def UfsrvSchedulerJoin_def stop_store_def wake_worker_def eventfd_write_def)
  have "stoppable jobs_of sch (sch_thread c) ?s (jobs_of (sch_queue c))"
    using c q pc v by (auto simp: stoppable_def queued_def)
  from join_effect [OF fifo this fuel] obtain s' where
    join: "pthread_join Q (passive_call cbu) fuel sch (sch_thread c) ?s = Inr ((), s')"
    and dr: "drained cbu jobs_of sch (sch_thread c) ?s (jobs_of (sch_queue c)) s'" by blast
  from dr obtain c' where "schedulers s' = (schedulers ?s)(sch \<mapsto> c')" "jobs_of (sch_queue c') = []"
      "sch_event_fd c' = sch_event_fd c" "\<not> sch_is_running c'" unfolding drained_def by auto
  with dr run join show ?thesis unfolding drained_def by auto
qed

text \<open>What the list left of a queue costs \<open>Destroy\<close>: each job is freed, none is run.\<close>

lemma destroy_drain_effect:
  assumes fifo: "mpsc_fifo Q jobs_of"
  shows "schedulers s sch = Some c \<Longrightarrow> jobs_of (sch_queue c) = js \<Longrightarrow> queued s js \<Longrightarrow> length js + 1 \<le> fuel \<Longrightarrow>
    \<exists>s' c'. destroy_drain Q fuel sch s = Inr ((), s') \<and> user s' = user s \<and> eventfds s' = eventfds s \<and>
      schedulers s' = (schedulers s)(sch \<mapsto> c') \<and>
      sched_jobs s' = (\<lambda>j. if j \<in> set js then None else sched_jobs s j)"
proof (induction js arbitrary: s c fuel)
  case Nil
  let ?c = "c\<lparr>sch_queue := snd (mpsc_queue_pop Q (sch_queue c))\<rparr>"
  let ?s = "s\<lparr>schedulers := (schedulers s)(sch \<mapsto> ?c)\<rparr>"
  have "destroy_drain Q fuel sch s = Inr ((), ?s)"
    using Nil.prems mpsc_fifoD(3) [OF fifo Nil.prems(2)] by (cases fuel) (simp_all add: queue_pop_def)
  moreover have "schedulers ?s = (schedulers s)(sch \<mapsto> ?c)" by simp
  ultimately show ?case by (intro exI [of _ ?s] exI [of _ ?c]) simp
next
  case (Cons j js)
  note pop = mpsc_fifoD(4) [OF fifo Cons.prems(2)]
  from Cons.prems obtain n where fuel: "fuel = Suc n" by (cases fuel) auto
  from Cons.prems(3) obtain d where d: "sched_jobs s j = Some d" and j: "j \<notin> set js" by (auto simp: queued_def)
  let ?c = "c\<lparr>sch_queue := snd (mpsc_queue_pop Q (sch_queue c))\<rparr>"
  let ?s = "s\<lparr>schedulers := (schedulers s)(sch \<mapsto> ?c), sched_jobs := (sched_jobs s)(j := None)\<rparr>"
  have run: "destroy_drain Q fuel sch s = destroy_drain Q n sch ?s"
    using Cons.prems pop d by (simp add: fuel queue_pop_def)
  have "schedulers ?s sch = Some ?c" and "jobs_of (sch_queue ?c) = js" and "queued ?s js" and "length js + 1 \<le> n"
    using Cons.prems pop fuel by (simp_all add: queued_def) auto
  from Cons.IH [OF this] obtain s' c' where "destroy_drain Q n sch ?s = Inr ((), s')" "user s' = user ?s" "eventfds s' = eventfds ?s"
    "schedulers s' = (schedulers ?s)(sch \<mapsto> c')" "sched_jobs s' = (\<lambda>i. if i \<in> set js then None else sched_jobs ?s i)" by blast
  with run show ?case by (intro exI [of _ s'] exI [of _ c']) (auto simp: fun_eq_iff)
qed

lemma destroy_effect:
  assumes fifo: "mpsc_fifo Q jobs_of" and c: "schedulers s sch = Some c" "sch_is_started c" "\<not> sch_is_joined c"
    and q: "queued s (jobs_of (sch_queue c))" and pc: "threads s (sch_thread c) = Some pc" "pc \<noteq> W_exit"
    and v: "eventfds s (sch_event_fd c) = Some v" "0 \<le> sch_event_fd c" and fuel: "length (jobs_of (sch_queue c)) + 5 \<le> fuel"
  shows "\<exists>s'. UfsrvSchedulerDestroy Q (passive_call cbu) fuel (Some sch) s = Inr ((), s') \<and>
    user s' = run_jobs cbu (sched_jobs s) (jobs_of (sch_queue c)) (user s) \<and>
    sched_jobs s' = (\<lambda>j. if j \<in> set (jobs_of (sch_queue c)) then None else sched_jobs s j) \<and>
    schedulers s' = (schedulers s)(sch := None) \<and> eventfds s' (sch_event_fd c) = None"
proof -
  from stop_join_effect [OF fifo c q pc v(1) fuel, of cbu] obtain s1 c1 where
    run: "bindm (UfsrvSchedulerStop (Some sch)) (\<lambda>_. UfsrvSchedulerJoin Q (passive_call cbu) fuel (Some sch)) s = Inr ((), s1)"
    and u: "user s1 = run_jobs cbu (sched_jobs s) (jobs_of (sch_queue c)) (user s)"
      "sched_jobs s1 = (\<lambda>j. if j \<in> set (jobs_of (sch_queue c)) then None else sched_jobs s j)"
    and c1: "schedulers s1 = (schedulers s)(sch \<mapsto> c1)" "jobs_of (sch_queue c1) = []" by blast
  have "schedulers s1 sch = Some c1" "queued s1 []" "length ([] :: addr list) + 1 \<le> fuel"
    using c1 fuel by (auto simp: queued_def)
  from destroy_drain_effect [OF fifo this(1) c1(2) this(2,3)] obtain s2 c2 where
    dd: "destroy_drain Q fuel sch s1 = Inr ((), s2)" "user s2 = user s1" "schedulers s2 = (schedulers s1)(sch \<mapsto> c2)"
      "sched_jobs s2 = (\<lambda>j. if j \<in> set [] then None else sched_jobs s1 j)" by blast
  have "UfsrvSchedulerDestroy Q (passive_call cbu) fuel (Some sch) s =
      Inr ((), s2\<lparr>eventfds := (eventfds s2)(sch_event_fd c := None), schedulers := (schedulers s2)(sch := None)\<rparr>)"
    using c v(2) run dd(1,3) by (simp add: UfsrvSchedulerDestroy_def eventfd_close_def)
  then show ?thesis using u c1 dd by auto
qed

section \<open>Submitting\<close>

lemma submit_effect:
  assumes "mpsc_fifo Q jobs_of" and "schedulers s sch = Some c" and "eventfds s (sch_event_fd c) = Some v"
    and "sched_jobs s (next_addr s) = None"
  shows "\<exists>s' c'. UfsrvSchedulerSubmit Q (Some sch) (Some f) x s = Inr (sch_is_running c \<and> sys_ok s (next_addr s), s') \<and>
    user s' = user s \<and> schedulers s' = (schedulers s)(sch \<mapsto> c') \<and>
    (if sch_is_running c \<and> sys_ok s (next_addr s)
     then jobs_of (sch_queue c') = jobs_of (sch_queue c) @ [next_addr s] \<and>
       sched_jobs s' = (sched_jobs s)(next_addr s \<mapsto> \<lparr>job_callback = Some f, job_callback_context = x\<rparr>) \<and>
       eventfds s' (sch_event_fd c) = Some (v + 1)
     else c' = c \<and> sched_jobs s' = sched_jobs s \<and> eventfds s' = eventfds s)"
proof -
  note code = UfsrvSchedulerSubmit_def sSubmitToScheduler_def submit_prepare_def submit_check_def submit_insert_def
    wake_worker_def eventfd_write_def
  have same: "(schedulers s)(sch \<mapsto> c) = schedulers s" "(sched_jobs s)(next_addr s := None) = sched_jobs s"
    using assms(2,4) by auto
  consider "\<not> sys_ok s (next_addr s)" | "sys_ok s (next_addr s)" "\<not> sch_is_running c"
    | "sys_ok s (next_addr s)" "sch_is_running c" by blast
  then show ?thesis
  proof cases
    case 1
    then show ?thesis by (intro exI [of _ "s\<lparr>next_addr := Suc (next_addr s)\<rparr>"] exI [of _ c]) (simp add: code same)
  next
    case 2
    then have "UfsrvSchedulerSubmit Q (Some sch) (Some f) x s =
        Inr (False, s\<lparr>next_addr := Suc (next_addr s), sched_jobs := sched_jobs s\<rparr>)"
      using assms(2) same by (simp add: code)
    with 2 show ?thesis using same by auto
  next
    case 3
    let ?c = "c\<lparr>sch_queue := mpsc_queue_insert Q (next_addr s) (sch_queue c)\<rparr>"
    let ?s = "s\<lparr>next_addr := Suc (next_addr s), sched_jobs := (sched_jobs s)(next_addr s \<mapsto> \<lparr>job_callback = Some f, job_callback_context = x\<rparr>),
        schedulers := (schedulers s)(sch \<mapsto> ?c), eventfds := (eventfds s)(sch_event_fd c \<mapsto> v + 1)\<rparr>"
    have run: "UfsrvSchedulerSubmit Q (Some sch) (Some f) x s = Inr (True, ?s)" using 3 assms(2,3) by (simp add: code)
    show ?thesis
      using 3 mpsc_fifoD(2) [OF assms(1)] by (intro exI [of _ ?s] exI [of _ ?c]) (simp add: run)
  qed
qed

section \<open>Properties\<close>

text \<open>A concrete queue with the documented behaviour, for the concrete runs below.\<close>

definition list_queue :: "addr list mpsc_ops" where
  "list_queue = \<lparr>mpsc_queue_init = [], mpsc_queue_insert = (\<lambda>a q. q @ [a]),
     mpsc_queue_pop = (\<lambda>q. case q of [] \<Rightarrow> (None, []) | a # as \<Rightarrow> (Some a, as))\<rparr>"

lemma list_queue_fifo: "mpsc_fifo list_queue id"
  by (simp add: mpsc_fifo_def list_queue_def)

definition log_job :: "string \<Rightarrow> ptr \<Rightarrow> (string \<times> ptr) list \<Rightarrow> (string \<times> ptr) list" where
  "log_job f x u = u @ [(f, x)]"


definition two_submits :: "string sched_act list" where
  "two_submits = [A_worker False, A_prepare 0 ''f'' (Some 1), A_prepare 1 ''g'' (Some 2), A_check 1, A_check 0,
     A_insert 1, A_worker False, A_insert 0, A_wake 0, A_worker False, A_wake 1]"


text \<open>
C28: no lost wake-up: when the worker is blocked on an empty eventfd, and no submitting or
stopping thread is between its change and its write, then there is nothing to do: the queue is
empty and the scheduler is running.
\<close>

theorem scheduler_no_lost_wakeup:
  assumes "mpsc_fifo Q jobs_of" and "sched_run Q cbu 16 19 as (sched_boot Q name u ok) = Inr C"
    and "threads (cf_sys C) 19 = Some W_read" and "schedulers (cf_sys C) 16 = Some c"
    and "eventfds (cf_sys C) (sch_event_fd c) = Some 0"
    and "\<And>i j. cf_sub C i \<noteq> S_inserted j" and "\<not> cf_stop C"
  shows "jobs_of (sch_queue c) = [] \<and> sch_is_running c"
proof -
  from boot_run_sim [OF assms(1), of cbu as name u ok] assms(2) obtain A where rel: "sched_rel jobs_of 16 19 C A" and inv: "sched_inv A"
    by fastforce
  from rel assms(3-5) have A: "a_pc A = W_read" "a_ev A = 0" "a_q A = jobs_of (sch_queue c)" "a_run A = sch_is_running c"
    "a_sub A = cf_sub C" "a_stop A = cf_stop C" by (auto simp: sched_rel_def)
  from inv have "wake_inv A" by (simp add: sched_inv_def)
  with A assms(6,7) show ?thesis by (auto simp: wake_inv_def)
qed

theorem scheduler_no_lost_wakeup_witness:
  "\<exists>C c. sched_run list_queue log_job 16 19 [A_worker False, A_worker False, A_worker False, A_worker False, A_worker False]
       (sched_boot list_queue ''w'' [] (\<lambda>_. True)) = Inr C \<and>
     threads (cf_sys C) 19 = Some W_read \<and> schedulers (cf_sys C) 16 = Some c \<and> sch_queue c = [] \<and> sch_is_running c"
proof -
  let ?as = "[A_worker False, A_worker False, A_worker False, A_worker False, A_worker False] :: string sched_act list"
  define C where "C = projr (sched_run list_queue log_job 16 19 ?as (sched_boot list_queue ''w'' [] (\<lambda>_. True)))"
  define c where "c = the (schedulers (cf_sys C) 16)"
  have run: "sched_run list_queue log_job 16 19 ?as (sched_boot list_queue ''w'' [] (\<lambda>_. True)) = Inr C"
    and pc: "threads (cf_sys C) 19 = Some W_read" and c: "schedulers (cf_sys C) 16 = Some c"
    and ev: "eventfds (cf_sys C) (sch_event_fd c) = Some 0" and sub: "cf_sub C i = S_idle" and st: "\<not> cf_stop C" for i
    by (simp_all add: C_def c_def sched_boot_def sched_init_def exec_def UfsrvSchedulerCreate_def UfsrvSchedulerStart_def
        eventfd_def goto_def sWorkerMain_step_def queue_pop_def list_queue_def)
  have "id (sch_queue c) = [] \<and> sch_is_running c"
    by (rule scheduler_no_lost_wakeup [OF list_queue_fifo run pc c ev]) (simp_all add: sub st)
  with run pc c show ?thesis by auto
qed


text \<open>A concrete interleaving: two jobs are inserted before the worker starts, then it is stopped.\<close>

definition two_inserted :: "((string \<times> ptr) list, string, addr list) sched_conf" where
  "two_inserted = projr (sched_run list_queue log_job 16 19
     [A_prepare 0 ''f'' (Some 1), A_prepare 1 ''g'' (Some 2), A_check 1, A_check 0, A_insert 1, A_insert 0]
     (sched_boot list_queue ''w'' [] (\<lambda>_. True)))"

definition two_ran :: "((string \<times> ptr) list, string, addr list) sched_conf" where
  "two_ran = projr (sched_run list_queue log_job 16 19 (A_stop_store # replicate 5 (A_worker False)) two_inserted)"

lemmas sched_code = sched_boot_def sched_init_def exec_def UfsrvSchedulerCreate_def UfsrvSchedulerStart_def
  eventfd_def goto_def sWorkerMain_step_def queue_pop_def list_queue_def submit_prepare_def submit_check_def
  submit_insert_def stop_store_def wake_worker_def eventfd_write_def sRunJob_def

lemma two_inserted_facts:
  "sched_run list_queue log_job 16 19
     [A_prepare 0 ''f'' (Some 1), A_prepare 1 ''g'' (Some 2), A_check 1, A_check 0, A_insert 1, A_insert 0]
     (sched_boot list_queue ''w'' [] (\<lambda>_. True)) = Inr two_inserted"
  "\<exists>c. schedulers (cf_sys two_inserted) 16 = Some c \<and> sch_is_running c \<and> sch_queue c = [21, 20]"
  by (simp_all add: two_inserted_def sched_code)

lemma two_ran_facts:
  "sched_run list_queue log_job 16 19 (A_stop_store # replicate 5 (A_worker False)) two_inserted = Inr two_ran"
  "threads (cf_sys two_ran) 19 = Some W_exit"
  "user (cf_sys two_ran) = [(''g'', Some 2), (''f'', Some 1)]"
  by (simp_all add: two_ran_def two_inserted_def sched_code numeral_eq_Suc log_job_def)



text \<open>
C31: \<open>Stop\<close> followed by \<open>Join\<close> returns, wherever the worker is, after the worker has run every
queued job once, in order, and has exited; a bounded number of worker steps is enough.
\<close>

theorem scheduler_stop_join:
  assumes "mpsc_fifo Q jobs_of" and "schedulers s sch = Some c" and "sch_is_started c" and "\<not> sch_is_joined c"
    and "queued s (jobs_of (sch_queue c))" and "threads s (sch_thread c) = Some pc" and "pc \<noteq> W_exit"
    and "eventfds s (sch_event_fd c) = Some v" and "length (jobs_of (sch_queue c)) + 5 \<le> fuel"
  shows "\<exists>s' c'. bindm (UfsrvSchedulerStop (Some sch)) (\<lambda>_. UfsrvSchedulerJoin Q (passive_call cbu) fuel (Some sch)) s = Inr ((), s') \<and>
    user s' = run_jobs cbu (sched_jobs s) (jobs_of (sch_queue c)) (user s) \<and>
    sched_jobs s' = (\<lambda>j. if j \<in> set (jobs_of (sch_queue c)) then None else sched_jobs s j) \<and>
    threads s' (sch_thread c) = Some W_exit \<and> schedulers s' = (schedulers s)(sch \<mapsto> c') \<and>
    jobs_of (sch_queue c') = [] \<and> sch_event_fd c' = sch_event_fd c \<and> \<not> sch_is_running c'"
  by (rule stop_join_effect [OF assms])

lemma two_inserted_state:
  obtains c where "schedulers (cf_sys two_inserted) 16 = Some c" and "sch_is_started c" and "\<not> sch_is_joined c"
    and "sch_queue c = [21, 20]" and "sch_thread c = 19" and "sch_event_fd c = 18"
    and "queued (cf_sys two_inserted) [21, 20]" and "threads (cf_sys two_inserted) 19 = Some W_entry"
    and "eventfds (cf_sys two_inserted) 18 = Some 0"
    and "run_jobs log_job (sched_jobs (cf_sys two_inserted)) [21, 20] (user (cf_sys two_inserted)) = [(''g'', Some 2), (''f'', Some 1)]"
  by (simp add: two_inserted_def sched_code queued_def run_jobs_def job_user_def log_job_def)

theorem scheduler_stop_join_witness:
  "\<exists>s'. bindm (UfsrvSchedulerStop (Some 16)) (\<lambda>_. UfsrvSchedulerJoin list_queue (passive_call log_job) 7 (Some 16)) (cf_sys two_inserted) = Inr ((), s') \<and>
    user s' = [(''g'', Some 2), (''f'', Some 1)] \<and> threads s' 19 = Some W_exit"
proof -
  obtain c where c: "schedulers (cf_sys two_inserted) 16 = Some c" "sch_is_started c" "\<not> sch_is_joined c"
    "sch_queue c = [21, 20]" "sch_thread c = 19" "sch_event_fd c = 18"
    "queued (cf_sys two_inserted) [21, 20]" "threads (cf_sys two_inserted) 19 = Some W_entry"
    "eventfds (cf_sys two_inserted) 18 = Some 0"
    "run_jobs log_job (sched_jobs (cf_sys two_inserted)) [21, 20] (user (cf_sys two_inserted)) = [(''g'', Some 2), (''f'', Some 1)]"
    by (rule two_inserted_state)
  show ?thesis
    using scheduler_stop_join [OF list_queue_fifo c(1-3), of W_entry 0 7 log_job] c(4-10) by auto
qed

text \<open>
\<open>Destroy\<close> of a started scheduler first stops and joins it, so every queued job runs, and then
frees the scheduler and closes its eventfd.
\<close>

lemma scheduler_destroy:
  assumes "mpsc_fifo Q jobs_of" and "schedulers s sch = Some c" and "sch_is_started c" and "\<not> sch_is_joined c"
    and "queued s (jobs_of (sch_queue c))" and "threads s (sch_thread c) = Some pc" and "pc \<noteq> W_exit"
    and "eventfds s (sch_event_fd c) = Some v" and "0 \<le> sch_event_fd c"
    and "length (jobs_of (sch_queue c)) + 5 \<le> fuel"
  shows "\<exists>s'. UfsrvSchedulerDestroy Q (passive_call cbu) fuel (Some sch) s = Inr ((), s') \<and>
    user s' = run_jobs cbu (sched_jobs s) (jobs_of (sch_queue c)) (user s) \<and>
    sched_jobs s' = (\<lambda>j. if j \<in> set (jobs_of (sch_queue c)) then None else sched_jobs s j) \<and>
    schedulers s' = (schedulers s)(sch := None) \<and> eventfds s' (sch_event_fd c) = None"
  by (rule destroy_effect [OF assms])

text \<open>
\<open>Submit\<close> answers true exactly when the scheduler is running and the job could be allocated;
then the job is at the end of the queue and the eventfd is signalled, and otherwise nothing
has changed and the job is freed again.
\<close>

lemma scheduler_submit:
  assumes "mpsc_fifo Q jobs_of" and "schedulers s sch = Some c" and "eventfds s (sch_event_fd c) = Some v"
    and "sched_jobs s (next_addr s) = None"
  shows "\<exists>s' c'. UfsrvSchedulerSubmit Q (Some sch) (Some f) x s = Inr (sch_is_running c \<and> sys_ok s (next_addr s), s') \<and>
    user s' = user s \<and> schedulers s' = (schedulers s)(sch \<mapsto> c') \<and>
    (if sch_is_running c \<and> sys_ok s (next_addr s)
     then jobs_of (sch_queue c') = jobs_of (sch_queue c) @ [next_addr s] \<and>
       sched_jobs s' = (sched_jobs s)(next_addr s \<mapsto> \<lparr>job_callback = Some f, job_callback_context = x\<rparr>) \<and>
       eventfds s' (sch_event_fd c) = Some (v + 1)
     else c' = c \<and> sched_jobs s' = sched_jobs s \<and> eventfds s' = eventfds s)"
  by (rule submit_effect [OF assms])

end
