(* ===== verification/Scheduler_Pool.thy ===== *)
theory Scheduler_Pool
  imports Scheduler "HOL-Library.Word"
begin

text \<open>
  The scheduler pool of \<^verbatim>\<open>src/ufsrv_scheduler/ufsrv_scheduler.c\<close>: a fixed array of
  single-worker schedulers, with a 32-bit counter that distributes submissions round-robin.
  The counter is a machine word and wraps.
\<close>

section \<open>Decimal output\<close>

text \<open>The decimal digits that \<^verbatim>\<open>%d\<close>, \<^verbatim>\<open>%u\<close> and \<^verbatim>\<open>%lu\<close> print.\<close>

definition digit_char :: "nat \<Rightarrow> char" where
  "digit_char d = char_of (d + 48)"

fun format_u :: "nat \<Rightarrow> string" where
  "format_u n = (if n < 10 then [digit_char n] else format_u (n div 10) @ [digit_char (n mod 10)])"

declare format_u.simps [simp del]

definition format_d :: "int \<Rightarrow> string" where
  "format_d i = (if i < 0 then CHR ''-'' # format_u (nat (- i)) else format_u (nat i))"

text \<open>\<^verbatim>\<open>snprintf\<close> into a buffer of \<open>n\<close> bytes keeps the first \<open>n - 1\<close> characters.\<close>

definition snprintf :: "nat \<Rightarrow> string \<Rightarrow> string" where
  "snprintf n text = take (n - 1) text"

section \<open>State\<close>

record UfsrvSchedulerPool =
  pool_workers :: "ptr list"
  worker_pool_sz :: int
  pool_next :: "32 word"
  pool_is_running :: bool

record ('u, 'fn, 'q) pool_sys = "('u, 'fn, 'q) sched_sys" +
  pools :: "addr \<rightharpoonup> UfsrvSchedulerPool"

type_synonym ('u, 'fn, 'q, 'z, 'a) pprog = "(('u, 'fn, 'q, 'z) pool_sys_scheme, 'a) prog"

type_synonym ('u, 'fn, 'q, 'z) pcall = "'fn \<Rightarrow> ptr \<Rightarrow> ('u, 'fn, 'q, 'z, unit) pprog"

abbreviation pool_at :: "addr \<Rightarrow> ('u, 'fn, 'q, 'z, UfsrvSchedulerPool) pprog" where
  "pool_at \<equiv> obj_at pools"

abbreviation upd_pool :: "addr \<Rightarrow> (UfsrvSchedulerPool \<Rightarrow> UfsrvSchedulerPool) \<Rightarrow> ('u, 'fn, 'q, 'z, unit) pprog" where
  "upd_pool \<equiv> upd_obj pools pools_update"

section \<open>Operations\<close>

definition worker_name :: "string option \<Rightarrow> nat \<Rightarrow> string" where
  "worker_name name_prefix_ptr i =
     (case name_prefix_ptr of
        Some prefix \<Rightarrow> snprintf 64 (prefix @ ''-'' @ format_d (int i))
      | None \<Rightarrow> snprintf 64 (''worker-'' @ format_d (int i)))"

text \<open>\<^verbatim>\<open>for (int j = 0; j < i; j++)\<close> over the first workers.\<close>

fun destroy_workers ::
  "'q mpsc_ops \<Rightarrow> ('u, 'fn, 'q, 'z) pcall \<Rightarrow> nat \<Rightarrow> ptr list \<Rightarrow> ('u, 'fn, 'q, 'z, unit) pprog" where
  "destroy_workers Q call fuel [] = ret ()"
| "destroy_workers Q call fuel (w # ws) =
     bindm (UfsrvSchedulerDestroy Q call fuel w) (\<lambda>_. destroy_workers Q call fuel ws)"

fun stop_workers :: "ptr list \<Rightarrow> ('u, 'fn, 'q, 'z, unit) pprog" where
  "stop_workers [] = ret ()"
| "stop_workers (w # ws) = bindm (UfsrvSchedulerStop w) (\<lambda>_. stop_workers ws)"

fun join_workers ::
  "'q mpsc_ops \<Rightarrow> ('u, 'fn, 'q, 'z) pcall \<Rightarrow> nat \<Rightarrow> ptr list \<Rightarrow> ('u, 'fn, 'q, 'z, unit) pprog" where
  "join_workers Q call fuel [] = ret ()"
| "join_workers Q call fuel (w # ws) =
     bindm (UfsrvSchedulerJoin Q call fuel w) (\<lambda>_. join_workers Q call fuel ws)"

text \<open>
  The creation loop: \<open>n\<close> workers are left to create, \<open>ws\<close> are the ones created so far;
  \<open>None\<close> when one could not be created and the others were destroyed again.
\<close>

fun create_workers ::
  "'q mpsc_ops \<Rightarrow> ('u, 'fn, 'q, 'z) pcall \<Rightarrow> nat \<Rightarrow> string option \<Rightarrow> nat \<Rightarrow> ptr list \<Rightarrow>
   ('u, 'fn, 'q, 'z, ptr list option) pprog" where
  "create_workers Q call fuel prefix 0 ws = ret (Some ws)"
| "create_workers Q call fuel prefix (Suc n) ws =
     bindm (UfsrvSchedulerCreate Q (Some (worker_name prefix (length ws)))) (\<lambda>w.
     if w = NULL then bindm (destroy_workers Q call fuel ws) (\<lambda>_. ret None)
     else create_workers Q call fuel prefix n (ws @ [w]))"

definition UfsrvSchedulerPoolCreate ::
  "'q mpsc_ops \<Rightarrow> ('u, 'fn, 'q, 'z) pcall \<Rightarrow> nat \<Rightarrow> int \<Rightarrow> string option \<Rightarrow> ('u, 'fn, 'q, 'z, ptr) pprog" where
  "UfsrvSchedulerPoolCreate Q call fuel worker_count name_prefix_ptr =
     (if worker_count \<le> 0 then ret NULL
      else
        bindm malloc (\<lambda>pool_ptr.
        case pool_ptr of
          None \<Rightarrow> ret NULL
        | Some pool \<Rightarrow>
            bindm sys_try (\<lambda>workers_ok.
            if \<not> workers_ok then ret NULL
            else
              bindm (create_workers Q call fuel name_prefix_ptr (nat worker_count) []) (\<lambda>created.
              case created of
                None \<Rightarrow> ret NULL
              | Some ws \<Rightarrow>
                  bindm (new_obj pools pools_update pool
                    \<lparr>pool_workers = ws, worker_pool_sz = worker_count, pool_next = 0, pool_is_running = False\<rparr>) (\<lambda>_.
                  ret (Some pool))))))"

text \<open>The start loop: \<open>started\<close> are the workers started so far.\<close>

fun start_workers :: "ptr list \<Rightarrow> ptr list \<Rightarrow> ('u, 'fn, 'q, 'z, int) pprog" where
  "start_workers started [] = ret 0"
| "start_workers started (w # ws) =
     bindm (UfsrvSchedulerStart w) (\<lambda>rc.
     if rc \<noteq> 0 then bindm (stop_workers started) (\<lambda>_. ret (- 1))
     else start_workers (started @ [w]) ws)"

definition UfsrvSchedulerPoolStart :: "ptr \<Rightarrow> ('u, 'fn, 'q, 'z, int) pprog" where
  "UfsrvSchedulerPoolStart pool_ptr =
     (case pool_ptr of
        None \<Rightarrow> ret (- 1)
      | Some pool \<Rightarrow>
          bindm (pool_at pool) (\<lambda>p.
          bindm (start_workers [] (take (nat (worker_pool_sz p)) (pool_workers p))) (\<lambda>rc.
          if rc \<noteq> 0 then ret (- 1)
          else bindm (upd_pool pool (\<lambda>p. p\<lparr>pool_is_running := True\<rparr>)) (\<lambda>_. ret 0))))"

text \<open>The index of the next worker: the counter before its increment, modulo the pool size.\<close>

definition round_robin :: "32 word \<Rightarrow> int \<Rightarrow> nat" where
  "round_robin next sz = unat (next mod word_of_int sz)"

definition UfsrvSchedulerPoolSubmit ::
  "'q mpsc_ops \<Rightarrow> ptr \<Rightarrow> 'fn option \<Rightarrow> ptr \<Rightarrow> ('u, 'fn, 'q, 'z, bool) pprog" where
  "UfsrvSchedulerPoolSubmit Q pool_ptr callback context_ptr =
     (case (pool_ptr, callback) of
        (Some pool, Some f) \<Rightarrow>
          bindm (pool_at pool) (\<lambda>p.
          if \<not> pool_is_running p then ret False
          else
            bindm (upd_pool pool (\<lambda>p. p\<lparr>pool_next := pool_next p + 1\<rparr>)) (\<lambda>_.
            let idx = round_robin (pool_next p) (worker_pool_sz p) in
            UfsrvSchedulerSubmit Q (pool_workers p ! idx) callback context_ptr))
      | _ \<Rightarrow> ret False)"

definition UfsrvSchedulerPoolSubmitTo ::
  "'q mpsc_ops \<Rightarrow> ptr \<Rightarrow> int \<Rightarrow> 'fn option \<Rightarrow> ptr \<Rightarrow> ('u, 'fn, 'q, 'z, bool) pprog" where
  "UfsrvSchedulerPoolSubmitTo Q pool_ptr worker_index callback context_ptr =
     (case (pool_ptr, callback) of
        (Some pool, Some f) \<Rightarrow>
          bindm (pool_at pool) (\<lambda>p.
          if \<not> pool_is_running p then ret False
          else if worker_index < 0 \<or> worker_index \<ge> worker_pool_sz p
          then UfsrvSchedulerPoolSubmit Q pool_ptr callback context_ptr
          else UfsrvSchedulerSubmit Q (pool_workers p ! nat worker_index) callback context_ptr)
      | _ \<Rightarrow> ret False)"

definition UfsrvSchedulerPoolStop :: "ptr \<Rightarrow> ('u, 'fn, 'q, 'z, unit) pprog" where
  "UfsrvSchedulerPoolStop pool_ptr =
     (case pool_ptr of
        None \<Rightarrow> ret ()
      | Some pool \<Rightarrow>
          bindm (upd_pool pool (\<lambda>p. p\<lparr>pool_is_running := False\<rparr>)) (\<lambda>_.
          bindm (pool_at pool) (\<lambda>p.
          stop_workers (take (nat (worker_pool_sz p)) (pool_workers p)))))"

definition UfsrvSchedulerPoolJoin ::
  "'q mpsc_ops \<Rightarrow> ('u, 'fn, 'q, 'z) pcall \<Rightarrow> nat \<Rightarrow> ptr \<Rightarrow> ('u, 'fn, 'q, 'z, unit) pprog" where
  "UfsrvSchedulerPoolJoin Q call fuel pool_ptr =
     (case pool_ptr of
        None \<Rightarrow> ret ()
      | Some pool \<Rightarrow>
          bindm (pool_at pool) (\<lambda>p.
          join_workers Q call fuel (take (nat (worker_pool_sz p)) (pool_workers p))))"

definition UfsrvSchedulerPoolDestroy ::
  "'q mpsc_ops \<Rightarrow> ('u, 'fn, 'q, 'z) pcall \<Rightarrow> nat \<Rightarrow> ptr \<Rightarrow> ('u, 'fn, 'q, 'z, unit) pprog" where
  "UfsrvSchedulerPoolDestroy Q call fuel pool_ptr =
     (case pool_ptr of
        None \<Rightarrow> ret ()
      | Some pool \<Rightarrow>
          bindm (pool_at pool) (\<lambda>p.
          bindm (if pool_is_running p then
                   bindm (UfsrvSchedulerPoolStop pool_ptr) (\<lambda>_.
                   UfsrvSchedulerPoolJoin Q call fuel pool_ptr)
                 else ret ()) (\<lambda>_.
          bindm (destroy_workers Q call fuel (take (nat (worker_pool_sz p)) (pool_workers p))) (\<lambda>_.
          free_obj pools pools_update pool))))"

definition UfsrvSchedulerPoolSize :: "ptr \<Rightarrow> ('u, 'fn, 'q, 'z, int) pprog" where
  "UfsrvSchedulerPoolSize pool_ptr =
     (case pool_ptr of None \<Rightarrow> ret 0 | Some pool \<Rightarrow> bindm (pool_at pool) (\<lambda>p. ret (worker_pool_sz p)))"

section \<open>Round robin\<close>

text \<open>A pool size that fits an \<^verbatim>\<open>int\<close>.\<close>

definition pool_size_ok :: "int \<Rightarrow> bool" where
  "pool_size_ok sz \<longleftrightarrow> 0 < sz \<and> sz < 2 ^ 31"

lemma unat_size: "pool_size_ok sz \<Longrightarrow> unat (word_of_int sz :: 32 word) = nat sz"
  by (simp add: pool_size_ok_def unsigned_of_int take_bit_int_eq_self nat_eq_iff)

lemma round_robin_unat: "pool_size_ok sz \<Longrightarrow> round_robin n sz = unat n mod nat sz"
  by (simp add: round_robin_def unat_mod_distrib unat_size)

lemma round_robin_bound: "pool_size_ok sz \<Longrightarrow> round_robin n sz < nat sz"
  by (simp add: round_robin_unat) (simp add: pool_size_ok_def)

lemma unat_Suc_word: "n \<noteq> (- 1 :: 32 word) \<Longrightarrow> unat (n + 1) = Suc (unat n)"
  by (metis add.commute unatSuc word_sub_wi add_diff_cancel diff_0 eq_neg_iff_add_eq_0 add_eq_0_iff)

end
