(* ===== verification/Scheduler_Describe.thy ===== *)
theory Scheduler_Describe
  imports Scheduler_Pool
begin

text \<open>
  The introspection functions of \<^verbatim>\<open>src/ufsrv_scheduler/ufsrv_scheduler.c\<close>: the
  description of a pool as a JSON document and the list of worker names in one allocation.

  The buffer descriptor is uflib's and not part of this repository: its operations are the
  parameter \<open>B\<close>, with the formatted text as the argument of the append, and its documented
  behaviour, that an append extends the text, is the predicate \<open>buffer_laws\<close>.
\<close>

section \<open>The buffer\<close>

record 'b buffer_ops =
  BufferDescriptorInit :: "nat \<Rightarrow> 'b"
  BufferDescriptorAppendFormatted :: "string \<Rightarrow> 'b \<Rightarrow> 'b"

definition buffer_laws :: "'b buffer_ops \<Rightarrow> ('b \<Rightarrow> string) \<Rightarrow> bool" where
  "buffer_laws B text_of \<longleftrightarrow>
     (\<forall>n. text_of (BufferDescriptorInit B n) = []) \<and>
     (\<forall>t b. text_of (BufferDescriptorAppendFormatted B t b) = text_of b @ t)"

section \<open>Description\<close>

abbreviation dquote :: char where "dquote \<equiv> CHR 0x22"

abbreviation backslash :: char where "backslash \<equiv> CHR 0x5C"

abbreviation newline :: char where "newline \<equiv> CHR 0x0A"

abbreviation tab :: char where "tab \<equiv> CHR 0x09"

text \<open>The branches of the \<^verbatim>\<open>switch\<close>.\<close>

definition describe_char :: "char \<Rightarrow> string" where
  "describe_char c =
     (if c = dquote then [backslash, dquote]
      else if c = backslash then [backslash, backslash]
      else if c = newline then backslash # ''n''
      else if c = tab then backslash # ''t''
      else [c])"

fun describe_chars :: "'b buffer_ops \<Rightarrow> string \<Rightarrow> 'b \<Rightarrow> 'b" where
  "describe_chars B [] bd = bd"
| "describe_chars B (c # cs) bd = describe_chars B cs (BufferDescriptorAppendFormatted B (describe_char c) bd)"

definition sDescribeJsonString :: "'b buffer_ops \<Rightarrow> 'b \<Rightarrow> string option \<Rightarrow> 'b" where
  "sDescribeJsonString B bd str =
     (case str of
        None \<Rightarrow> BufferDescriptorAppendFormatted B ''null'' bd
      | Some cs \<Rightarrow>
          let bd = BufferDescriptorAppendFormatted B [dquote] bd;
              bd = describe_chars B cs bd
          in BufferDescriptorAppendFormatted B [dquote] bd)"

text \<open>\<^verbatim>\<open>flag ? "true" : "false"\<close>\<close>

definition format_bool :: "bool \<Rightarrow> string" where
  "format_bool b = (if b then ''true'' else ''false'')"

definition sDescribeWorker :: "'b buffer_ops \<Rightarrow> 'b \<Rightarrow> 'q UfsrvScheduler \<Rightarrow> 'b" where
  "sDescribeWorker B bd sch =
     (let bd = BufferDescriptorAppendFormatted B (newline # ''    {\"name\":'') bd;
          bd = sDescribeJsonString B bd (sch_name sch);
          bd = BufferDescriptorAppendFormatted B ('',\"is_running\":'' @ format_bool (sch_is_running sch)) bd;
          bd = BufferDescriptorAppendFormatted B ('',\"is_started\":'' @ format_bool (sch_is_started sch)) bd;
          bd = BufferDescriptorAppendFormatted B ('',\"is_joined\":'' @ format_bool (sch_is_joined sch)) bd;
          bd = BufferDescriptorAppendFormatted B ('',\"is_worker_id_ready\":'' @ format_bool (sch_is_worker_id_ready sch)) bd;
          bd = (if sch_is_worker_id_ready sch
                then BufferDescriptorAppendFormatted B ('',\"worker_id\":'' @ format_u (sch_worker_id sch)) bd
                else BufferDescriptorAppendFormatted B '',\"worker_id\":null'' bd)
      in BufferDescriptorAppendFormatted B ('',\"event_fd\":'' @ format_d (sch_event_fd sch) @ ''}'') bd)"

text \<open>The loop over the workers; \<open>n\<close> iterations remain.\<close>

fun describe_workers ::
  "'b buffer_ops \<Rightarrow> string option \<Rightarrow> nat \<Rightarrow> ptr list \<Rightarrow> bool \<Rightarrow> 'b \<Rightarrow> ('u, 'fn, 'q, 'z, 'b) pprog" where
  "describe_workers B wanted 0 ws emitted bd = ret bd"
| "describe_workers B wanted (Suc n) [] emitted bd = fail UseAfterFree"
| "describe_workers B wanted (Suc n) (w # ws) emitted bd =
     (case w of
        None \<Rightarrow> fail UseAfterFree
      | Some worker \<Rightarrow>
          bindm (scheduler_at worker) (\<lambda>sch.
          if wanted \<noteq> None \<and> (sch_name sch = None \<or> sch_name sch \<noteq> wanted)
          then describe_workers B wanted n ws emitted bd
          else
            let bd = (if emitted then BufferDescriptorAppendFormatted B '','' bd else bd)
            in describe_workers B wanted n ws True (sDescribeWorker B bd sch)))"

text \<open>
  The descriptor is passed and returned by value: the caller's, or a new one whose allocation
  may fail.
\<close>

definition DescribeScheduler ::
  "'b buffer_ops \<Rightarrow> ptr \<Rightarrow> string option \<Rightarrow> 'b option \<Rightarrow> ('u, 'fn, 'q, 'z, 'b option) pprog" where
  "DescribeScheduler B pool_ptr wanted provided =
     bindm (case provided of
              Some bd \<Rightarrow> ret (Some bd)
            | None \<Rightarrow> bindm malloc (\<lambda>p. ret (if p = NULL then None else Some (BufferDescriptorInit B 256)))) (\<lambda>bd_ptr.
     case bd_ptr of
       None \<Rightarrow> ret None
     | Some bd \<Rightarrow>
         (case pool_ptr of
            None \<Rightarrow> ret (Some (BufferDescriptorAppendFormatted B (''{\"worker_pool_sz\":0,\"workers\":[]}'' @ [newline]) bd))
          | Some pool \<Rightarrow>
              bindm (pool_at pool) (\<lambda>p.
              let bd = BufferDescriptorAppendFormatted B
                (''{\"worker_pool_sz\":'' @ format_d (worker_pool_sz p) @ '',\"round_robin_next\":'' @ format_u (unat (pool_next p)) @
                 '',\"pool_is_running\":'' @ format_bool (pool_is_running p) @ '',\"workers\":['') bd
              in bindm (describe_workers B wanted (nat (worker_pool_sz p)) (pool_workers p) False bd) (\<lambda>bd.
                 ret (Some (BufferDescriptorAppendFormatted B (newline # '']}'' @ [newline]) bd))))))"

section \<open>Worker names\<close>

text \<open>
  The list of names is one block: the descriptor, the array of pointers and the strings.  A
  pointer into the block is its offset; the bytes of the block and the array are kept apart.
  \<open>sz\<close> is the size of uflib's descriptor struct, a pointer has eight bytes.
\<close>

record CollectionDescriptor =
  cd_collection :: "nat list option"
  cd_collection_sz :: nat
  cd_collection_base_offset :: nat
  cd_block :: string

text \<open>Pass 1: the number of named workers and the bytes of their names.\<close>

fun count_names :: "nat \<Rightarrow> ptr list \<Rightarrow> nat \<Rightarrow> nat \<Rightarrow> ('u, 'fn, 'q, 'z, nat \<times> nat) pprog" where
  "count_names 0 ws n str_bytes = ret (n, str_bytes)"
| "count_names (Suc k) [] n str_bytes = fail UseAfterFree"
| "count_names (Suc k) (w # ws) n str_bytes =
     (case w of
        None \<Rightarrow> count_names k ws n str_bytes
      | Some worker \<Rightarrow>
          bindm (scheduler_at worker) (\<lambda>sch.
          case sch_name sch of
            None \<Rightarrow> count_names k ws n str_bytes
          | Some name \<Rightarrow> count_names k ws (n + 1) (str_bytes + (length name + 1))))"

text \<open>\<^verbatim>\<open>memcpy\<close> into the block; a write that does not fit is a fault.\<close>

definition block_write :: "nat \<Rightarrow> string \<Rightarrow> string \<Rightarrow> ('s, string) prog" where
  "block_write off bytes block =
     (if off + length bytes \<le> length block then ret (take off block @ bytes @ drop (off + length bytes) block)
      else fail UseAfterFree)"

definition array_write :: "nat \<Rightarrow> nat \<Rightarrow> nat list \<Rightarrow> ('s, nat list) prog" where
  "array_write i x arr = (if i < length arr then ret (arr[i := x]) else fail UseAfterFree)"

text \<open>Pass 2: copy the names, \<open>i\<close> of \<open>n\<close> done, the next one to offset \<open>str\<close>.\<close>

fun copy_names ::
  "nat \<Rightarrow> ptr list \<Rightarrow> nat \<Rightarrow> nat \<Rightarrow> nat \<Rightarrow> nat list \<Rightarrow> string \<Rightarrow> ('u, 'fn, 'q, 'z, nat list \<times> string) pprog" where
  "copy_names 0 ws n i str arr block = ret (arr, block)"
| "copy_names (Suc k) ws n i str arr block =
     (if \<not> i < n then ret (arr, block)
      else case ws of
        [] \<Rightarrow> fail UseAfterFree
      | w # ws' \<Rightarrow>
          (case w of
             None \<Rightarrow> copy_names k ws' n i str arr block
           | Some worker \<Rightarrow>
               bindm (scheduler_at worker) (\<lambda>sch.
               case sch_name sch of
                 None \<Rightarrow> copy_names k ws' n i str arr block
               | Some name \<Rightarrow>
                   bindm (block_write str (name @ [CHR 0x00]) block) (\<lambda>block.
                   bindm (array_write i str arr) (\<lambda>arr.
                   copy_names k ws' n (i + 1) (str + (length name + 1)) arr block)))))"

text \<open>\<open>junk\<close> is what \<^verbatim>\<open>malloc\<close> left in the block.\<close>

definition ListSchedulerWorkers ::
  "nat \<Rightarrow> (nat \<Rightarrow> char) \<Rightarrow> ptr \<Rightarrow> ('u, 'fn, 'q, 'z, CollectionDescriptor option) pprog" where
  "ListSchedulerWorkers sz junk pool_ptr =
     (case pool_ptr of
        None \<Rightarrow> ret None
      | Some pool \<Rightarrow>
          bindm (pool_at pool) (\<lambda>p.
          bindm (count_names (nat (worker_pool_sz p)) (pool_workers p) 0 0) (\<lambda>(n, str_bytes).
          bindm malloc (\<lambda>block_ptr.
          if block_ptr = NULL then ret None
          else
            let arr_bytes = n * 8; total = sz + arr_bytes + str_bytes
            in bindm (copy_names (nat (worker_pool_sz p)) (pool_workers p) n 0 (sz + arr_bytes) (replicate n 0) (map junk [0..<total])) (\<lambda>(arr, block).
               ret (Some \<lparr>cd_collection = (if n > 0 then Some arr else None), cd_collection_sz = n,
                 cd_collection_base_offset = 0, cd_block = block\<rparr>))))))"

end
