(* ===== verification/Scheduler_Pool_Spec.thy ===== *)
theory Scheduler_Pool_Spec
  imports Scheduler_Pool Scheduler_Spec
begin

text \<open>
  What the scheduler pool promises: round-robin distribution and its limits, creation of
  exactly the requested workers or of none, and the names the workers get.
\<close>

section \<open>Round robin\<close>

lemma round_robin_add:
  assumes sz: "pool_size_ok sz" and "unat n + k < 2 ^ 32"
  shows "round_robin (n + of_nat k) sz = (unat n + k) mod nat sz"
proof -
  have "unat (of_nat k :: 32 word) = k" using assms(2) by (simp add: unat_of_nat)
  then have "unat (n + of_nat k) = unat n + k"
    using assms(2) by (simp add: unat_word_ariths)
  then show ?thesis by (simp add: round_robin_unat [OF sz])
qed

lemma mod_shift_inj: "0 < s \<Longrightarrow> inj_on (\<lambda>k. (m + k) mod s) {..<s :: nat}"
proof (rule inj_onI)
  fix x y assume s: "0 < s" and xy: "x \<in> {..<s}" "y \<in> {..<s}" and eq: "(m + x) mod s = (m + y) mod s"
  have le: "x = y" if "x \<le> y" "y < s" "(m + y) mod s = (m + x) mod s" for x y
  proof -
    have "s dvd (m + y) - (m + x)"
      by (rule mod_eq_dvd_iff_nat [THEN iffD1, OF _ that(3)]) (use that(1) in simp)
    then have "s dvd y - x" by simp
    then show ?thesis using that(1,2) nat_dvd_not_less [of "y - x" s] by (cases "y - x = 0") auto
  qed
  have "x \<le> y \<or> y \<le> x" and "x < s" and "y < s" using xy by auto
  with le [OF _ _ eq [symmetric]] le [OF _ _ eq] show "x = y" by blast
qed

lemma mod_shift_bij: "0 < s \<Longrightarrow> bij_betw (\<lambda>k. (m + k) mod s) {..<s :: nat} {..<s}"
proof -
  assume s: "0 < s"
  have "(\<lambda>k. (m + k) mod s) ` {..<s} = {..<s}"
    by (rule card_subset_eq) (use s card_image [OF mod_shift_inj [OF s, of m]] in auto)
  with mod_shift_inj [OF s, of m] show ?thesis by (simp add: bij_betw_def)
qed




section \<open>Creating the workers\<close>

text \<open>Destroying a scheduler that was never started and has no jobs undoes its creation.\<close>

lemma destroy_fresh:
  assumes "mpsc_fifo Q jobs_of" and "schedulers s a = Some c" and "\<not> sch_is_started c" and "jobs_of (sch_queue c) = []"
    and "0 \<le> sch_event_fd c" and "0 < fuel"
  shows "UfsrvSchedulerDestroy Q call fuel (Some a) s =
    Inr ((), s\<lparr>schedulers := (schedulers s)(a := None), eventfds := (eventfds s)(sch_event_fd c := None)\<rparr>)"
proof -
  from assms(6) obtain n where "fuel = Suc n" by (cases fuel) auto
  then show ?thesis
    using assms(2-5) mpsc_fifoD(3) [OF assms(1,4)] by (simp add: UfsrvSchedulerDestroy_def queue_pop_def eventfd_close_def)
qed

text \<open>
  \<open>made s0 s cs\<close>: the state \<open>s\<close> is \<open>s0\<close> with the freshly created schedulers \<open>cs\<close> and their
  eventfds added.
\<close>

definition made :: "('q \<Rightarrow> addr list) \<Rightarrow> ('u, 'fn, 'q, 'z) pool_sys_scheme \<Rightarrow> ('u, 'fn, 'q, 'z) pool_sys_scheme \<Rightarrow>
    (addr \<times> 'q UfsrvScheduler) list \<Rightarrow> bool" where
  "made jobs_of s0 s cs \<longleftrightarrow>
     schedulers s = schedulers s0 ++ map_of cs \<and>
     eventfds s = eventfds s0 ++ map_of (map (\<lambda>(a, c). (sch_event_fd c, 0)) cs) \<and> pools s = pools s0 \<and>
     distinct (map fst cs) \<and> distinct (map (sch_event_fd \<circ> snd) cs) \<and>
     (\<forall>(a, c)\<in>set cs. \<not> sch_is_started c \<and> jobs_of (sch_queue c) = [] \<and> 0 \<le> sch_event_fd c \<and>
        schedulers s0 a = None \<and> eventfds s0 (sch_event_fd c) = None \<and>
        a < next_addr s \<and> sch_event_fd c < int (next_addr s))"

definition worker_ptrs :: "(addr \<times> 'q UfsrvScheduler) list \<Rightarrow> ptr list" where
  "worker_ptrs cs = map (\<lambda>p. Some (fst p)) cs"

lemma worker_ptrs_simps [simp]:
  "worker_ptrs [] = []" "worker_ptrs (p # cs) = Some (fst p) # worker_ptrs cs"
  "worker_ptrs (cs @ [p]) = worker_ptrs cs @ [Some (fst p)]" "length (worker_ptrs cs) = length cs"
  by (simp_all add: worker_ptrs_def)

lemma map_add_drop_first:
  assumes "m0 a = None" and "a \<notin> fst ` set cs"
  shows "(m0 ++ map_of ((a, c) # cs))(a := None) = m0 ++ map_of cs"
  using assms by (auto simp: fun_eq_iff map_add_def dom_map_of_conv_image_fst map_of_eq_None_iff split: option.splits)

lemma map_add_snoc:
  assumes "a \<notin> fst ` set xs"
  shows "(m0 ++ map_of xs)(a \<mapsto> v) = m0 ++ map_of (xs @ [(a, v)])"
proof -
  have "map_of xs a = None" using assms by (simp add: map_of_eq_None_iff)
  then show ?thesis by (auto simp: fun_eq_iff map_add_def split: option.splits)
qed

lemma destroy_made:
  assumes fifo: "mpsc_fifo Q jobs_of" and fuel: "0 < fuel"
  shows "made jobs_of s0 s cs \<Longrightarrow> \<exists>s'. destroy_workers Q call fuel (worker_ptrs cs) s = Inr ((), s') \<and>
    schedulers s' = schedulers s0 \<and> eventfds s' = eventfds s0 \<and> pools s' = pools s0"
proof (induction cs arbitrary: s)
  case Nil
  then show ?case by (simp add: made_def)
next
  case (Cons p cs)
  obtain a c where p: "p = (a, c)" by (cases p)
  let ?s = "s\<lparr>schedulers := (schedulers s)(a := None), eventfds := (eventfds s)(sch_event_fd c := None)\<rparr>"
  from Cons.prems have "schedulers s a = Some c" and c: "\<not> sch_is_started c" "jobs_of (sch_queue c) = []" "0 \<le> sch_event_fd c"
    by (simp_all add: made_def p)
  then have run: "UfsrvSchedulerDestroy Q call fuel (Some a) s = Inr ((), ?s)"
    by (rule destroy_fresh [OF fifo _ _ _ _ fuel])
  have "(schedulers s)(a := None) = schedulers s0 ++ map_of cs"
    using Cons.prems map_add_drop_first [of "schedulers s0" a cs c] by (auto simp: made_def p)
  moreover have "(eventfds s)(sch_event_fd c := None) = eventfds s0 ++ map_of (map (\<lambda>(a, c). (sch_event_fd c, 0)) cs)"
  proof -
    have "sch_event_fd c \<notin> fst ` set (map (\<lambda>(a, c). (sch_event_fd c, 0 :: nat)) cs)"
      using Cons.prems by (force simp: made_def p)
    moreover have "eventfds s0 (sch_event_fd c) = None" using Cons.prems by (simp add: made_def p)
    moreover have "eventfds s = eventfds s0 ++ map_of ((sch_event_fd c, 0) # map (\<lambda>(a, c). (sch_event_fd c, 0)) cs)"
      using Cons.prems by (simp add: made_def p)
    ultimately show ?thesis by (metis map_add_drop_first)
  qed
  ultimately have "made jobs_of s0 ?s cs" using Cons.prems by (auto simp: made_def p)
  from Cons.IH [OF this] run show ?case by (simp add: p)
qed

text \<open>Addresses from \<open>next_addr\<close> on are unused.\<close>

definition pool_fresh :: "('u, 'fn, 'q, 'z) pool_sys_scheme \<Rightarrow> bool" where
  "pool_fresh s \<longleftrightarrow> (\<forall>a\<ge>next_addr s. schedulers s a = None \<and> eventfds s (int a) = None \<and> pools s a = None)"

text \<open>Creating one scheduler: nothing but the counter changes when it fails.\<close>

lemma create_effect:
  obtains n where "UfsrvSchedulerCreate Q (Some name) s = Inr (NULL, s\<lparr>next_addr := n\<rparr>)" and "next_addr s \<le> n"
  | fd where "UfsrvSchedulerCreate Q (Some name) s =
      Inr (Some (next_addr s), s\<lparr>next_addr := next_addr s + 3, eventfds := (eventfds s)(fd \<mapsto> 0),
        schedulers := (schedulers s)(next_addr s \<mapsto> \<lparr>sch_queue = mpsc_queue_init Q, sch_event_fd = fd, sch_thread = 0,
          sch_name = Some name, sch_is_running = False, sch_is_started = False, sch_is_joined = False,
          sch_is_worker_id_ready = False, sch_worker_id = 0\<rparr>)\<rparr>)"
    and "fd = int (next_addr s + 2)"
proof -
  consider "\<not> sys_ok s (next_addr s)" | "sys_ok s (next_addr s)" "\<not> sys_ok s (Suc (next_addr s))"
    | "sys_ok s (next_addr s)" "sys_ok s (Suc (next_addr s))" "\<not> sys_ok s (Suc (Suc (next_addr s)))"
    | "sys_ok s (next_addr s)" "sys_ok s (Suc (next_addr s))" "sys_ok s (Suc (Suc (next_addr s)))" by blast
  then show thesis
  proof cases
    case 1 show thesis by (rule that(1) [of "Suc (next_addr s)"]) (use 1 in \<open>simp_all add: UfsrvSchedulerCreate_def\<close>)
  next
    case 2 show thesis by (rule that(1) [of "Suc (Suc (next_addr s))"]) (use 2 in \<open>simp_all add: UfsrvSchedulerCreate_def\<close>)
  next
    case 3 show thesis by (rule that(1) [of "Suc (Suc (Suc (next_addr s)))"])
      (use 3 in \<open>simp_all add: UfsrvSchedulerCreate_def eventfd_def\<close>)
  next
    case 4 show thesis by (rule that(2) [of "int (next_addr s + 2)"])
      (use 4 in \<open>simp_all add: UfsrvSchedulerCreate_def eventfd_def eval_nat_numeral\<close>)
  qed
qed

text \<open>One more worker.\<close>

lemma made_snoc:
  assumes fifo: "mpsc_fifo Q jobs_of" and m: "made jobs_of s0 s cs" and fr: "pool_fresh s0" "next_addr s0 \<le> next_addr s"
    and fd: "fd = int (next_addr s + 2)"
    and c: "c = \<lparr>sch_queue = mpsc_queue_init Q, sch_event_fd = fd, sch_thread = 0, sch_name = nm, sch_is_running = False,
      sch_is_started = False, sch_is_joined = False, sch_is_worker_id_ready = False, sch_worker_id = 0\<rparr>"
  shows "made jobs_of s0 (s\<lparr>next_addr := next_addr s + 3, eventfds := (eventfds s)(fd \<mapsto> 0),
    schedulers := (schedulers s)(next_addr s \<mapsto> c)\<rparr>) (cs @ [(next_addr s, c)])"
proof -
  let ?a = "next_addr s"
  have a: "?a \<notin> fst ` set cs" and f: "fd \<notin> (sch_event_fd \<circ> snd) ` set cs"
    using m fd by (fastforce simp: made_def)+
  have "schedulers s0 ?a = None" and "eventfds s0 fd = None"
    using fr unfolding fd pool_fresh_def by (metis le_add1 le_trans)+
  moreover have "(schedulers s)(?a \<mapsto> c) = schedulers s0 ++ map_of (cs @ [(?a, c)])"
    using m map_add_snoc [OF a] by (simp add: made_def)
  moreover have "(eventfds s)(fd \<mapsto> 0) = eventfds s0 ++ map_of (map (\<lambda>(a, c). (sch_event_fd c, 0)) (cs @ [(?a, c)]))"
  proof -
    have "fd \<notin> fst ` set (map (\<lambda>(a, c). (sch_event_fd c, 0 :: nat)) cs)" using f by (force simp: image_iff)
    from map_add_snoc [OF this, of "eventfds s0" 0] show ?thesis using m c by (simp add: made_def)
  qed
  ultimately show ?thesis
    using m a f c fd mpsc_fifoD(1) [OF fifo] by (auto simp: made_def)
qed

lemma create_workers_effect:
  assumes fifo: "mpsc_fifo Q jobs_of" and fuel: "0 < fuel" and fr: "pool_fresh s0"
  shows "made jobs_of s0 s cs \<Longrightarrow> next_addr s0 \<le> next_addr s \<Longrightarrow>
    (\<forall>i<length cs. sch_name (snd (cs ! i)) = Some (worker_name pre i)) \<Longrightarrow>
    (\<exists>s'. create_workers Q call fuel pre n (worker_ptrs cs) s = Inr (None, s') \<and>
       schedulers s' = schedulers s0 \<and> eventfds s' = eventfds s0 \<and> pools s' = pools s0) \<or>
    (\<exists>s' cs'. create_workers Q call fuel pre n (worker_ptrs cs) s = Inr (Some (worker_ptrs cs'), s') \<and>
       made jobs_of s0 s' cs' \<and> length cs' = length cs + n \<and>
       (\<forall>i<length cs'. sch_name (snd (cs' ! i)) = Some (worker_name pre i)))"
proof (induction n arbitrary: s cs)
  case 0
  then show ?case by auto
next
  case (Suc n)
  let ?nm = "worker_name pre (length cs)"
  show ?case
  proof (rule create_effect [of Q ?nm s])
    fix m assume run: "UfsrvSchedulerCreate Q (Some ?nm) s = Inr (NULL, s\<lparr>next_addr := m\<rparr>)" and le: "next_addr s \<le> m"
    have "made jobs_of s0 (s\<lparr>next_addr := m\<rparr>) cs" using Suc.prems(1) le by (fastforce simp: made_def)
    from destroy_made [OF fifo fuel this, of call] obtain s' where
      "destroy_workers Q call fuel (worker_ptrs cs) (s\<lparr>next_addr := m\<rparr>) = Inr ((), s')"
      "schedulers s' = schedulers s0" "eventfds s' = eventfds s0" "pools s' = pools s0" by blast
    with run have "create_workers Q call fuel pre (Suc n) (worker_ptrs cs) s = Inr (None, s') \<and>
        schedulers s' = schedulers s0 \<and> eventfds s' = eventfds s0 \<and> pools s' = pools s0" by simp
    then show ?thesis by blast
  next
    fix fd
    let ?c = "\<lparr>sch_queue = mpsc_queue_init Q, sch_event_fd = fd, sch_thread = 0,
          sch_name = Some ?nm, sch_is_running = False, sch_is_started = False, sch_is_joined = False,
          sch_is_worker_id_ready = False, sch_worker_id = 0\<rparr>"
    let ?s = "s\<lparr>next_addr := next_addr s + 3, eventfds := (eventfds s)(fd \<mapsto> 0), schedulers := (schedulers s)(next_addr s \<mapsto> ?c)\<rparr>"
    assume run: "UfsrvSchedulerCreate Q (Some ?nm) s = Inr (Some (next_addr s), ?s)" and fd: "fd = int (next_addr s + 2)"
    have m: "made jobs_of s0 ?s (cs @ [(next_addr s, ?c)])"
      by (rule made_snoc [OF fifo Suc.prems(1) fr Suc.prems(2) fd refl])
    have le: "next_addr s0 \<le> next_addr ?s" using Suc.prems(2) by simp
    have nm: "\<forall>i<length (cs @ [(next_addr s, ?c)]). sch_name (snd ((cs @ [(next_addr s, ?c)]) ! i)) = Some (worker_name pre i)"
      using Suc.prems(3) by (simp add: nth_append less_Suc_eq)
    have "create_workers Q call fuel pre (Suc n) (worker_ptrs cs) s =
        create_workers Q call fuel pre n (worker_ptrs (cs @ [(next_addr s, ?c)])) ?s"
      using run by simp
    with Suc.IH [OF m le nm] show ?thesis by simp
  qed
qed


text \<open>A process with no schedulers yet.\<close>

definition pool_init :: "'u \<Rightarrow> (nat \<Rightarrow> bool) \<Rightarrow> ('u, 'fn, 'q) pool_sys" where
  "pool_init u ok = sched_sys.extend (sched_init u ok) (pool_sys.fields Map.empty)"

lemma pool_init_fresh: "pool_fresh (pool_init u ok)"
  by (simp add: pool_fresh_def pool_init_def sched_init_def sched_sys.defs pool_sys.defs)


section \<open>Worker names\<close>

definition digit_val :: "char \<Rightarrow> nat" where
  "digit_val c = of_char c - 48"

lemma digit_val_char [simp]: "d < 10 \<Longrightarrow> digit_val (digit_char d) = d"
  by (simp add: digit_val_def digit_char_def)

lemma format_u_read: "foldl (\<lambda>n c. 10 * n + digit_val c) 0 (format_u n) = n"
  by (induction n rule: format_u.induct) (subst format_u.simps, simp)

lemma format_u_inj: "format_u m = format_u n \<Longrightarrow> m = n"
  by (metis format_u_read)

lemma format_u_length: "n < 10 ^ Suc k \<Longrightarrow> length (format_u n) \<le> Suc k"
proof (induction k arbitrary: n)
  case (Suc k)
  then have "n div 10 < 10 ^ Suc k" by (simp add: div_less_iff_less_mult)
  from Suc.IH [OF this] show ?case by (subst format_u.simps) simp
qed (subst format_u.simps, simp)

text \<open>
C35: worker names are distinct as long as the prefix leaves room for the index in the 64-byte
buffer, and all workers get the same name when the prefix fills it.
\<close>

theorem worker_names_distinct:
  assumes "i < 2 ^ 31" and "j < 2 ^ 31"
  shows "(length p \<le> 52 \<longrightarrow> (worker_name (Some p) i = worker_name (Some p) j \<longleftrightarrow> i = j)) \<and>
         (63 \<le> length p \<longrightarrow> worker_name (Some p) i = take 63 p)"
proof -
  have "length (format_u k) \<le> 10" if "k < 2 ^ 31" for k
    using format_u_length [of k 9] that by simp
  then have "length (format_u i) \<le> 10" "length (format_u j) \<le> 10" using assms by blast+
  then show ?thesis
    using format_u_inj [of i j] by (auto simp: worker_name_def snprintf_def format_d_def)
qed

theorem worker_names_distinct_witness:
  "worker_name (Some ''io'') 3 \<noteq> worker_name (Some ''io'') 4 \<and>
   worker_name (Some (replicate 70 CHR ''x'')) 3 = replicate 63 CHR ''x''"
  using worker_names_distinct [of 3 4 "''io''"] worker_names_distinct [of 3 4 "replicate 70 CHR ''x''"] by simp

section \<open>Submitting to a pool\<close>

text \<open>
A submission to a running pool appends the job to the queue of exactly one worker, the one
the round-robin counter selects, and leaves every other scheduler alone; a submission to a
given worker appends it to that worker's queue, and an index out of range falls back to the
round robin.
\<close>

lemma pool_submit_selects_worker:
  assumes "mpsc_fifo Q jobs_of" and "pools s pool = Some p" and "pool_is_running p" and "pool_size_ok (worker_pool_sz p)"
    and "idx = (if 0 \<le> worker_index \<and> worker_index < worker_pool_sz p then nat worker_index
                else round_robin (pool_next p) (worker_pool_sz p))"
    and "pool_workers p ! idx = Some w" and "schedulers s w = Some c" and "sch_is_running c"
    and "eventfds s (sch_event_fd c) = Some v" and "sched_jobs s (next_addr s) = None" and "sys_ok s (next_addr s)"
  shows "\<exists>s' c'. UfsrvSchedulerPoolSubmitTo Q (Some pool) worker_index (Some f) x s = Inr (True, s') \<and>
    schedulers s' = (schedulers s)(w \<mapsto> c') \<and> jobs_of (sch_queue c') = jobs_of (sch_queue c) @ [next_addr s] \<and>
    idx < nat (worker_pool_sz p)"
proof (cases "0 \<le> worker_index \<and> worker_index < worker_pool_sz p")
  case True
  from submit_effect [OF assms(1,7,9,10), of f x] assms(8,11) obtain s' c' where
    "UfsrvSchedulerSubmit Q (Some w) (Some f) x s = Inr (True, s')" "schedulers s' = (schedulers s)(w \<mapsto> c')"
    "jobs_of (sch_queue c') = jobs_of (sch_queue c) @ [next_addr s]" by auto
  moreover from this(1) True assms(2,3,5,6) have
    "UfsrvSchedulerPoolSubmitTo Q (Some pool) worker_index (Some f) x s = Inr (True, s')"
    by (simp add: UfsrvSchedulerPoolSubmitTo_def)
  moreover have "idx < nat (worker_pool_sz p)" using True assms(5) by simp
  ultimately show ?thesis by blast
next
  case False
  let ?s = "s\<lparr>pools := (pools s)(pool \<mapsto> p\<lparr>pool_next := pool_next p + 1\<rparr>)\<rparr>"
  from submit_effect [OF assms(1), of ?s w c v f x] assms(7-11) obtain s' c' where
    run: "UfsrvSchedulerSubmit Q (Some w) (Some f) x ?s = Inr (True, s')" and eff: "schedulers s' = (schedulers s)(w \<mapsto> c')"
    "jobs_of (sch_queue c') = jobs_of (sch_queue c) @ [next_addr s]" by auto
  have idx: "idx = round_robin (pool_next p) (worker_pool_sz p)"
    using assms(5) by (simp only: if_not_P [OF False])
  have "idx < nat (worker_pool_sz p)" unfolding idx by (rule round_robin_bound [OF assms(4)])
  moreover have "worker_index < 0 \<or> worker_pool_sz p \<le> worker_index" using False by auto
  then have "UfsrvSchedulerPoolSubmitTo Q (Some pool) worker_index (Some f) x s = Inr (True, s')"
    using run assms(2,3,6) by (simp add: UfsrvSchedulerPoolSubmitTo_def UfsrvSchedulerPoolSubmit_def idx)
  ultimately show ?thesis using eff by blast
qed

end
