(* ===== verification/Scheduler_Describe_Spec.thy ===== *)
theory Scheduler_Describe_Spec
  imports Scheduler_Describe Scheduler_Pool_Spec
begin

text \<open>
  What the introspection functions produce: string literals that a JSON reader reads back, a
  document of the JSON grammar, and a block of names that can be read as C strings.
\<close>

section \<open>JSON strings\<close>

text \<open>The two-character escapes of RFC 8259, without \<open>u\<close>.\<close>

definition json_escape :: "char \<Rightarrow> char option" where
  "json_escape e =
     (if e = dquote \<or> e = backslash \<or> e = CHR ''/'' then Some e
      else if e = CHR ''b'' then Some (CHR 0x08) else if e = CHR ''f'' then Some (CHR 0x0C)
      else if e = CHR ''n'' then Some newline else if e = CHR ''r'' then Some (CHR 0x0D)
      else if e = CHR ''t'' then Some tab else None)"

definition is_control :: "char \<Rightarrow> bool" where
  "is_control c \<longleftrightarrow> of_char c < (32 :: nat)"

text \<open>A reader for what follows the opening quote: the string and the rest of the input.\<close>

fun read_json_string :: "string \<Rightarrow> (string \<times> string) option" where
  "read_json_string [] = None"
| "read_json_string (c # cs) =
     (if c = dquote then Some ([], cs)
      else if c = backslash then
        (case cs of
           [] \<Rightarrow> None
         | e # cs' \<Rightarrow>
             (case json_escape e of
                None \<Rightarrow> None
              | Some x \<Rightarrow> map_option (\<lambda>(v, rest). (x # v, rest)) (read_json_string cs')))
      else if is_control c then None
      else map_option (\<lambda>(v, rest). (c # v, rest)) (read_json_string cs))"

definition json_safe :: "string \<Rightarrow> bool" where
  "json_safe cs \<longleftrightarrow> (\<forall>c\<in>set cs. is_control c \<longrightarrow> c = newline \<or> c = tab)"

lemma controls [simp]:
  "\<not> is_control dquote" "\<not> is_control backslash" "is_control newline" "is_control tab"
  by (simp_all add: is_control_def)

lemma escapes [simp]:
  "json_escape dquote = Some dquote" "json_escape backslash = Some backslash"
  "json_escape (CHR ''n'') = Some newline" "json_escape (CHR ''t'') = Some tab"
  by (simp_all add: json_escape_def)

lemma read_described:
  "read_json_string (concat (map describe_char cs) @ dquote # rest) = (if json_safe cs then Some (cs, rest) else None)"
proof (induction cs)
  case (Cons c cs)
  then show ?case
    by (cases "c = dquote"; cases "c = backslash"; cases "c = newline"; cases "c = tab"; cases "is_control c")
      (simp_all add: describe_char_def json_safe_def)
qed (simp add: json_safe_def)

lemma buffer_lawsD:
  assumes "buffer_laws B text_of"
  shows "text_of (BufferDescriptorInit B n) = []" and "text_of (BufferDescriptorAppendFormatted B t b) = text_of b @ t"
  using assms by (simp_all add: buffer_laws_def)

lemma describe_chars_text:
  assumes "buffer_laws B text_of"
  shows "text_of (describe_chars B cs bd) = text_of bd @ concat (map describe_char cs)"
  by (induction cs arbitrary: bd) (simp_all add: buffer_lawsD [OF assms])

text \<open>The text of a name.\<close>

definition string_text :: "string option \<Rightarrow> string" where
  "string_text str = (case str of None \<Rightarrow> ''null'' | Some cs \<Rightarrow> dquote # concat (map describe_char cs) @ [dquote])"

lemma describe_string_text:
  assumes "buffer_laws B text_of"
  shows "text_of (sDescribeJsonString B bd str) = text_of bd @ string_text str"
  by (simp add: sDescribeJsonString_def string_text_def buffer_lawsD [OF assms] describe_chars_text [OF assms] split: option.split)

text \<open>
C38: the string literal that is appended for a name reads back as exactly that name, whatever
follows it, unless the name holds a control character other than newline and tab: such a
character is emitted as it is, and the literal is not JSON.
\<close>

theorem describe_string_roundtrip:
  assumes "buffer_laws B text_of"
  shows "\<exists>t. text_of (sDescribeJsonString B bd (Some cs)) = text_of bd @ dquote # t \<and>
    read_json_string (t @ rest) = (if json_safe cs then Some (cs, rest) else None)"
  using read_described [of cs rest] by (simp add: describe_string_text [OF assms] string_text_def)

definition string_buffer :: "string buffer_ops" where
  "string_buffer = \<lparr>BufferDescriptorInit = (\<lambda>_. []), BufferDescriptorAppendFormatted = (\<lambda>t b. b @ t)\<rparr>"

lemma string_buffer_laws: "buffer_laws string_buffer id"
  by (simp add: buffer_laws_def string_buffer_def)

theorem describe_string_roundtrip_witness:
  "(\<exists>t. sDescribeJsonString string_buffer [] (Some (''a'' @ [dquote])) = dquote # t \<and> read_json_string t = Some (''a'' @ [dquote], [])) \<and>
   (\<exists>t. sDescribeJsonString string_buffer [] (Some [CHR 0x0D]) = dquote # t \<and> read_json_string t = None)"
  using describe_string_roundtrip [OF string_buffer_laws, of "[]" "''a'' @ [dquote]" "[]"]
    describe_string_roundtrip [OF string_buffer_laws, of "[]" "[CHR 0x0D]" "[]"]
  by (simp add: json_safe_def is_control_def)

section \<open>The JSON grammar\<close>

datatype json = JNull | JBool bool | JNum int | JStr string | JArr "json list" | JObj "(string \<times> json) list"

definition is_ws :: "string \<Rightarrow> bool" where
  "is_ws w \<longleftrightarrow> set w \<subseteq> {CHR '' '', newline, tab, CHR 0x0D}"

text \<open>Texts of values, of the elements of an array and of the members of an object.\<close>

inductive json_text :: "json \<Rightarrow> string \<Rightarrow> bool"
  and json_items :: "json list \<Rightarrow> string \<Rightarrow> bool"
  and json_members :: "(string \<times> json) list \<Rightarrow> string \<Rightarrow> bool" where
  json_null: "json_text JNull ''null''"
| json_bool: "json_text (JBool b) (format_bool b)"
| json_num: "json_text (JNum i) (format_d i)"
| json_str: "read_json_string t = Some (v, []) \<Longrightarrow> json_text (JStr v) (dquote # t)"
| json_ws: "json_text v t \<Longrightarrow> is_ws w1 \<Longrightarrow> is_ws w2 \<Longrightarrow> json_text v (w1 @ t @ w2)"
| json_arr_empty: "is_ws w \<Longrightarrow> json_text (JArr []) (''['' @ w @ '']'')"
| json_arr: "json_items vs t \<Longrightarrow> json_text (JArr vs) (''['' @ t @ '']'')"
| json_obj_empty: "is_ws w \<Longrightarrow> json_text (JObj []) (''{'' @ w @ ''}'')"
| json_obj: "json_members ms t \<Longrightarrow> json_text (JObj ms) (''{'' @ t @ ''}'')"
| json_item: "json_text v t \<Longrightarrow> json_items [v] t"
| json_more_items: "json_text v t \<Longrightarrow> json_items vs u \<Longrightarrow> json_items (v # vs) (t @ CHR '','' # u)"
| json_member: "json_text (JStr k) kt \<Longrightarrow> json_text v t \<Longrightarrow> json_members [(k, v)] (kt @ CHR '':'' # t)"
| json_more_members: "json_text (JStr k) kt \<Longrightarrow> json_text v t \<Longrightarrow> json_members ms u \<Longrightarrow>
    json_members ((k, v) # ms) (kt @ CHR '':'' # t @ CHR '','' # u)"

text \<open>Texts joined by commas.\<close>

fun join :: "string list \<Rightarrow> string" where
  "join [] = []"
| "join [t] = t"
| "join (t # u # ts) = t @ '','' @ join (u # ts)"

definition member_text :: "string \<times> string \<Rightarrow> string" where
  "member_text = (\<lambda>(k, t). string_text (Some k) @ '':'' @ t)"

lemma items_join: "list_all2 json_text vs ts \<Longrightarrow> ts \<noteq> [] \<Longrightarrow> json_items vs (join ts)"
proof (induction ts arbitrary: vs rule: join.induct)
  case (3 t u ts)
  then obtain v vs' where v: "vs = v # vs'" "json_text v t" "list_all2 json_text vs' (u # ts)" by (auto simp: list_all2_Cons2)
  from json_more_items [OF v(2) "3.IH" [OF v(3)]] v(1) show ?case by simp
qed (auto simp: list_all2_Cons2 intro: json_text_json_items_json_members.intros)

lemma string_text_json: "json_safe k \<Longrightarrow> json_text (JStr k) (string_text (Some k))"
  using read_described [of k "[]"] by (simp add: string_text_def json_str)

lemma members_join:
  "list_all2 (\<lambda>(k, v) (k', t). k' = k \<and> json_safe k \<and> json_text v t) ms kts \<Longrightarrow> kts \<noteq> [] \<Longrightarrow> json_members ms (join (map member_text kts))"
proof (induction kts arbitrary: ms rule: induct_list012)
  case (2 x)
  then show ?case
    by (cases x) (auto simp: list_all2_Cons2 member_text_def intro: json_member string_text_json)
next
  case (3 x y kts)
  obtain k t where x: "x = (k, t)" by (cases x)
  with "3.prems"(1) obtain v ms' where v: "ms = (k, v) # ms'" "json_safe k" "json_text v t"
      "list_all2 (\<lambda>(k, v) (k', t). k' = k \<and> json_safe k \<and> json_text v t) ms' (y # kts)"
    by (auto simp: list_all2_Cons2)
  from "3.IH"(2) [OF v(4)] json_more_members [OF string_text_json [OF v(2)] v(3)] v(1) x show ?case
    by (simp add: member_text_def)
qed simp


section \<open>The description of a pool\<close>

definition worker_json :: "'q UfsrvScheduler \<Rightarrow> json" where
  "worker_json c = JObj
     [(''name'', case sch_name c of None \<Rightarrow> JNull | Some n \<Rightarrow> JStr n), (''is_running'', JBool (sch_is_running c)),
      (''is_started'', JBool (sch_is_started c)), (''is_joined'', JBool (sch_is_joined c)),
      (''is_worker_id_ready'', JBool (sch_is_worker_id_ready c)),
      (''worker_id'', if sch_is_worker_id_ready c then JNum (int (sch_worker_id c)) else JNull),
      (''event_fd'', JNum (sch_event_fd c))]"

definition pool_json :: "UfsrvSchedulerPool \<Rightarrow> 'q UfsrvScheduler list \<Rightarrow> json" where
  "pool_json p cs = JObj
     [(''worker_pool_sz'', JNum (worker_pool_sz p)), (''round_robin_next'', JNum (uint (pool_next p))),
      (''pool_is_running'', JBool (pool_is_running p)), (''workers'', JArr (map worker_json cs))]"

text \<open>The workers that a filter selects.\<close>

definition described :: "string option \<Rightarrow> 'q UfsrvScheduler list \<Rightarrow> 'q UfsrvScheduler list" where
  "described wanted cs = filter (\<lambda>c. wanted = None \<or> sch_name c = wanted) cs"

definition worker_fields :: "'q UfsrvScheduler \<Rightarrow> (string \<times> string) list" where
  "worker_fields c =
     [(''name'', string_text (sch_name c)), (''is_running'', format_bool (sch_is_running c)),
      (''is_started'', format_bool (sch_is_started c)), (''is_joined'', format_bool (sch_is_joined c)),
      (''is_worker_id_ready'', format_bool (sch_is_worker_id_ready c)),
      (''worker_id'', if sch_is_worker_id_ready c then format_u (sch_worker_id c) else ''null''),
      (''event_fd'', format_d (sch_event_fd c))]"

definition worker_text :: "'q UfsrvScheduler \<Rightarrow> string" where
  "worker_text c = (newline # ''    '') @ ''{'' @ join (map member_text (worker_fields c)) @ ''}''"

lemma describe_worker_text:
  assumes "buffer_laws B text_of"
  shows "text_of (sDescribeWorker B bd c) = text_of bd @ worker_text c"
  by (simp add: sDescribeWorker_def worker_text_def worker_fields_def member_text_def string_text_def [of "Some _"]
      describe_char_def buffer_lawsD [OF assms] describe_string_text [OF assms])

lemma format_u_d: "format_u n = format_d (int n)"
  by (simp add: format_d_def)

lemma worker_text_json:
  assumes "\<And>n. sch_name c = Some n \<Longrightarrow> json_safe n"
  shows "json_text (worker_json c) (worker_text c)"
proof -
  have name: "json_text (case sch_name c of None \<Rightarrow> JNull | Some n \<Rightarrow> JStr n) (string_text (sch_name c))"
    using assms string_text_json by (cases "sch_name c") (auto simp: string_text_def [of None] intro: json_null)
  have id: "json_text (if b then JNum (int n) else JNull) (if b then format_u n else ''null'')" for b n
    by (simp add: format_u_d json_null json_num)
  have "json_members [(''name'', case sch_name c of None \<Rightarrow> JNull | Some n \<Rightarrow> JStr n), (''is_running'', JBool (sch_is_running c)),
      (''is_started'', JBool (sch_is_started c)), (''is_joined'', JBool (sch_is_joined c)),
      (''is_worker_id_ready'', JBool (sch_is_worker_id_ready c)),
      (''worker_id'', if sch_is_worker_id_ready c then JNum (int (sch_worker_id c)) else JNull),
      (''event_fd'', JNum (sch_event_fd c))] (join (map member_text (worker_fields c)))"
    unfolding worker_fields_def
    by (rule members_join)
      (simp_all only: list_all2_Cons list_all2_Nil prod.case name id json_bool json_num, simp_all add: json_safe_def is_control_def)
  from json_ws [OF json_obj [OF this], of "newline # ''    ''" "[]"] show ?thesis
    by (simp add: worker_json_def worker_text_def is_ws_def)
qed


text \<open>The text of the array: a comma before every worker but the first.\<close>

definition workers_text :: "bool \<Rightarrow> 'q UfsrvScheduler list \<Rightarrow> string" where
  "workers_text emitted cs = (if emitted \<and> cs \<noteq> [] then '','' else []) @ join (map worker_text cs)"

lemma workers_text_Cons:
  "workers_text e (c # cs) = (if e then '','' else []) @ worker_text c @ workers_text True cs"
  by (cases cs) (simp_all add: workers_text_def)

definition workers_are :: "('u, 'fn, 'q, 'z) pool_sys_scheme \<Rightarrow> ptr list \<Rightarrow> 'q UfsrvScheduler list \<Rightarrow> bool" where
  "workers_are s = list_all2 (\<lambda>w c. \<exists>a. w = Some a \<and> schedulers s a = Some c)"

lemma workers_are_Cons:
  assumes "workers_are s (w # ws) cs"
  obtains a c cs' where "w = Some a" "schedulers s a = Some c" "cs = c # cs'" "workers_are s ws cs'"
  using assms by (auto simp: workers_are_def list_all2_Cons1)

lemma describe_workers_text:
  assumes B: "buffer_laws B text_of"
  shows "workers_are s ws cs \<Longrightarrow> \<exists>bd'. describe_workers B wanted (length ws) ws e bd s = Inr (bd', s) \<and>
    text_of bd' = text_of bd @ workers_text e (described wanted cs)"
proof (induction ws arbitrary: cs e bd)
  case Nil
  then show ?case by (simp add: workers_are_def described_def workers_text_def)
next
  case (Cons w ws)
  from Cons.prems obtain a c cs' where w: "w = Some a" "schedulers s a = Some c" and cs: "cs = c # cs'" "workers_are s ws cs'"
    by (rule workers_are_Cons)
  show ?case
  proof (cases "wanted = None \<or> sch_name c = wanted")
    case True
    let ?bd = "sDescribeWorker B (if e then BufferDescriptorAppendFormatted B '','' bd else bd) c"
    from Cons.IH [OF cs(2), of True ?bd] obtain bd' where run: "describe_workers B wanted (length ws) ws True ?bd s = Inr (bd', s)"
        and t: "text_of bd' = text_of ?bd @ workers_text True (described wanted cs')" by auto
    have "describe_workers B wanted (length (w # ws)) (w # ws) e bd s = Inr (bd', s)"
      using run w True by (auto simp: Let_def)
    moreover have "text_of bd' = text_of bd @ workers_text e (described wanted cs)"
      using t True cs(1) by (simp add: described_def workers_text_Cons describe_worker_text [OF B] buffer_lawsD [OF B])
    ultimately show ?thesis by blast
  next
    case False
    with Cons.IH [OF cs(2), of e bd] w cs(1) show ?thesis by (auto simp: described_def)
  qed
qed

lemma workers_json:
  assumes "\<forall>c\<in>set cs. \<forall>n. sch_name c = Some n \<longrightarrow> json_safe n"
  shows "json_text (JArr (map worker_json cs)) (''['' @ workers_text False cs @ [newline] @ '']'')"
proof (cases cs rule: rev_cases)
  case Nil
  then show ?thesis using json_arr_empty [of "[newline]"] by (simp add: is_ws_def workers_text_def)
next
  case (snoc xs c)
  have join: "join (ts @ [t]) @ u = join (ts @ [t @ u])" for ts t u by (induction ts rule: induct_list012) simp_all
  have all: "json_text (worker_json x) (worker_text x)" if "x \<in> set cs" for x
    using assms that by (intro worker_text_json) auto
  have "list_all2 json_text (map worker_json cs) (map worker_text xs @ [worker_text c @ [newline]])"
    using all snoc json_ws [OF all, of c "[]" "[newline]"]
    by (auto simp: list_all2_appendI list.rel_map is_ws_def intro!: list_all2_appendI list.rel_refl_strong)
  from json_arr [OF items_join [OF this]] show ?thesis
    by (simp add: snoc workers_text_def join [symmetric])
qed



text \<open>A running pool of two workers.\<close>

definition two_workers :: "((string \<times> ptr) list, string, addr list) pool_sys" where
  "two_workers = exec (bindm (UfsrvSchedulerPoolCreate list_queue (passive_call log_job) 1 2 (Some ''io'')) UfsrvSchedulerPoolStart)
     (pool_init [] (\<lambda>_. True))"


section \<open>The list of names\<close>

fun worker_names :: "('u, 'fn, 'q, 'z) pool_sys_scheme \<Rightarrow> ptr list \<Rightarrow> string list" where
  "worker_names s [] = []"
| "worker_names s (w # ws) =
     (case w of
        None \<Rightarrow> []
      | Some a \<Rightarrow> (case schedulers s a of None \<Rightarrow> [] | Some c \<Rightarrow> (case sch_name c of None \<Rightarrow> [] | Some n \<Rightarrow> [n]))) @ worker_names s ws"

definition workers_live :: "('u, 'fn, 'q, 'z) pool_sys_scheme \<Rightarrow> ptr list \<Rightarrow> bool" where
  "workers_live s ws \<longleftrightarrow> (\<forall>a. Some a \<in> set ws \<longrightarrow> schedulers s a \<noteq> None)"

definition packed :: "string list \<Rightarrow> string" where
  "packed ns = concat (map (\<lambda>n. n @ [CHR 0x00]) ns)"

primrec offsets :: "nat \<Rightarrow> string list \<Rightarrow> nat list" where
  "offsets str [] = []"
| "offsets str (n # ns) = str # offsets (str + (length n + 1)) ns"

lemma packed_simps [simp]: "packed [] = []" "packed (n # ns) = n @ CHR 0x00 # packed ns"
  by (simp_all add: packed_def)

lemma offsets_length [simp]: "length (offsets str ns) = length ns"
  by (induction ns arbitrary: str) simp_all

lemma count_names_effect:
  "workers_live s ws \<Longrightarrow> count_names (length ws) ws n b s =
    Inr ((n + length (worker_names s ws), b + length (packed (worker_names s ws))), s)"
proof (induction ws arbitrary: n b)
  case (Cons w ws)
  then have "workers_live s ws" by (simp add: workers_live_def)
  with Cons show ?case
    by (cases w) (auto simp: workers_live_def split: option.split)
qed simp

lemma block_write_at:
  "length pre = off \<Longrightarrow> length bytes \<le> length post \<Longrightarrow>
   block_write off bytes (pre @ post) s = Inr (pre @ bytes @ drop (length bytes) post, s)"
  by (auto simp: block_write_def)

lemma array_write_at: "length pre = i \<Longrightarrow> array_write i x (pre @ y # post) s = Inr (pre @ x # post, s)"
  by (auto simp: array_write_def)

lemma copy_names_effect:
  "workers_live s ws \<Longrightarrow> length pre = str \<Longrightarrow> length (packed (worker_names s ws)) \<le> length post \<Longrightarrow>
   length apre = i \<Longrightarrow> length apost = length (worker_names s ws) \<Longrightarrow>
   copy_names (length ws) ws (i + length (worker_names s ws)) i str (apre @ apost) (pre @ post) s =
     Inr ((apre @ offsets str (worker_names s ws),
       pre @ packed (worker_names s ws) @ drop (length (packed (worker_names s ws))) post), s)"
proof (induction ws arbitrary: i str pre post apre apost)
  case (Cons w ws)
  from Cons.prems(1) have live: "workers_live s ws" by (simp add: workers_live_def)
  consider (skip) "w = None \<or> (\<exists>a c. w = Some a \<and> schedulers s a = Some c \<and> sch_name c = None)"
    | (name) a c n where "w = Some a" "schedulers s a = Some c" "sch_name c = Some n"
  proof (cases w)
    case (Some a)
    with Cons.prems(1) obtain c where "schedulers s a = Some c" by (auto simp: workers_live_def)
    with Some that show thesis by (cases "sch_name c") blast+
  qed (use that in blast)
  then show ?case
  proof cases
    case skip
    then have eq: "worker_names s (w # ws) = worker_names s ws" by auto
    have step: "copy_names (length (w # ws)) (w # ws) (i + length (worker_names s ws)) i str (apre @ apost) (pre @ post) s =
        copy_names (length ws) ws (i + length (worker_names s ws)) i str (apre @ apost) (pre @ post) s" if "worker_names s ws \<noteq> []"
      using skip that by auto
    have none: "copy_names (length (w # ws)) (w # ws) i i str (apre @ apost) (pre @ post) s = Inr ((apre @ apost, pre @ post), s)" by simp
    show ?thesis
    proof (cases "worker_names s ws = []")
      case True
      with none Cons.prems(5) show ?thesis unfolding eq by (simp del: copy_names.simps)
    next
      case False
      show ?thesis unfolding eq step [OF False]
        by (rule Cons.IH [OF live Cons.prems(2) _ Cons.prems(4)]) (use Cons.prems(3,5) in \<open>simp_all only: eq\<close>)
    qed
  next
    case name
    let ?N = "worker_names s ws"
    from Cons.prems(5) name obtain y ys where y: "apost = y # ys" "length ys = length ?N" by (cases apost) auto
    let ?bytes = "n @ [CHR 0x00]"
    have len: "length ?bytes \<le> length post" "length (packed ?N) \<le> length (drop (length ?bytes) post)" using Cons.prems(3) name by auto
    have ih: "copy_names (length ws) ws (Suc i + length ?N) (Suc i) (str + (length n + 1))
        ((apre @ [str]) @ ys) ((pre @ ?bytes) @ drop (length ?bytes) post) s =
      Inr (((apre @ [str]) @ offsets (str + (length n + 1)) ?N,
        (pre @ ?bytes) @ packed ?N @ drop (length (packed ?N)) (drop (length ?bytes) post)), s)"
      by (rule Cons.IH) (use live len y Cons.prems(2,4) in simp_all)
    have "copy_names (length (w # ws)) (w # ws) (Suc i + length ?N) i str (apre @ apost) (pre @ post) s =
      copy_names (length ws) ws (Suc i + length ?N) (Suc i) (str + (length n + 1))
        ((apre @ [str]) @ ys) ((pre @ ?bytes) @ drop (length ?bytes) post) s"
      using name y(1) block_write_at [OF Cons.prems(2) len(1), of s] array_write_at [OF Cons.prems(4), of str y ys s] by simp
    with ih name show ?thesis by (simp add: add.commute)
  qed
qed simp


text \<open>Reading a C string out of the block.\<close>

definition read_cstring :: "nat \<Rightarrow> string \<Rightarrow> string" where
  "read_cstring off block = takeWhile (\<lambda>c. c \<noteq> CHR 0x00) (drop off block)"

lemma read_packed:
  "\<forall>n\<in>set ns. CHR 0x00 \<notin> set n \<Longrightarrow>
   map (\<lambda>off. read_cstring off (pre @ packed ns @ post)) (offsets (length pre) ns) = ns"
proof (induction ns arbitrary: pre)
  case (Cons n ns)
  have "takeWhile (\<lambda>c. c \<noteq> CHR 0x00) (n @ CHR 0x00 # r) = n" for r
    using Cons.prems by (induction n) auto
  then have "read_cstring (length pre) (pre @ packed (n # ns) @ post) = n" by (simp add: read_cstring_def)
  with Cons.IH [of "pre @ n @ [CHR 0x00]"] Cons.prems show ?case by simp
qed simp



end
