(* ===== verification/Coroutine.thy ===== *)
theory Coroutine
  imports Scheduler
begin

text \<open>
  Cooperative coroutines, \<^verbatim>\<open>src/ufsrv_coroutine/ufsrv_coroutine.c\<close>: per-thread
  coroutine state, the list of coroutines that were created but never resumed, and the jobs
  that resume or spawn a coroutine on a scheduler.

  The context switching itself is libaco and not part of this repository: its functions are
  the parameter \<open>aco\<close>.  Thread-local variables are functions of the thread; the calling
  thread is \<open>cur_thread\<close>.  A pointer to the static job functions of the file is a value of
  the function pointer type, passed to the functions that store it.
\<close>

section \<open>State\<close>

record 'fn UfsrvCoroutineStart =
  cs_prev :: ptr
  cs_next :: ptr
  cs_coroutine :: ptr
  cs_entry :: 'fn
  cs_arg :: ptr

record UfsrvResumeContext =
  rc_scheduler :: addr
  rc_coroutine :: addr

record 'fn UfsrvSpawnContext =
  sc_scheduler :: addr
  sc_entry :: 'fn
  sc_arg_ptr :: ptr

record ('u, 'fn, 'q) coro_sys = "('u, 'fn, 'q) sched_sys" +
  t_main_co :: "nat \<Rightarrow> ptr"
  t_share_stack :: "nat \<Rightarrow> ptr"
  t_initialized :: "nat \<Rightarrow> bool"
  t_current_scheduler :: "nat \<Rightarrow> ptr"
  t_unstarted_head :: "nat \<Rightarrow> ptr"
  co_starts :: "addr \<rightharpoonup> 'fn UfsrvCoroutineStart"
  resume_ctxs :: "addr \<rightharpoonup> UfsrvResumeContext"
  spawn_ctxs :: "addr \<rightharpoonup> 'fn UfsrvSpawnContext"

type_synonym ('u, 'fn, 'q, 'z, 'a) oprog = "(('u, 'fn, 'q, 'z) coro_sys_scheme, 'a) prog"

text \<open>
  libaco: \<open>aco_create\<close> gets the main coroutine, the shared stack and the argument of the new
  coroutine (its entry is always the trampoline below, or none for a main coroutine).
\<close>

record 's aco_ops =
  aco_thread_init :: "('s, unit) prog"
  aco_create :: "ptr \<Rightarrow> ptr \<Rightarrow> ptr \<Rightarrow> ('s, ptr) prog"
  aco_destroy :: "addr \<Rightarrow> ('s, unit) prog"
  aco_share_stack_new :: "('s, ptr) prog"
  aco_share_stack_destroy :: "addr \<Rightarrow> ('s, unit) prog"
  aco_resume :: "addr \<Rightarrow> ('s, unit) prog"
  aco_is_end :: "addr \<Rightarrow> ('s, bool) prog"
  aco_yield :: "('s, unit) prog"
  aco_exit :: "('s, unit) prog"
  aco_get_co :: "('s, ptr) prog"
  aco_get_arg :: "('s, ptr) prog"
  aco_set_arg :: "ptr \<Rightarrow> ptr \<Rightarrow> ('s, unit) prog"

type_synonym ('u, 'fn, 'q, 'z) aco = "(('u, 'fn, 'q, 'z) coro_sys_scheme) aco_ops"

abbreviation start_at :: "addr \<Rightarrow> ('u, 'fn, 'q, 'z, 'fn UfsrvCoroutineStart) oprog" where
  "start_at \<equiv> obj_at co_starts"

abbreviation upd_start ::
  "addr \<Rightarrow> ('fn UfsrvCoroutineStart \<Rightarrow> 'fn UfsrvCoroutineStart) \<Rightarrow> ('u, 'fn, 'q, 'z, unit) oprog" where
  "upd_start \<equiv> upd_obj co_starts co_starts_update"

abbreviation free_start :: "addr \<Rightarrow> ('u, 'fn, 'q, 'z, unit) oprog" where
  "free_start \<equiv> free_obj co_starts co_starts_update"

text \<open>Reading and writing a thread-local variable of the calling thread.\<close>

definition tls_get :: "(('u, 'fn, 'q, 'z) coro_sys_scheme \<Rightarrow> nat \<Rightarrow> 'v) \<Rightarrow> ('u, 'fn, 'q, 'z, 'v) oprog" where
  "tls_get v = gets (\<lambda>s. v s (cur_thread s))"

definition tls_set ::
  "(('u, 'fn, 'q, 'z) coro_sys_scheme \<Rightarrow> nat \<Rightarrow> 'v) \<Rightarrow>
   (((nat \<Rightarrow> 'v) \<Rightarrow> nat \<Rightarrow> 'v) \<Rightarrow> ('u, 'fn, 'q, 'z) coro_sys_scheme \<Rightarrow> ('u, 'fn, 'q, 'z) coro_sys_scheme) \<Rightarrow>
   'v \<Rightarrow> ('u, 'fn, 'q, 'z, unit) oprog" where
  "tls_set v u x = modify (\<lambda>s. u (\<lambda>_. (v s)(cur_thread s := x)) s)"

lemma tls_apply [simp]:
  "tls_get v s = Inr (v s (cur_thread s), s)"
  "tls_set v u x s = Inr ((), u (\<lambda>_. (v s)(cur_thread s := x)) s)"
  by (simp_all add: tls_get_def tls_set_def)

section \<open>The list of unstarted coroutines\<close>

definition sUnstartedLink :: "addr \<Rightarrow> ('u, 'fn, 'q, 'z, unit) oprog" where
  "sUnstartedLink node =
     bindm (upd_start node (\<lambda>c. c\<lparr>cs_prev := NULL\<rparr>)) (\<lambda>_.
     bindm (tls_get t_unstarted_head) (\<lambda>head.
     bindm (upd_start node (\<lambda>c. c\<lparr>cs_next := head\<rparr>)) (\<lambda>_.
     bindm (when_some head (\<lambda>h. upd_start h (\<lambda>c. c\<lparr>cs_prev := Some node\<rparr>))) (\<lambda>_.
     tls_set t_unstarted_head t_unstarted_head_update (Some node)))))"

definition sUnstartedUnlink :: "addr \<Rightarrow> ('u, 'fn, 'q, 'z, unit) oprog" where
  "sUnstartedUnlink node =
     bindm (start_at node) (\<lambda>c.
     bindm (case cs_prev c of
              Some p \<Rightarrow> upd_start p (\<lambda>d. d\<lparr>cs_next := cs_next c\<rparr>)
            | None \<Rightarrow> tls_set t_unstarted_head t_unstarted_head_update (cs_next c)) (\<lambda>_.
     bindm (start_at node) (\<lambda>c.
     bindm (when_some (cs_next c) (\<lambda>n. upd_start n (\<lambda>d. d\<lparr>cs_prev := cs_prev c\<rparr>))) (\<lambda>_.
     upd_start node (\<lambda>c. c\<lparr>cs_prev := NULL, cs_next := NULL\<rparr>)))))"

fun sReclaimUnstarted :: "('u, 'fn, 'q, 'z) aco \<Rightarrow> nat \<Rightarrow> ('u, 'fn, 'q, 'z, unit) oprog" where
  "sReclaimUnstarted aco 0 =
     bindm (tls_get t_unstarted_head) (\<lambda>head. if head = NULL then ret () else fail OutOfFuel)"
| "sReclaimUnstarted aco (Suc fuel) =
     bindm (tls_get t_unstarted_head) (\<lambda>head.
     case head of
       None \<Rightarrow> ret ()
     | Some node \<Rightarrow>
         bindm (sUnstartedUnlink node) (\<lambda>_.
         bindm (start_at node) (\<lambda>c.
         bindm (when_some (cs_coroutine c) (aco_destroy aco)) (\<lambda>_.
         bindm (free_start node) (\<lambda>_.
         sReclaimUnstarted aco fuel)))))"

section \<open>Per-thread state\<close>

definition sFreeThreadState :: "('u, 'fn, 'q, 'z) aco \<Rightarrow> nat \<Rightarrow> ('u, 'fn, 'q, 'z, unit) oprog" where
  "sFreeThreadState aco fuel =
     bindm (sReclaimUnstarted aco fuel) (\<lambda>_.
     bindm (tls_get t_share_stack) (\<lambda>st.
     bindm (when_some st (\<lambda>x. bindm (aco_share_stack_destroy aco x) (\<lambda>_. tls_set t_share_stack t_share_stack_update NULL))) (\<lambda>_.
     bindm (tls_get t_main_co) (\<lambda>mc.
     bindm (when_some mc (\<lambda>x. bindm (aco_destroy aco x) (\<lambda>_. tls_set t_main_co t_main_co_update NULL))) (\<lambda>_.
     tls_set t_initialized t_initialized_update False)))))"

definition sThreadStateDestructor :: "('u, 'fn, 'q, 'z) aco \<Rightarrow> nat \<Rightarrow> ptr \<Rightarrow> ('u, 'fn, 'q, 'z, unit) oprog" where
  "sThreadStateDestructor aco fuel arg = sFreeThreadState aco fuel"

definition sEnsureThreadInit :: "('u, 'fn, 'q, 'z) aco \<Rightarrow> ('u, 'fn, 'q, 'z, unit) oprog" where
  "sEnsureThreadInit aco =
     bindm (tls_get t_initialized) (\<lambda>done.
     if done then ret ()
     else
       bindm (aco_thread_init aco) (\<lambda>_.
       bindm (aco_create aco NULL NULL NULL) (\<lambda>main_co.
       bindm (tls_set t_main_co t_main_co_update main_co) (\<lambda>_.
       bindm (aco_share_stack_new aco) (\<lambda>stack.
       bindm (tls_set t_share_stack t_share_stack_update stack) (\<lambda>_.
       tls_set t_initialized t_initialized_update True))))))"

section \<open>Coroutines\<close>

text \<open>
  The entry of every coroutine: take the node off the list, free it, hand the argument over to
  the coroutine and run the user's entry function (the parameter \<open>entry\<close>).
\<close>

definition sCoroutineTrampoline ::
  "('u, 'fn, 'q, 'z) aco \<Rightarrow> ('fn \<Rightarrow> ('u, 'fn, 'q, 'z, unit) oprog) \<Rightarrow> ('u, 'fn, 'q, 'z, unit) oprog" where
  "sCoroutineTrampoline aco entry =
     bindm (aco_get_co aco) (\<lambda>co.
     bindm (aco_get_arg aco) (\<lambda>start_ptr.
     case start_ptr of
       None \<Rightarrow> fail UseAfterFree
     | Some node \<Rightarrow>
         bindm (start_at node) (\<lambda>c.
         bindm (sUnstartedUnlink node) (\<lambda>_.
         bindm (free_start node) (\<lambda>_.
         bindm (aco_set_arg aco co (cs_arg c)) (\<lambda>_.
         bindm (entry (cs_entry c)) (\<lambda>_.
         aco_exit aco)))))))"

definition UfsrvCoroutineCreate ::
  "('u, 'fn, 'q, 'z) aco \<Rightarrow> 'fn option \<Rightarrow> ptr \<Rightarrow> ('u, 'fn, 'q, 'z, ptr) oprog" where
  "UfsrvCoroutineCreate aco entry arg_ptr =
     (case entry of
        None \<Rightarrow> ret NULL
      | Some e \<Rightarrow>
          bindm (sEnsureThreadInit aco) (\<lambda>_.
          bindm malloc (\<lambda>start_ptr.
          case start_ptr of
            None \<Rightarrow> ret NULL
          | Some node \<Rightarrow>
              bindm (new_obj co_starts co_starts_update node
                \<lparr>cs_prev = NULL, cs_next = NULL, cs_coroutine = NULL, cs_entry = e, cs_arg = arg_ptr\<rparr>) (\<lambda>_.
              bindm (tls_get t_main_co) (\<lambda>mc.
              bindm (tls_get t_share_stack) (\<lambda>st.
              bindm (aco_create aco mc st (Some node)) (\<lambda>co.
              if co = NULL then bindm (free_start node) (\<lambda>_. ret NULL)
              else
                bindm (upd_start node (\<lambda>c. c\<lparr>cs_coroutine := co\<rparr>)) (\<lambda>_.
                bindm (sUnstartedLink node) (\<lambda>_.
                ret co)))))))))"

definition UfsrvCoroutineResume :: "('u, 'fn, 'q, 'z) aco \<Rightarrow> ptr \<Rightarrow> ('u, 'fn, 'q, 'z, unit) oprog" where
  "UfsrvCoroutineResume aco coroutine_ptr =
     (case coroutine_ptr of
        None \<Rightarrow> ret ()
      | Some co \<Rightarrow>
          bindm (sEnsureThreadInit aco) (\<lambda>_.
          bindm (aco_resume aco co) (\<lambda>_.
          bindm (aco_is_end aco co) (\<lambda>finished.
          if finished then aco_destroy aco co else ret ()))))"

definition UfsrvCoroutineYield :: "('u, 'fn, 'q, 'z) aco \<Rightarrow> ('u, 'fn, 'q, 'z, unit) oprog" where
  "UfsrvCoroutineYield aco = aco_yield aco"

definition UfsrvCoroutineCurrent :: "('u, 'fn, 'q, 'z) aco \<Rightarrow> ('u, 'fn, 'q, 'z, ptr) oprog" where
  "UfsrvCoroutineCurrent aco = aco_get_co aco"

definition UfsrvCoroutineGetArg :: "('u, 'fn, 'q, 'z) aco \<Rightarrow> ('u, 'fn, 'q, 'z, ptr) oprog" where
  "UfsrvCoroutineGetArg aco = aco_get_arg aco"

definition UfsrvCoroutineCurrentScheduler :: "('u, 'fn, 'q, 'z, ptr) oprog" where
  "UfsrvCoroutineCurrentScheduler = tls_get t_current_scheduler"

definition UfsrvCoroutineIsInCoroutine :: "('u, 'fn, 'q, 'z) aco \<Rightarrow> ('u, 'fn, 'q, 'z, bool) oprog" where
  "UfsrvCoroutineIsInCoroutine aco =
     bindm (aco_get_co aco) (\<lambda>co.
     bindm (tls_get t_initialized) (\<lambda>i.
     bindm (tls_get t_main_co) (\<lambda>mc.
     ret (i \<and> co \<noteq> NULL \<and> co \<noteq> mc))))"

definition UfsrvCoroutineExit :: "('u, 'fn, 'q, 'z) aco \<Rightarrow> ('u, 'fn, 'q, 'z, unit) oprog" where
  "UfsrvCoroutineExit aco = aco_exit aco"

definition UfsrvCoroutineThreadCleanup :: "('u, 'fn, 'q, 'z) aco \<Rightarrow> nat \<Rightarrow> ('u, 'fn, 'q, 'z, unit) oprog" where
  "UfsrvCoroutineThreadCleanup aco fuel =
     bindm (tls_get t_initialized) (\<lambda>i. if \<not> i then ret () else sFreeThreadState aco fuel)"

section \<open>Jobs\<close>

text \<open>A job function dereferences its context, so a \<open>NULL\<close> context is a fault.\<close>

definition sResumeJob :: "('u, 'fn, 'q, 'z) aco \<Rightarrow> ptr \<Rightarrow> ('u, 'fn, 'q, 'z, unit) oprog" where
  "sResumeJob aco context_ptr =
     (case context_ptr of
        None \<Rightarrow> fail UseAfterFree
      | Some ctx \<Rightarrow>
          bindm (obj_at resume_ctxs ctx) (\<lambda>c.
          bindm (tls_get t_current_scheduler) (\<lambda>prev_scheduler.
          bindm (tls_set t_current_scheduler t_current_scheduler_update (Some (rc_scheduler c))) (\<lambda>_.
          bindm (UfsrvCoroutineResume aco (Some (rc_coroutine c))) (\<lambda>_.
          bindm (tls_set t_current_scheduler t_current_scheduler_update prev_scheduler) (\<lambda>_.
          free_obj resume_ctxs resume_ctxs_update ctx))))))"

definition UfsrvCoroutineSubmitResume ::
  "'q mpsc_ops \<Rightarrow> 'fn \<Rightarrow> ptr \<Rightarrow> ptr \<Rightarrow> ('u, 'fn, 'q, 'z, bool) oprog" where
  "UfsrvCoroutineSubmitResume Q resume_job scheduler_ptr coroutine_ptr =
     (case (scheduler_ptr, coroutine_ptr) of
        (Some sch, Some co) \<Rightarrow>
          bindm malloc (\<lambda>p.
          case p of
            None \<Rightarrow> ret False
          | Some ctx \<Rightarrow>
              bindm (new_obj resume_ctxs resume_ctxs_update ctx
                       \<lparr>rc_scheduler = sch, rc_coroutine = co\<rparr>) (\<lambda>_.
              bindm (UfsrvSchedulerSubmit Q scheduler_ptr (Some resume_job) (Some ctx)) (\<lambda>ok.
              if \<not> ok then bindm (free_obj resume_ctxs resume_ctxs_update ctx) (\<lambda>_. ret False)
              else ret True)))
      | _ \<Rightarrow> ret False)"

definition sSpawnJob :: "('u, 'fn, 'q, 'z) aco \<Rightarrow> ptr \<Rightarrow> ('u, 'fn, 'q, 'z, unit) oprog" where
  "sSpawnJob aco context_ptr =
     (case context_ptr of
        None \<Rightarrow> fail UseAfterFree
      | Some ctx \<Rightarrow>
          bindm (obj_at spawn_ctxs ctx) (\<lambda>c.
          bindm (tls_get t_current_scheduler) (\<lambda>prev_scheduler.
          bindm (tls_set t_current_scheduler t_current_scheduler_update (Some (sc_scheduler c))) (\<lambda>_.
          bindm (UfsrvCoroutineCreate aco (Some (sc_entry c)) (sc_arg_ptr c)) (\<lambda>co.
          bindm (if co \<noteq> NULL then UfsrvCoroutineResume aco co else ret ()) (\<lambda>_.
          bindm (tls_set t_current_scheduler t_current_scheduler_update prev_scheduler) (\<lambda>_.
          free_obj spawn_ctxs spawn_ctxs_update ctx)))))))"

definition UfsrvCoroutineSpawn ::
  "'q mpsc_ops \<Rightarrow> 'fn \<Rightarrow> ptr \<Rightarrow> 'fn option \<Rightarrow> ptr \<Rightarrow> ('u, 'fn, 'q, 'z, unit) oprog" where
  "UfsrvCoroutineSpawn Q spawn_job scheduler_ptr entry arg_ptr =
     (case (scheduler_ptr, entry) of
        (Some sch, Some e) \<Rightarrow>
          bindm malloc (\<lambda>p.
          case p of
            None \<Rightarrow> ret ()
          | Some ctx \<Rightarrow>
              bindm (new_obj spawn_ctxs spawn_ctxs_update ctx
                       \<lparr>sc_scheduler = sch, sc_entry = e, sc_arg_ptr = arg_ptr\<rparr>) (\<lambda>_.
              bindm (UfsrvSchedulerSubmit Q scheduler_ptr (Some spawn_job) (Some ctx)) (\<lambda>ok.
              if \<not> ok then free_obj spawn_ctxs spawn_ctxs_update ctx else ret ())))
      | _ \<Rightarrow> ret ())"

section \<open>The unstarted coroutines as an intrusive list\<close>

definition cs_nxt :: "('u, 'fn, 'q, 'z) coro_sys_scheme \<Rightarrow> addr \<Rightarrow> ptr" where
  "cs_nxt s x = (case co_starts s x of None \<Rightarrow> NULL | Some c \<Rightarrow> cs_next c)"

definition cs_prv :: "('u, 'fn, 'q, 'z) coro_sys_scheme \<Rightarrow> addr \<Rightarrow> ptr" where
  "cs_prv s x = (case co_starts s x of None \<Rightarrow> NULL | Some c \<Rightarrow> cs_prev c)"

definition start_live :: "('u, 'fn, 'q, 'z) coro_sys_scheme \<Rightarrow> addr \<Rightarrow> bool" where
  "start_live s x \<longleftrightarrow> co_starts s x \<noteq> None"

definition on_thread :: "('u, 'fn, 'q, 'z) coro_sys_scheme \<Rightarrow> nat \<Rightarrow> bool" where
  "on_thread s k \<longleftrightarrow> k = cur_thread s"

lemmas cs_ptr_defs = cs_nxt_def cs_prv_def start_live_def on_thread_def

lemma sUnstartedLink_apply:
  assumes "co_starts s x = Some c" and "pred_option (start_live s) (t_unstarted_head s (cur_thread s))"
    and "t_unstarted_head s (cur_thread s) \<noteq> Some x"
  shows "sUnstartedLink x s = Inr ((), s
     \<lparr>co_starts := (case t_unstarted_head s (cur_thread s) of
          None \<Rightarrow> (co_starts s)(x \<mapsto> c\<lparr>cs_prev := NULL, cs_next := t_unstarted_head s (cur_thread s)\<rparr>)
        | Some h \<Rightarrow> (co_starts s)(x \<mapsto> c\<lparr>cs_prev := NULL, cs_next := t_unstarted_head s (cur_thread s)\<rparr>,
                                  h \<mapsto> (the (co_starts s h))\<lparr>cs_prev := Some x\<rparr>)),
      t_unstarted_head := (t_unstarted_head s)(cur_thread s := Some x)\<rparr>)"
proof (cases "t_unstarted_head s (cur_thread s)")
  case None
  then show ?thesis using assms(1) by (simp add: sUnstartedLink_def)
next
  case (Some h)
  then obtain d where "co_starts s h = Some d" and "h \<noteq> x" using assms(2,3) by (auto simp: start_live_def)
  then show ?thesis using Some assms(1) by (simp add: sUnstartedLink_def)
qed

lemma sUnstartedUnlink_apply:
  assumes "co_starts s x = Some c"
    and "pred_option (start_live s) (cs_prev c)" and "pred_option (start_live s) (cs_next c)"
    and "cs_prev c \<noteq> Some x" and "cs_next c \<noteq> Some x" and "cs_prev c \<noteq> cs_next c \<or> cs_prev c = NULL"
  shows "sUnstartedUnlink x s = Inr ((), s
     \<lparr>t_unstarted_head := (case cs_prev c of
          None \<Rightarrow> (t_unstarted_head s)(cur_thread s := cs_next c) | Some p \<Rightarrow> t_unstarted_head s),
      co_starts :=
        (let m1 = (case cs_prev c of
               None \<Rightarrow> co_starts s
             | Some p \<Rightarrow> (co_starts s)(p \<mapsto> (the (co_starts s p))\<lparr>cs_next := cs_next c\<rparr>));
             m2 = (case cs_next c of
               None \<Rightarrow> m1
             | Some n \<Rightarrow> m1(n \<mapsto> (the (co_starts s n))\<lparr>cs_prev := cs_prev c\<rparr>))
         in m2(x \<mapsto> c\<lparr>cs_prev := NULL, cs_next := NULL\<rparr>))\<rparr>)"
proof -
  have p: "p \<noteq> x \<and> (\<exists>d. co_starts s p = Some d)" if "cs_prev c = Some p" for p
    using assms that by (auto simp: start_live_def)
  have n: "n \<noteq> x \<and> (\<exists>d. co_starts s n = Some d)" if "cs_next c = Some n" for n
    using assms that by (auto simp: start_live_def)
  have pn: "p \<noteq> n" if "cs_prev c = Some p" "cs_next c = Some n" for p n using assms(6) that by auto
  show ?thesis
  proof (cases "cs_prev c")
    case None
    show ?thesis
    proof (cases "cs_next c")
      case (Some m)
      with n obtain d where "m \<noteq> x" "co_starts s m = Some d" by blast
      with None Some assms(1) show ?thesis by (simp add: sUnstartedUnlink_def)
    qed (use None assms(1) in \<open>simp add: sUnstartedUnlink_def\<close>)
  next
    case (Some q)
    with p obtain e where e: "q \<noteq> x" "co_starts s q = Some e" by blast
    show ?thesis
    proof (cases "cs_next c")
      case next_node: (Some m)
      with n obtain d where "m \<noteq> x" "co_starts s m = Some d" by blast
      with Some next_node assms(1) e pn [OF Some next_node] show ?thesis by (simp add: sUnstartedUnlink_def)
    qed (use Some assms(1) e in \<open>simp add: sUnstartedUnlink_def\<close>)
  qed
qed

lemma sUnstartedUnlink_ptrs:
  assumes "on_thread s k" and "start_live s x" and "separate (cs_nxt s) (cs_prv s) x"
    and "pred_option (start_live s) (cs_prv s x)" and "pred_option (start_live s) (cs_nxt s x)"
  shows "t_unstarted_head (exec (sUnstartedUnlink x) s) =
           (if cs_prv s x = NULL then (t_unstarted_head s)(k := cs_nxt s x) else t_unstarted_head s)"
    and "cs_nxt (exec (sUnstartedUnlink x) s) =
           (case cs_prv s x of None \<Rightarrow> (cs_nxt s)(x := NULL)
            | Some y \<Rightarrow> (cs_nxt s)(y := cs_nxt s x, x := NULL))"
    and "cs_prv (exec (sUnstartedUnlink x) s) =
           (case cs_nxt s x of None \<Rightarrow> (cs_prv s)(x := NULL)
            | Some y \<Rightarrow> (cs_prv s)(y := cs_prv s x, x := NULL))"
proof -
  from assms obtain c where c: "co_starts s x = Some c" by (auto simp: start_live_def)
  have k: "k = cur_thread s" using assms(1) by (simp add: on_thread_def)
  have sep: "cs_prev c \<noteq> Some x" "cs_next c \<noteq> Some x" "cs_prev c \<noteq> cs_next c \<or> cs_prev c = NULL"
    "pred_option (start_live s) (cs_prev c)" "pred_option (start_live s) (cs_next c)"
    using assms(3-5) c by (auto simp: separate_def cs_nxt_def cs_prv_def)
  note U = sUnstartedUnlink_apply [OF c sep(4,5,1,2,3)]
  note ptrs = c exec_def U cs_nxt_def cs_prv_def fun_eq_iff k
  show "t_unstarted_head (exec (sUnstartedUnlink x) s) =
           (if cs_prv s x = NULL then (t_unstarted_head s)(k := cs_nxt s x) else t_unstarted_head s)"
    by (cases "cs_prev c") (simp_all add: ptrs)
  show "cs_nxt (exec (sUnstartedUnlink x) s) =
           (case cs_prv s x of None \<Rightarrow> (cs_nxt s)(x := NULL)
            | Some y \<Rightarrow> (cs_nxt s)(y := cs_nxt s x, x := NULL))"
    using sep by (cases "cs_prev c"; cases "cs_next c") (auto simp: ptrs start_live_def)
  show "cs_prv (exec (sUnstartedUnlink x) s) =
           (case cs_nxt s x of None \<Rightarrow> (cs_prv s)(x := NULL)
            | Some y \<Rightarrow> (cs_prv s)(y := cs_prv s x, x := NULL))"
    using sep by (cases "cs_prev c"; cases "cs_next c") (auto simp: ptrs start_live_def)
qed

lemma sUnstartedLink_ptrs:
  assumes "on_thread s k" and "start_live s x" and "t_unstarted_head s k \<noteq> Some x"
    and "pred_option (start_live s) (t_unstarted_head s k)"
  shows "t_unstarted_head (exec (sUnstartedLink x) s) = (t_unstarted_head s)(k := Some x)"
    and "cs_nxt (exec (sUnstartedLink x) s) = (cs_nxt s)(x := t_unstarted_head s k)"
    and "cs_prv (exec (sUnstartedLink x) s) =
           (case t_unstarted_head s k of None \<Rightarrow> (cs_prv s)(x := NULL) | Some y \<Rightarrow> (cs_prv s)(x := NULL, y := Some x))"
proof -
  from assms obtain c where c: "co_starts s x = Some c" by (auto simp: start_live_def)
  have k: "k = cur_thread s" using assms(1) by (simp add: on_thread_def)
  note L = sUnstartedLink_apply [OF c assms(4) [unfolded k] assms(3) [unfolded k]]
  note ptrs = c exec_def L cs_nxt_def cs_prv_def fun_eq_iff k
  show "t_unstarted_head (exec (sUnstartedLink x) s) = (t_unstarted_head s)(k := Some x)"
    by (simp add: ptrs)
  show "cs_nxt (exec (sUnstartedLink x) s) = (cs_nxt s)(x := t_unstarted_head s k)"
    and "cs_prv (exec (sUnstartedLink x) s) =
           (case t_unstarted_head s k of None \<Rightarrow> (cs_prv s)(x := NULL) | Some y \<Rightarrow> (cs_prv s)(x := NULL, y := Some x))"
    using assms(3,4) by (cases "t_unstarted_head s (cur_thread s)"; auto simp: ptrs start_live_def)+
qed

interpretation ul: intrusive_list cs_nxt cs_prv t_unstarted_head on_thread start_live start_live
  "\<lambda>k x. exec (sUnstartedLink x)" "\<lambda>k x. exec (sUnstartedUnlink x)"
  by unfold_locales (rule sUnstartedLink_ptrs sUnstartedUnlink_ptrs; assumption)+

text \<open>The coroutines the calling thread has created and not yet resumed, most recent first.\<close>

definition unstarted :: "('u, 'fn, 'q, 'z) coro_sys_scheme \<Rightarrow> addr list \<Rightarrow> bool" where
  "unstarted s xs \<longleftrightarrow> ul.is_list s (cur_thread s) xs"

end
