(* ===== verification/Coroutine_Spec.thy ===== *)
theory Coroutine_Spec
  imports Coroutine Scheduler_Spec
begin

text \<open>
  What the coroutine layer promises: the list of unstarted coroutines is exactly the list of
  coroutines created and not yet resumed, each of them is destroyed exactly once when the
  thread's state is torn down, a started one never, and the resume and spawn contexts are
  neither leaked nor used after they were freed.
\<close>

section \<open>Helper facts\<close>

text \<open>What libaco's \<open>aco_destroy\<close> does: it changes nothing but its own state, kept in \<open>user\<close>.\<close>

definition aco_destroys :: "('u, 'fn, 'q, 'z) aco \<Rightarrow> (addr \<Rightarrow> 'u \<Rightarrow> 'u) \<Rightarrow> bool" where
  "aco_destroys aco dst \<longleftrightarrow> (\<forall>co s. aco_destroy aco co s = Inr ((), s\<lparr>user := dst co (user s)\<rparr>))"

definition co_of :: "('u, 'fn, 'q, 'z) coro_sys_scheme \<Rightarrow> addr \<Rightarrow> ptr option" where
  "co_of s m = map_option cs_coroutine (co_starts s m)"

text \<open>What destroying the unstarted coroutines \<open>xs\<close> does to libaco's state.\<close>

definition destroy_unstarted ::
  "(addr \<Rightarrow> 'u \<Rightarrow> 'u) \<Rightarrow> ('u, 'fn, 'q, 'z) coro_sys_scheme \<Rightarrow> addr list \<Rightarrow> 'u \<Rightarrow> 'u" where
  "destroy_unstarted dst s xs = fold (\<lambda>m u. case co_of s m of Some (Some co) \<Rightarrow> dst co u | _ \<Rightarrow> u) xs"

text \<open>Unlinking a node of the calling thread's list, with what it leaves alone.\<close>

lemma unlink_node:
  assumes lst: "ul.is_list s (cur_thread s) (ys @ x # zs)"
  obtains T S where "sUnstartedUnlink x s = Inr ((), s\<lparr>t_unstarted_head := T, co_starts := S\<rparr>)"
    and "ul.is_list (s\<lparr>t_unstarted_head := T, co_starts := S\<rparr>) (cur_thread s) (ys @ zs)"
    and "\<And>m. m \<notin> set (ys @ x # zs) \<Longrightarrow> S m = co_starts s m"
    and "co_of (s\<lparr>t_unstarted_head := T, co_starts := S\<rparr>) = co_of s"
    and "\<And>k. k \<noteq> cur_thread s \<Longrightarrow> T k = t_unstarted_head s k"
proof -
  note nb = ul.neighbours [OF lst]
  from nb(6) obtain c where c: "co_starts s x = Some c" by (auto simp: start_live_def)
  have sep: "cs_prev c \<noteq> Some x" "cs_next c \<noteq> Some x" "cs_prev c \<noteq> cs_next c \<or> cs_prev c = NULL"
    "pred_option (start_live s) (cs_prev c)" "pred_option (start_live s) (cs_next c)"
    using nb(3-5) c by (auto simp: separate_def cs_nxt_def cs_prv_def)
  have pn: "p \<in> set ys" if "cs_prev c = Some p" for p
    using nb(1) c that by (auto simp: cs_prv_def split: if_splits)
  have nn: "n \<in> set zs" if "cs_next c = Some n" for n
    using nb(2) c that by (auto simp: cs_nxt_def split: if_splits)
  note U = sUnstartedUnlink_apply [OF c sep(4,5,1,2,3)]
  define T where "T = (case cs_prev c of
          None \<Rightarrow> (t_unstarted_head s)(cur_thread s := cs_next c) | Some p \<Rightarrow> t_unstarted_head s)"
  define S where "S = (let m1 = (case cs_prev c of
               None \<Rightarrow> co_starts s
             | Some p \<Rightarrow> (co_starts s)(p \<mapsto> (the (co_starts s p))\<lparr>cs_next := cs_next c\<rparr>));
             m2 = (case cs_next c of
               None \<Rightarrow> m1
             | Some n \<Rightarrow> m1(n \<mapsto> (the (co_starts s n))\<lparr>cs_prev := cs_prev c\<rparr>))
         in m2(x \<mapsto> c\<lparr>cs_prev := NULL, cs_next := NULL\<rparr>))"
  have run: "sUnstartedUnlink x s = Inr ((), s\<lparr>t_unstarted_head := T, co_starts := S\<rparr>)"
    using U by (simp only: T_def S_def)
  then have ex: "exec (sUnstartedUnlink x) s = s\<lparr>t_unstarted_head := T, co_starts := S\<rparr>" by simp
  have co: "map_option cs_coroutine (S m) = map_option cs_coroutine (co_starts s m)" for m
    using c sep by (cases "cs_prev c"; cases "cs_next c") (auto simp: S_def start_live_def)
  then have live: "(S m = None) = (co_starts s m = None)" for m by (metis map_option_is_None)
  have S: "S m = co_starts s m" if "m \<notin> set (ys @ x # zs)" for m
    using that pn nn by (cases "cs_prev c"; cases "cs_next c") (auto simp: S_def)
  have lst': "ul.is_list (s\<lparr>t_unstarted_head := T, co_starts := S\<rparr>) (cur_thread s) (ys @ zs)"
    using ul.unlink_dlist(1) [OF lst] lst live unfolding ex ul.is_list_def
    by (auto simp: on_thread_def start_live_def)
  have co': "co_of (s\<lparr>t_unstarted_head := T, co_starts := S\<rparr>) = co_of s"
    by (simp add: co_of_def fun_eq_iff co)
  have T: "T k = t_unstarted_head s k" if "k \<noteq> cur_thread s" for k
    using that by (simp add: T_def split: option.split)
  show thesis by (rule that [OF run lst' S co' T])
qed

lemma is_list_free:
  assumes "ul.is_list s k xs" and "x \<notin> set xs"
  shows "ul.is_list (s\<lparr>user := u, co_starts := (co_starts s)(x := None)\<rparr>) k xs"
proof -
  let ?s = "s\<lparr>user := u, co_starts := (co_starts s)(x := None)\<rparr>"
  have "cs_nxt ?s m = cs_nxt s m" "cs_prv ?s m = cs_prv s m" if "m \<in> set xs" for m
    using assms(2) that by (auto simp: cs_nxt_def cs_prv_def)
  then have "dlist (cs_nxt ?s) (cs_prv ?s) NULL (t_unstarted_head s k) xs = dlist (cs_nxt s) (cs_prv s) NULL (t_unstarted_head s k) xs"
    by (intro dlist_cong) auto
  then show ?thesis using assms by (auto simp: ul.is_list_def on_thread_def start_live_def)
qed

lemma reclaim_effect:
  assumes aco: "aco_destroys aco dst"
  shows "ul.is_list s (cur_thread s) xs \<Longrightarrow> length xs \<le> fuel \<Longrightarrow>
    \<exists>s'. sReclaimUnstarted aco fuel s = Inr ((), s') \<and> cur_thread s' = cur_thread s \<and>
      ul.is_list s' (cur_thread s) [] \<and> (\<forall>k. k \<noteq> cur_thread s \<longrightarrow> t_unstarted_head s' k = t_unstarted_head s k) \<and>
      co_starts s' = (\<lambda>m. if m \<in> set xs then None else co_starts s m) \<and>
      t_share_stack s' = t_share_stack s \<and> t_main_co s' = t_main_co s \<and> user s' = destroy_unstarted dst s xs (user s)"
proof (induction xs arbitrary: s fuel)
  case Nil
  then have "t_unstarted_head s (cur_thread s) = NULL" by (simp add: ul.is_list_def)
  then show ?case using Nil.prems by (cases fuel) (auto simp: destroy_unstarted_def)
next
  case (Cons x xs)
  from Cons.prems obtain n where fuel: "fuel = Suc n" "length xs \<le> n" by (cases fuel) auto
  have hd: "t_unstarted_head s (cur_thread s) = Some x" and di: "x \<notin> set xs"
    using Cons.prems(1) by (auto simp: ul.is_list_def)
  obtain T S where un: "sUnstartedUnlink x s = Inr ((), s\<lparr>t_unstarted_head := T, co_starts := S\<rparr>)"
    and lst: "ul.is_list (s\<lparr>t_unstarted_head := T, co_starts := S\<rparr>) (cur_thread s) xs"
    and S: "\<And>m. m \<notin> set (x # xs) \<Longrightarrow> S m = co_starts s m"
    and co: "co_of (s\<lparr>t_unstarted_head := T, co_starts := S\<rparr>) = co_of s"
    and T: "\<And>k. k \<noteq> cur_thread s \<Longrightarrow> T k = t_unstarted_head s k"
    by (rule unlink_node [of s "[]" x xs, unfolded append_Nil, OF Cons.prems(1)]) (rule that)
  have "start_live s x" using Cons.prems(1) by (simp add: ul.is_list_def)
  then have "co_starts s x \<noteq> None" by (simp add: start_live_def)
  then obtain c where c: "S x = Some c" using fun_cong [OF co, of x] by (auto simp: co_of_def)
  define u where "u = (case co_of s x of Some (Some co) \<Rightarrow> dst co (user s) | _ \<Rightarrow> user s)"
  let ?s = "s\<lparr>t_unstarted_head := T, user := u, co_starts := S(x := None)\<rparr>"
  have cx: "co_of s x = Some (cs_coroutine c)" using fun_cong [OF co, of x] c by (simp add: co_of_def)
  have run: "sReclaimUnstarted aco fuel s = sReclaimUnstarted aco n ?s"
    using hd un c aco cx by (cases "cs_coroutine c") (simp_all add: fuel(1) u_def aco_destroys_def)
  have lst': "ul.is_list ?s (cur_thread ?s) xs" using is_list_free [OF lst di, of u] by simp
  from Cons.IH [OF lst' fuel(2)] obtain s' where s': "sReclaimUnstarted aco n ?s = Inr ((), s')"
      "cur_thread s' = cur_thread ?s" "ul.is_list s' (cur_thread ?s) []"
      "\<forall>k. k \<noteq> cur_thread ?s \<longrightarrow> t_unstarted_head s' k = t_unstarted_head ?s k"
      "co_starts s' = (\<lambda>m. if m \<in> set xs then None else co_starts ?s m)"
      "t_share_stack s' = t_share_stack ?s" "t_main_co s' = t_main_co ?s"
      "user s' = destroy_unstarted dst ?s xs (user ?s)" by blast
  have "co_of ?s m = co_of s m" if "m \<in> set xs" for m
    using fun_cong [OF co, of m] that di by (auto simp: co_of_def)
  then have "fold (\<lambda>m u. case co_of ?s m of Some (Some co) \<Rightarrow> dst co u | _ \<Rightarrow> u) xs u =
      fold (\<lambda>m u. case co_of s m of Some (Some co) \<Rightarrow> dst co u | _ \<Rightarrow> u) xs u"
    by (intro fold_cong) auto
  moreover have "co_starts s' = (\<lambda>m. if m \<in> set (x # xs) then None else co_starts s m)"
    unfolding s'(5) using S by (auto simp: fun_eq_iff)
  ultimately show ?case using run s' T by (auto simp: u_def destroy_unstarted_def)
qed

text \<open>
  What \<open>aco_create\<close> and the functions of the shared stack do: they change nothing but libaco's
  state, and \<open>aco_create\<close> returns the new coroutine or \<open>NULL\<close>.
\<close>

definition aco_creates :: "('u, 'fn, 'q, 'z) aco \<Rightarrow> ('u \<Rightarrow> ptr \<times> 'u) \<Rightarrow> bool" where
  "aco_creates aco mk \<longleftrightarrow>
     (\<forall>mc st arg s. aco_create aco mc st arg s = Inr (fst (mk (user s)), s\<lparr>user := snd (mk (user s))\<rparr>))"

definition aco_stack_destroys :: "('u, 'fn, 'q, 'z) aco \<Rightarrow> (addr \<Rightarrow> 'u \<Rightarrow> 'u) \<Rightarrow> bool" where
  "aco_stack_destroys aco dst \<longleftrightarrow> (\<forall>st s. aco_share_stack_destroy aco st s = Inr ((), s\<lparr>user := dst st (user s)\<rparr>))"

lemma is_list_cong:
  assumes "t_unstarted_head s' = t_unstarted_head s" and "co_starts s' = co_starts s" and "cur_thread s' = cur_thread s"
  shows "ul.is_list s' k xs = ul.is_list s k xs"
proof -
  have "cs_nxt s' = cs_nxt s" "cs_prv s' = cs_prv s" by (simp_all add: cs_nxt_def cs_prv_def fun_eq_iff assms(2))
  then show ?thesis using assms by (simp add: ul.is_list_def) (simp add: on_thread_def start_live_def)
qed

text \<open>Linking a fresh node puts it in front.\<close>

lemma link_node:
  assumes lst: "ul.is_list s (cur_thread s) xs" and c: "co_starts s x = Some c" and x: "x \<notin> set xs"
  obtains S where "sUnstartedLink x s = Inr ((), s\<lparr>co_starts := S, t_unstarted_head := (t_unstarted_head s)(cur_thread s := Some x)\<rparr>)"
    and "ul.is_list (s\<lparr>co_starts := S, t_unstarted_head := (t_unstarted_head s)(cur_thread s := Some x)\<rparr>) (cur_thread s) (x # xs)"
    and "\<exists>p. S x = Some (c\<lparr>cs_prev := NULL, cs_next := p\<rparr>)"
    and "\<And>m. map_option cs_coroutine (S m) = co_of s m"
proof -
  let ?h = "t_unstarted_head s (cur_thread s)"
  have live: "start_live s x" using c by (simp add: start_live_def)
  have h: "?h \<noteq> Some x" "\<And>y. ?h = Some y \<Longrightarrow> y \<in> set xs" using lst x by (cases xs; auto simp: ul.is_list_def)+
  note L = sUnstartedLink_apply [OF c ul.hd_live [OF lst] h(1)]
  define S where "S = (case ?h of
          None \<Rightarrow> (co_starts s)(x \<mapsto> c\<lparr>cs_prev := NULL, cs_next := ?h\<rparr>)
        | Some h \<Rightarrow> (co_starts s)(x \<mapsto> c\<lparr>cs_prev := NULL, cs_next := ?h\<rparr>, h \<mapsto> (the (co_starts s h))\<lparr>cs_prev := Some x\<rparr>))"
  let ?s = "s\<lparr>co_starts := S, t_unstarted_head := (t_unstarted_head s)(cur_thread s := Some x)\<rparr>"
  have run: "sUnstartedLink x s = Inr ((), ?s)" using L by (simp only: S_def)
  then have ex: "exec (sUnstartedLink x) s = ?s" by simp
  have Sx: "\<exists>p. S x = Some (c\<lparr>cs_prev := NULL, cs_next := p\<rparr>)" using h by (cases ?h) (auto simp: S_def)
  have Sm: "map_option cs_coroutine (S m) = co_of s m" for m
    using c h(1) ul.hd_live [OF lst] by (cases ?h) (auto simp: S_def co_of_def start_live_def)
  have "start_live ?s m" if "m \<in> set (x # xs)" for m
  proof (cases "m = x")
    case False
    then have "start_live s m" using lst that by (auto simp: ul.is_list_def)
    then show ?thesis by (cases ?h) (auto simp: S_def start_live_def)
  qed (use Sx in \<open>auto simp: start_live_def\<close>)
  then have "ul.is_list ?s (cur_thread s) (x # xs)"
    using ul.link_dlist [OF lst live x] lst x unfolding ex ul.is_list_def by (auto simp: on_thread_def)
  from that [OF run this Sx Sm] show thesis .
qed

lemma create_linked:
  assumes aco: "aco_creates aco mk" and lst: "ul.is_list s (cur_thread s) xs" and init: "t_initialized s (cur_thread s)"
    and ok: "sys_ok s (next_addr s)" and co: "mk (user s) = (Some co, u)" and fresh: "next_addr s \<notin> set xs"
  shows "\<exists>s' c. UfsrvCoroutineCreate aco (Some e) arg s = Inr (Some co, s') \<and> user s' = u \<and> cur_thread s' = cur_thread s \<and>
    ul.is_list s' (cur_thread s) (next_addr s # xs) \<and> co_starts s' (next_addr s) = Some c \<and>
    cs_coroutine c = Some co \<and> cs_entry c = e \<and> cs_arg c = arg \<and>
    co_of s' = (co_of s)(next_addr s \<mapsto> Some co) \<and> next_addr s' = Suc (next_addr s) \<and> t_initialized s' = t_initialized s"
proof -
  let ?n = "next_addr s"
  let ?c = "\<lparr>cs_prev = NULL, cs_next = NULL, cs_coroutine = Some co, cs_entry = e, cs_arg = arg\<rparr>"
  let ?s = "s\<lparr>next_addr := Suc ?n, user := u, co_starts := (co_starts s)(?n \<mapsto> ?c)\<rparr>"
  have "cs_nxt ?s m = cs_nxt s m" "cs_prv ?s m = cs_prv s m" if "m \<in> set xs" for m
    using fresh that by (auto simp: cs_nxt_def cs_prv_def)
  then have "dlist (cs_nxt ?s) (cs_prv ?s) NULL (t_unstarted_head s (cur_thread s)) xs =
      dlist (cs_nxt s) (cs_prv s) NULL (t_unstarted_head s (cur_thread s)) xs" by (intro dlist_cong) auto
  then have lst1: "ul.is_list ?s (cur_thread ?s) xs"
    using lst by (simp add: ul.is_list_def) (auto simp: on_thread_def start_live_def)
  have c1: "co_starts ?s ?n = Some ?c" by simp
  obtain S where lk: "sUnstartedLink ?n ?s = Inr ((), ?s\<lparr>co_starts := S, t_unstarted_head := (t_unstarted_head ?s)(cur_thread ?s := Some ?n)\<rparr>)"
    and lst2: "ul.is_list (?s\<lparr>co_starts := S, t_unstarted_head := (t_unstarted_head ?s)(cur_thread ?s := Some ?n)\<rparr>) (cur_thread ?s) (?n # xs)"
    and Sx: "\<exists>p. S ?n = Some (?c\<lparr>cs_prev := NULL, cs_next := p\<rparr>)"
    and Sm: "\<And>m. map_option cs_coroutine (S m) = co_of ?s m"
    by (rule link_node [OF lst1 c1 fresh]) (rule that)
  have "co_of (?s\<lparr>co_starts := S, t_unstarted_head := (t_unstarted_head ?s)(cur_thread ?s := Some ?n)\<rparr>) = (co_of s)(?n \<mapsto> Some co)"
    using Sm by (simp add: fun_eq_iff co_of_def)
  moreover have "UfsrvCoroutineCreate aco (Some e) arg s =
      Inr (Some co, ?s\<lparr>co_starts := S, t_unstarted_head := (t_unstarted_head ?s)(cur_thread ?s := Some ?n)\<rparr>)"
    using init ok aco co lk by (simp add: UfsrvCoroutineCreate_def sEnsureThreadInit_def aco_creates_def)
  ultimately show ?thesis using lst2 Sx by fastforce
qed

section \<open>Properties\<close>

text \<open>
\<open>UfsrvCoroutineCreate\<close> puts the new coroutine, with its entry and argument, in front of the
thread's list of unstarted coroutines, and leaves the others in the list.
\<close>

lemma coroutine_create_links:
  assumes "aco_creates aco mk" and "unstarted s xs" and "t_initialized s (cur_thread s)"
    and "sys_ok s (next_addr s)" and "mk (user s) = (Some co, u)" and "next_addr s \<notin> set xs"
  shows "\<exists>s' c. UfsrvCoroutineCreate aco (Some e) arg s = Inr (Some co, s') \<and> user s' = u \<and>
    unstarted s' (next_addr s # xs) \<and> co_starts s' (next_addr s) = Some c \<and>
    cs_coroutine c = Some co \<and> cs_entry c = e \<and> cs_arg c = arg"
  using create_linked [OF assms(1) assms(2) [unfolded unstarted_def] assms(3-6), of e arg]
  unfolding unstarted_def by metis

text \<open>A concrete libaco: it numbers the coroutines and logs what it destroys.\<close>

definition log_aco :: "(nat \<times> string list \<times> addr list, string, addr list, 'z) aco" where
  "log_aco = \<lparr>aco_thread_init = ret (),
     aco_create = (\<lambda>mc st arg s. Inr (Some (fst (user s)), s\<lparr>user := (Suc (fst (user s)), snd (user s))\<rparr>)),
     aco_destroy = (\<lambda>co s. Inr ((), s\<lparr>user := (case user s of (n, l, d) \<Rightarrow> (n, l, d @ [co]))\<rparr>)),
     aco_share_stack_new = ret (Some 2),
     aco_share_stack_destroy = (\<lambda>st s. Inr ((), s\<lparr>user := (case user s of (n, l, d) \<Rightarrow> (n, l, d @ [st]))\<rparr>)),
     aco_resume = (\<lambda>co s. Inr ((), s\<lparr>user := (case user s of (n, l, d) \<Rightarrow> (n, l @ [''resume''], d))\<rparr>)),
     aco_is_end = (\<lambda>co. gets (\<lambda>s. fst (snd (user s)) = [''resume'', ''resume''])),
     aco_yield = ret (), aco_exit = ret (), aco_get_co = ret (Some 101), aco_get_arg = ret (Some 17),
     aco_set_arg = (\<lambda>co a s. Inr ((), s\<lparr>user := (case user s of (n, l, d) \<Rightarrow> (n, l @ [''arg''], d))\<rparr>))\<rparr>"

definition log_destroy :: "addr \<Rightarrow> nat \<times> string list \<times> addr list \<Rightarrow> nat \<times> string list \<times> addr list" where
  "log_destroy co u = (case u of (n, l, d) \<Rightarrow> (n, l, d @ [co]))"

lemma log_aco_laws:
  "aco_creates log_aco (\<lambda>u. (Some (fst u), (Suc (fst u), snd u)))"
  "aco_destroys log_aco log_destroy" "aco_stack_destroys log_aco log_destroy"
  by (simp_all add: log_aco_def aco_creates_def aco_destroys_def aco_stack_destroys_def log_destroy_def)

text \<open>A thread with an initialised coroutine state and no coroutines.\<close>

definition coro_init :: "(nat \<times> string list \<times> addr list, string, addr list) coro_sys" where
  "coro_init = sched_sys.extend (sched_init (100, [], []) (\<lambda>_. True))
     (coro_sys.fields (\<lambda>_. Some 1) (\<lambda>_. Some 2) (\<lambda>_. True) (\<lambda>_. NULL) (\<lambda>_. NULL) Map.empty Map.empty Map.empty)"

lemma coro_init_facts:
  "unstarted coro_init []" "t_initialized coro_init k" "sys_ok coro_init n" "user coro_init = (100, [], [])"
  "next_addr coro_init = 16"
  by (simp_all add: unstarted_def ul.is_list_def on_thread_def coro_init_def sched_init_def sched_sys.defs coro_sys.defs)

text \<open>
C39: tearing down a thread's coroutine state destroys every coroutine that was never resumed
exactly once, most recent first, then the shared stack and the main coroutine, and leaves no
list node and no thread-local pointer behind.
\<close>

theorem thread_cleanup_destroys_unstarted:
  assumes "aco_destroys aco dst" and "aco_stack_destroys aco sdst" and "unstarted s xs" and "length xs \<le> fuel"
    and "t_initialized s (cur_thread s)" and "t_share_stack s (cur_thread s) = Some st" and "t_main_co s (cur_thread s) = Some mc"
  shows "\<exists>s'. UfsrvCoroutineThreadCleanup aco fuel s = Inr ((), s') \<and> unstarted s' [] \<and> cur_thread s' = cur_thread s \<and>
    user s' = dst mc (sdst st (destroy_unstarted dst s xs (user s))) \<and>
    co_starts s' = (\<lambda>m. if m \<in> set xs then None else co_starts s m) \<and> \<not> t_initialized s' (cur_thread s) \<and>
    t_main_co s' (cur_thread s) = NULL \<and> t_share_stack s' (cur_thread s) = NULL"
proof -
  let ?k = "cur_thread s"
  from reclaim_effect [OF assms(1) assms(3) [unfolded unstarted_def] assms(4)] obtain s1 where
    run: "sReclaimUnstarted aco fuel s = Inr ((), s1)" "cur_thread s1 = ?k" "ul.is_list s1 ?k []"
    and st: "co_starts s1 = (\<lambda>m. if m \<in> set xs then None else co_starts s m)"
    and tls: "t_share_stack s1 = t_share_stack s" "t_main_co s1 = t_main_co s"
    and us: "user s1 = destroy_unstarted dst s xs (user s)" by blast
  have "\<exists>s'. UfsrvCoroutineThreadCleanup aco fuel s = Inr ((), s') \<and> t_unstarted_head s' = t_unstarted_head s1 \<and>
      user s' = dst mc (sdst st (user s1)) \<and> co_starts s' = co_starts s1 \<and> cur_thread s' = ?k \<and>
      \<not> t_initialized s' ?k \<and> t_main_co s' ?k = NULL \<and> t_share_stack s' ?k = NULL"
    using run tls assms(1,2,5-7)
    by (simp add: UfsrvCoroutineThreadCleanup_def sFreeThreadState_def aco_destroys_def aco_stack_destroys_def)
  then obtain s' where s': "UfsrvCoroutineThreadCleanup aco fuel s = Inr ((), s')" "t_unstarted_head s' = t_unstarted_head s1"
      "user s' = dst mc (sdst st (user s1))" "co_starts s' = co_starts s1" "cur_thread s' = ?k"
      "\<not> t_initialized s' ?k" "t_main_co s' ?k = NULL" "t_share_stack s' ?k = NULL"
    by blast
  have "unstarted s' []" using is_list_cong [of s' s1 ?k "[]"] s'(2,4,5) run(2,3) by (simp add: unstarted_def)
  with s' st us show ?thesis by auto
qed

text \<open>A thread that created two coroutines and never resumed them.\<close>

definition two_unstarted :: "(nat \<times> string list \<times> addr list, string, addr list) coro_sys" where
  "two_unstarted = exec (bindm (UfsrvCoroutineCreate log_aco (Some ''a'') NULL) (\<lambda>_.
     UfsrvCoroutineCreate log_aco (Some ''b'') NULL)) coro_init"

lemmas coro_eval = coro_init_def sched_init_def sched_sys.defs coro_sys.defs UfsrvCoroutineCreate_def
  sEnsureThreadInit_def sUnstartedLink_def exec_def bindm_def malloc_def obj_at_def upd_obj_def log_aco_def

lemma two_unstarted_facts:
  "unstarted two_unstarted [17, 16]" "t_initialized two_unstarted k" "t_share_stack two_unstarted k = Some 2"
  "t_main_co two_unstarted k = Some 1" "destroy_unstarted log_destroy two_unstarted [17, 16] u = log_destroy 100 (log_destroy 101 u)"
  "user two_unstarted = (102, [], [])" "cur_thread two_unstarted = 0"
  by (simp_all add: two_unstarted_def coro_eval unstarted_def ul.is_list_def on_thread_def start_live_def
      cs_nxt_def cs_prv_def destroy_unstarted_def co_of_def)

theorem thread_cleanup_destroys_unstarted_witness:
  "\<exists>s'. UfsrvCoroutineThreadCleanup log_aco 2 two_unstarted = Inr ((), s') \<and> unstarted s' [] \<and>
     user s' = (102, [], [101, 100, 2, 1]) \<and> co_starts s' 16 = None"
proof -
  from thread_cleanup_destroys_unstarted [OF log_aco_laws(2,3) two_unstarted_facts(1) _ two_unstarted_facts(2-4), of 2]
  show ?thesis by (auto simp: two_unstarted_facts(5,6) log_destroy_def)
qed

text \<open>
When a coroutine is first switched to, its trampoline takes exactly its own node off the
thread's list and frees it before the user's entry runs, so the later thread teardown does not
destroy a started coroutine; the entry then runs with the argument given to \<open>Create\<close>.
\<close>

lemma trampoline_takes_own_node:
  assumes "unstarted s (ys @ node # zs)" and "co_starts s node = Some c"
    and "aco_get_co aco s = Inr (co, s)" and "aco_get_arg aco s = Inr (Some node, s)"
  shows "\<exists>s1. sCoroutineTrampoline aco entry s =
      bindm (aco_set_arg aco co (cs_arg c)) (\<lambda>_. bindm (entry (cs_entry c)) (\<lambda>_. aco_exit aco)) s1 \<and>
    unstarted s1 (ys @ zs) \<and> co_starts s1 node = None \<and> user s1 = user s \<and>
    (\<forall>m. m \<notin> set (ys @ node # zs) \<longrightarrow> co_starts s1 m = co_starts s m) \<and> co_of s1 = (co_of s)(node := None) \<and>
    next_addr s1 = next_addr s \<and> cur_thread s1 = cur_thread s \<and> t_initialized s1 = t_initialized s"
proof -
  obtain T S where un: "sUnstartedUnlink node s = Inr ((), s\<lparr>t_unstarted_head := T, co_starts := S\<rparr>)"
    and lst: "ul.is_list (s\<lparr>t_unstarted_head := T, co_starts := S\<rparr>) (cur_thread s) (ys @ zs)"
    and S: "\<And>m. m \<notin> set (ys @ node # zs) \<Longrightarrow> S m = co_starts s m"
    and co: "co_of (s\<lparr>t_unstarted_head := T, co_starts := S\<rparr>) = co_of s"
    by (rule unlink_node [OF assms(1) [unfolded unstarted_def]]) (rule that)
  obtain d where d: "S node = Some d" using fun_cong [OF co, of node] assms(2) by (auto simp: co_of_def)
  let ?s = "s\<lparr>t_unstarted_head := T, co_starts := S(node := None)\<rparr>"
  have "node \<notin> set (ys @ zs)" using assms(1) by (auto simp: unstarted_def ul.is_list_def)
  from is_list_free [OF lst this, of "user s"] have "unstarted ?s (ys @ zs)" by (simp add: unstarted_def)
  moreover have "co_of ?s = (co_of s)(node := None)" using co by (simp add: co_of_def fun_eq_iff)
  ultimately show ?thesis using assms un d S by (intro exI [of _ ?s]) (simp add: sCoroutineTrampoline_def)
qed

text \<open>
\<open>SubmitResume\<close> answers true exactly when both allocations succeed and the scheduler is
running; then a resume job for this coroutine and scheduler is at the end of the queue, and
otherwise the context is freed again and no object is left behind.
\<close>

lemma submit_resume_effect:
  assumes "mpsc_fifo Q jobs_of" and "schedulers s sch = Some c" and "eventfds s (sch_event_fd c) = Some v"
    and "sched_jobs s (Suc (next_addr s)) = None" and "resume_ctxs s (next_addr s) = None"
  shows "\<exists>s' c'. UfsrvCoroutineSubmitResume Q rj (Some sch) (Some co) s =
      Inr (sys_ok s (next_addr s) \<and> sys_ok s (Suc (next_addr s)) \<and> sch_is_running c, s') \<and>
    user s' = user s \<and> schedulers s' = (schedulers s)(sch \<mapsto> c') \<and>
    (if sys_ok s (next_addr s) \<and> sys_ok s (Suc (next_addr s)) \<and> sch_is_running c
     then jobs_of (sch_queue c') = jobs_of (sch_queue c) @ [Suc (next_addr s)] \<and>
       sched_jobs s' = (sched_jobs s)(Suc (next_addr s) \<mapsto>
         \<lparr>job_callback = Some rj, job_callback_context = Some (next_addr s)\<rparr>) \<and>
       resume_ctxs s' = (resume_ctxs s)(next_addr s \<mapsto> \<lparr>rc_scheduler = sch, rc_coroutine = co\<rparr>)
     else c' = c \<and> sched_jobs s' = sched_jobs s \<and> resume_ctxs s' = resume_ctxs s)"
proof -
  let ?n = "next_addr s"
  note code = UfsrvCoroutineSubmitResume_def UfsrvSchedulerSubmit_def sSubmitToScheduler_def submit_prepare_def
    submit_check_def submit_insert_def wake_worker_def eventfd_write_def
  have same: "(schedulers s)(sch \<mapsto> c) = schedulers s" "(sched_jobs s)(Suc ?n := None) = sched_jobs s"
    "(resume_ctxs s)(?n := None) = resume_ctxs s"
    using assms(2,4,5) by auto
  show ?thesis
  proof (cases "sys_ok s ?n \<and> sys_ok s (Suc ?n) \<and> sch_is_running c")
    case True
    let ?c = "c\<lparr>sch_queue := mpsc_queue_insert Q (Suc ?n) (sch_queue c)\<rparr>"
    let ?s = "s\<lparr>next_addr := Suc (Suc ?n), resume_ctxs := (resume_ctxs s)(?n \<mapsto> \<lparr>rc_scheduler = sch, rc_coroutine = co\<rparr>),
        sched_jobs := (sched_jobs s)(Suc ?n \<mapsto> \<lparr>job_callback = Some rj, job_callback_context = Some ?n\<rparr>),
        schedulers := (schedulers s)(sch \<mapsto> ?c), eventfds := (eventfds s)(sch_event_fd c \<mapsto> v + 1)\<rparr>"
    have run: "UfsrvCoroutineSubmitResume Q rj (Some sch) (Some co) s = Inr (True, ?s)"
      using True assms(2,3) by (simp add: code)
    have "jobs_of (sch_queue ?c) = jobs_of (sch_queue c) @ [Suc ?n]" using mpsc_fifoD(2) [OF assms(1)] by simp
    then show ?thesis using True by (intro exI [of _ ?s] exI [of _ ?c]) (simp add: run)
  next
    case False
    have "\<exists>s'. UfsrvCoroutineSubmitResume Q rj (Some sch) (Some co) s = Inr (False, s') \<and> user s' = user s \<and>
        schedulers s' = schedulers s \<and> sched_jobs s' = sched_jobs s \<and> resume_ctxs s' = resume_ctxs s"
      using False assms(2,3) same by (cases "sys_ok s ?n"; cases "sys_ok s (Suc ?n)") (simp_all add: code)
    with False same(1) show ?thesis by metis
  qed
qed

text \<open>
A resume job runs the coroutine with the thread's current scheduler set to the one it was
submitted to, then restores the previous one and frees its context, whatever the coroutine did.
\<close>

lemma resume_job_restores_scheduler:
  assumes "resume_ctxs s ctx = Some c" and "cur_thread s = k"
    and "UfsrvCoroutineResume aco (Some (rc_coroutine c))
      (s\<lparr>t_current_scheduler := (t_current_scheduler s)(k := Some (rc_scheduler c))\<rparr>) = Inr ((), s1)"
    and "cur_thread s1 = k" and "resume_ctxs s1 ctx \<noteq> None"
  shows "\<exists>s'. sResumeJob aco (Some ctx) s = Inr ((), s') \<and> t_current_scheduler s' k = t_current_scheduler s k \<and>
    resume_ctxs s' = (resume_ctxs s1)(ctx := None) \<and> user s' = user s1"
  using assms by (auto simp: sResumeJob_def)

section \<open>Well-formedness of a thread's coroutine state\<close>

text \<open>
What libaco does when a thread is set up and when a coroutine starts and ends: it changes its own
state only.
\<close>

definition aco_inits :: "('u, 'fn, 'q, 'z) aco \<Rightarrow> ('u \<Rightarrow> 'u) \<Rightarrow> ('u \<Rightarrow> ptr \<times> 'u) \<Rightarrow> bool" where
  "aco_inits aco ini stk \<longleftrightarrow>
     (\<forall>s. aco_thread_init aco s = Inr ((), s\<lparr>user := ini (user s)\<rparr>) \<and>
       aco_share_stack_new aco s = Inr (fst (stk (user s)), s\<lparr>user := snd (stk (user s))\<rparr>))"

definition aco_hands_over :: "('u, 'fn, 'q, 'z) aco \<Rightarrow> (ptr \<Rightarrow> ptr \<Rightarrow> 'u \<Rightarrow> 'u) \<Rightarrow> ('u \<Rightarrow> 'u) \<Rightarrow> bool" where
  "aco_hands_over aco sa ex \<longleftrightarrow>
     (\<forall>s. (\<forall>co arg. aco_set_arg aco co arg s = Inr ((), s\<lparr>user := sa co arg (user s)\<rparr>)) \<and> aco_exit aco s = Inr ((), s\<lparr>user := ex (user s)\<rparr>))"

text \<open>
The thread's list of unstarted coroutines is a well-formed doubly linked list of allocated nodes,
each of which names the coroutine it was created with, and a thread whose state was not set up has
no coroutine, no main coroutine and no stack.
\<close>

definition coro_wf :: "('u, 'fn, 'q, 'z) coro_sys_scheme \<Rightarrow> addr list \<Rightarrow> bool" where
  "coro_wf s xs \<longleftrightarrow> unstarted s xs \<and>
     (\<forall>x\<in>set xs. x < next_addr s \<and> (\<exists>co. co_of s x = Some (Some co))) \<and>
     (\<not> t_initialized s (cur_thread s) \<longrightarrow>
        xs = [] \<and> t_main_co s (cur_thread s) = NULL \<and> t_share_stack s (cur_thread s) = NULL)"

lemma coro_wf_user [simp]: "coro_wf (s\<lparr>user := u\<rparr>) xs = coro_wf s xs"
  using is_list_cong [of "s\<lparr>user := u\<rparr>" s "cur_thread s" xs] by (simp add: coro_wf_def unstarted_def co_of_def)

lemma ensure_init_wf:
  assumes "aco_creates aco mk" "aco_inits aco ini stk" and wf: "coro_wf s xs"
  obtains s' where "sEnsureThreadInit aco s = Inr ((), s')" "coro_wf s' xs" "t_initialized s' (cur_thread s')"
    "next_addr s' = next_addr s" "sys_ok s' = sys_ok s" "cur_thread s' = cur_thread s"
proof (cases "t_initialized s (cur_thread s)")
  case True
  then show thesis using that [of s] wf by (simp add: sEnsureThreadInit_def)
next
  case False
  obtain s' where run: "sEnsureThreadInit aco s = Inr ((), s')" and
      eqs: "t_unstarted_head s' = t_unstarted_head s" "co_starts s' = co_starts s" "cur_thread s' = cur_thread s"
      "t_initialized s' (cur_thread s')" "next_addr s' = next_addr s" "sys_ok s' = sys_ok s"
    using False assms(1,2) by (simp add: sEnsureThreadInit_def aco_creates_def aco_inits_def)
  have "coro_wf s' xs" using wf is_list_cong [OF eqs(1-3), of "cur_thread s" xs] eqs by (simp add: coro_wf_def unstarted_def co_of_def)
  from that [OF run this eqs(4-6,3)] show thesis .
qed

lemma create_wf:
  assumes aco: "aco_creates aco mk" "aco_inits aco ini stk" and wf: "coro_wf s xs"
  shows "\<exists>p s'. UfsrvCoroutineCreate aco entry arg s = Inr (p, s') \<and> cur_thread s' = cur_thread s \<and>
    coro_wf s' (if p = NULL then xs else next_addr s # xs) \<and> (p \<noteq> NULL \<longrightarrow> co_of s' (next_addr s) = Some p)"
proof (cases entry)
  case None
  then show ?thesis using wf by (simp add: UfsrvCoroutineCreate_def)
next
  case (Some e)
  obtain s1 where init: "sEnsureThreadInit aco s = Inr ((), s1)" and wf1: "coro_wf s1 xs" "t_initialized s1 (cur_thread s1)"
    and eqs: "next_addr s1 = next_addr s" "sys_ok s1 = sys_ok s" "cur_thread s1 = cur_thread s"
    by (rule ensure_init_wf [OF aco wf])
  have same: "UfsrvCoroutineCreate aco (Some e) arg s = UfsrvCoroutineCreate aco (Some e) arg s1"
    using init wf1(2) by (simp add: UfsrvCoroutineCreate_def sEnsureThreadInit_def [of aco, THEN fun_cong, of s1])
  have fresh: "next_addr s1 \<notin> set xs" using wf1(1) by (auto simp: coro_wf_def)
  obtain co u where co: "mk (user s1) = (co, u)" by fastforce
  let ?s = "s1\<lparr>next_addr := Suc (next_addr s1)\<rparr>"
  have grow: "coro_wf ?s xs" using wf1(1) is_list_cong [of ?s s1 "cur_thread s1" xs] by (auto simp: coro_wf_def unstarted_def co_of_def less_Suc_eq)
  consider "\<not> sys_ok s1 (next_addr s1)" | "sys_ok s1 (next_addr s1)" "co = NULL" | c where "sys_ok s1 (next_addr s1)" "co = Some c"
    by (cases co) auto
  then show ?thesis
  proof cases
    case 1
    then have "UfsrvCoroutineCreate aco (Some e) arg s1 = Inr (NULL, ?s)" using wf1(2) by (simp add: UfsrvCoroutineCreate_def sEnsureThreadInit_def)
    then show ?thesis using grow same Some eqs(3) by simp
  next
    case 2
    let ?s' = "?s\<lparr>user := u, co_starts := (co_starts ?s)(next_addr s1 := None)\<rparr>"
    have "UfsrvCoroutineCreate aco (Some e) arg s1 = Inr (NULL, ?s')"
      using 2 wf1(2) aco(1) co by (simp add: UfsrvCoroutineCreate_def sEnsureThreadInit_def aco_creates_def)
    moreover have "coro_wf ?s' xs"
      using grow fresh is_list_free [of ?s "cur_thread s1" xs "next_addr s1" u] by (auto simp: coro_wf_def unstarted_def co_of_def)
    ultimately show ?thesis using same Some eqs(3) by (intro exI [of _ NULL] exI [of _ ?s']) simp
  next
    case 3
    from create_linked [OF aco(1) _ wf1(2) 3(1) co [unfolded 3(2)] fresh, of e arg] wf1(1) obtain s' where
      "UfsrvCoroutineCreate aco (Some e) arg s1 = Inr (Some c, s')" "cur_thread s' = cur_thread s1"
      "ul.is_list s' (cur_thread s1) (next_addr s1 # xs)" "co_of s' = (co_of s1)(next_addr s1 \<mapsto> Some c)"
      "next_addr s' = Suc (next_addr s1)" "t_initialized s' = t_initialized s1"
      by (auto simp: coro_wf_def unstarted_def)
    then show ?thesis using same Some eqs wf1 by (auto simp: coro_wf_def unstarted_def)
  qed
qed

lemma cleanup_wf:
  assumes "aco_destroys aco dst" "aco_stack_destroys aco sdst" and wf: "coro_wf s xs" and fuel: "length xs \<le> fuel"
  shows "\<exists>s'. UfsrvCoroutineThreadCleanup aco fuel s = Inr ((), s') \<and> cur_thread s' = cur_thread s \<and> coro_wf s' [] \<and> \<not> t_initialized s' (cur_thread s)"
proof (cases "t_initialized s (cur_thread s)")
  case False
  then show ?thesis using wf by (auto simp: UfsrvCoroutineThreadCleanup_def coro_wf_def)
next
  case True
  let ?k = "cur_thread s"
  have "ul.is_list s ?k xs" using wf by (simp add: coro_wf_def unstarted_def)
  from reclaim_effect [OF assms(1) this fuel] obtain s1 where
    run: "sReclaimUnstarted aco fuel s = Inr ((), s1)" "cur_thread s1 = ?k" "ul.is_list s1 ?k []" by blast
  obtain s' where s': "UfsrvCoroutineThreadCleanup aco fuel s = Inr ((), s')" "t_unstarted_head s' = t_unstarted_head s1"
      "co_starts s' = co_starts s1" "cur_thread s' = cur_thread s1" "t_main_co s' ?k = NULL" "t_share_stack s' ?k = NULL" "\<not> t_initialized s' ?k"
    using run True assms(1,2)
    by (cases "t_share_stack s1 ?k"; cases "t_main_co s1 ?k")
      (simp_all add: UfsrvCoroutineThreadCleanup_def sFreeThreadState_def aco_destroys_def aco_stack_destroys_def)
  then show ?thesis using is_list_cong [OF s'(2-4), of ?k "[]"] run by (simp add: coro_wf_def unstarted_def)
qed

lemma trampoline_wf:
  assumes aco: "aco_hands_over aco sa ex" "aco_get_co aco s = Inr (co, s)" "aco_get_arg aco s = Inr (Some node, s)"
    and wf: "coro_wf s xs" "node \<in> set xs"
    and entry: "\<And>c s1 ys. co_starts s node = Some c \<Longrightarrow> coro_wf s1 ys \<Longrightarrow> \<exists>s' zs. entry (cs_entry c) s1 = Inr ((), s') \<and> coro_wf s' zs"
  shows "\<exists>s' zs. sCoroutineTrampoline aco entry s = Inr ((), s') \<and> coro_wf s' zs"
proof -
  from wf(2) obtain ys zs where xs: "xs = ys @ node # zs" by (meson split_list)
  have un: "unstarted s (ys @ node # zs)" and di: "node \<notin> set (ys @ zs)" and lv: "co_starts s node \<noteq> None"
    using wf by (auto simp: coro_wf_def xs unstarted_def ul.is_list_def start_live_def)
  then obtain c where c: "co_starts s node = Some c" by blast
  from trampoline_takes_own_node [OF un c aco(2,3), of entry] obtain s1 where
    run: "sCoroutineTrampoline aco entry s = bindm (aco_set_arg aco co (cs_arg c)) (\<lambda>_. bindm (entry (cs_entry c)) (\<lambda>_. aco_exit aco)) s1"
    and s1: "unstarted s1 (ys @ zs)" "co_of s1 = (co_of s)(node := None)" "next_addr s1 = next_addr s" "cur_thread s1 = cur_thread s"
      "t_initialized s1 = t_initialized s" by blast
  have "coro_wf s1 (ys @ zs)" using wf di s1 by (auto simp: coro_wf_def xs)
  then have "coro_wf (s1\<lparr>user := sa co (cs_arg c) (user s1)\<rparr>) (ys @ zs)" by simp
  from entry [OF c this] obtain s' us where "entry (cs_entry c) (s1\<lparr>user := sa co (cs_arg c) (user s1)\<rparr>) = Inr ((), s')" "coro_wf s' us" by blast
  then show ?thesis using run aco(1) by (intro exI [of _ "s'\<lparr>user := ex (user s')\<rparr>"] exI [of _ us]) (simp add: aco_hands_over_def)
qed

text \<open>
C40: the coroutine state of a thread stays well formed, and none of the functions that change it
faults: whichever allocation fails, creating a coroutine sets the thread up if need be and either
returns it with its node in front of the list or returns \<open>NULL\<close> with the list unchanged; the
trampoline takes its own node off the list wherever it stands and keeps the state well formed
whenever the entry function does; the teardown leaves the state of a thread that was never set up.
\<close>

theorem coroutine_state_wf:
  assumes aco: "aco_creates aco mk" "aco_inits aco ini stk" "aco_destroys aco dst" "aco_stack_destroys aco sdst" "aco_hands_over aco sa ex"
    and wf: "coro_wf s xs"
  shows "(\<exists>p s'. UfsrvCoroutineCreate aco fn arg s = Inr (p, s') \<and>
      coro_wf s' (if p = NULL then xs else next_addr s # xs) \<and> (p \<noteq> NULL \<longrightarrow> co_of s' (next_addr s) = Some p)) \<and>
    (length xs \<le> fuel \<longrightarrow> (\<exists>s'. UfsrvCoroutineThreadCleanup aco fuel s = Inr ((), s') \<and> coro_wf s' [] \<and> \<not> t_initialized s' (cur_thread s))) \<and>
    (\<forall>node co c. node \<in> set xs \<and> co_starts s node = Some c \<and> aco_get_co aco s = Inr (co, s) \<and> aco_get_arg aco s = Inr (Some node, s) \<and>
       (\<forall>s1 ys. coro_wf s1 ys \<longrightarrow> (\<exists>s' zs. entry (cs_entry c) s1 = Inr ((), s') \<and> coro_wf s' zs)) \<longrightarrow>
       (\<exists>s' zs. sCoroutineTrampoline aco entry s = Inr ((), s') \<and> coro_wf s' zs))"
proof (intro conjI allI impI)
  show "\<exists>p s'. UfsrvCoroutineCreate aco fn arg s = Inr (p, s') \<and>
      coro_wf s' (if p = NULL then xs else next_addr s # xs) \<and> (p \<noteq> NULL \<longrightarrow> co_of s' (next_addr s) = Some p)"
    using create_wf [OF aco(1,2) wf, of fn arg] by blast
  show "\<exists>s'. UfsrvCoroutineThreadCleanup aco fuel s = Inr ((), s') \<and> coro_wf s' [] \<and> \<not> t_initialized s' (cur_thread s)" if "length xs \<le> fuel"
    using cleanup_wf [OF aco(3,4) wf that] by blast
next
  fix node co c
  assume h: "node \<in> set xs \<and> co_starts s node = Some c \<and> aco_get_co aco s = Inr (co, s) \<and> aco_get_arg aco s = Inr (Some node, s) \<and>
    (\<forall>s1 ys. coro_wf s1 ys \<longrightarrow> (\<exists>s' zs. entry (cs_entry c) s1 = Inr ((), s') \<and> coro_wf s' zs))"
  show "\<exists>s' zs. sCoroutineTrampoline aco entry s = Inr ((), s') \<and> coro_wf s' zs"
    by (rule trampoline_wf [OF aco(5) _ _ wf, of co node]) (use h in auto)
qed

theorem coroutine_state_wf_witness:
  "(\<exists>p s'. UfsrvCoroutineCreate log_aco (Some ''c'') NULL two_unstarted = Inr (p, s') \<and> coro_wf s' (if p = NULL then [17, 16] else [18, 17, 16])) \<and>
   (\<exists>s'. UfsrvCoroutineThreadCleanup log_aco 2 two_unstarted = Inr ((), s') \<and> coro_wf s' []) \<and>
   (\<exists>s' zs. sCoroutineTrampoline log_aco (\<lambda>_. ret ()) two_unstarted = Inr ((), s') \<and> coro_wf s' zs)"
proof -
  have n: "next_addr two_unstarted = 18" by (simp add: two_unstarted_def coro_eval)
  have co: "co_of two_unstarted 16 = Some (Some 100)" "co_of two_unstarted 17 = Some (Some 101)"
    by (simp_all add: two_unstarted_def coro_eval co_of_def)
  then obtain c where c: "co_starts two_unstarted 17 = Some c" by (auto simp: co_of_def)
  have wf: "coro_wf two_unstarted [17, 16]" using two_unstarted_facts co by (simp add: coro_wf_def n)
  have aco: "aco_inits log_aco id (\<lambda>u. (Some 2, u))" "aco_hands_over log_aco (\<lambda>_ _ (n, l, d). (n, l @ [''arg''], d)) id"
    "aco_get_co log_aco two_unstarted = Inr (Some 101, two_unstarted)" "aco_get_arg log_aco two_unstarted = Inr (Some 17, two_unstarted)"
    by (simp_all add: aco_inits_def aco_hands_over_def log_aco_def)
  have r: "\<exists>s' zs. ret () s1 = Inr ((), s') \<and> coro_wf s' zs" if "coro_wf s1 ys"
    for s1 :: "(nat \<times> string list \<times> addr list, string, addr list) coro_sys" and ys
    using that by auto
  note w = coroutine_state_wf [OF log_aco_laws(1) aco(1) log_aco_laws(2,3) aco(2) wf, of "Some ''c''" NULL 2 "\<lambda>_. ret ()"]
  show ?thesis using w c aco(3,4) r unfolding n by fastforce
qed

end
