(* ===== verification/Future.thy ===== *)
theory Future
  imports Coroutine
begin

text \<open>
  Futures and promises, the core of \<^verbatim>\<open>src/ufsrv_future/ufsrv_future.c\<close> and its private
  header: creation, completion, continuations, waiting with and without cancellation,
  reference counting, and attaching a cancellation token.  The operators are in the theory
  \<open>Future_Operators\<close>.

  Function pointers are values.  \<open>fnp\<close> are the pointers of type \<^verbatim>\<open>void (*)(void *)\<close>: an
  application function, C's \<^verbatim>\<open>free\<close>, or one of the library's static functions;
  \<open>contfn\<close> are the pointers of type \<^verbatim>\<open>UfsrvFutureCallback\<close>.  Calling a pointer is the
  parameter \<open>call\<close>, which \<open>Future_Operators\<close> instantiates with the code of the functions
  themselves.  A continuation gets a pointer to the result inside a future: the model passes
  the address of that future.

  uflib's lock-free stack is not part of this repository: its operations on a stack and on the
  node embedded in each element are the parameter \<open>env_ts\<close>, its documented behaviour is
  \<open>treiber_laws\<close>.  A stolen chain of nodes is given as the list of the nodes' addresses.
\<close>

section \<open>Function pointers\<close>

datatype 'c fnp = F_user 'c | F_free | F_sResumeJob | F_sSpawnJob | F_sFutureCancelCallback
  | F_sFutureCancelRelease | F_sResumeWaiterOnCancel | F_sWakeBlockingWaiterOnCancel | F_sWaiterCancelRelease

datatype 'c contfn = K_user 'c | K_sMoveChainContinuation | K_sMapContinuation | K_sFlatMapContinuation
  | K_sOnErrorContinuation | K_sDoOnSuccessContinuation | K_sAllContinuation | K_sAnyContinuation
  | K_sZipFirstContinuation | K_sZipSecondContinuation

datatype 'c rx_call = Call_void "'c fnp" ptr | Call_cont "'c contfn" addr ptr

section \<open>State\<close>

record 'c UfsrvFutureResult =
  res_error :: int
  res_value :: ptr
  res_free_value :: "'c fnp option"

datatype future_state = UFSRV_FUTURE_PENDING | UFSRV_FUTURE_READY

record ('c, 'n) UfsrvContinuation =
  ct_base :: 'n
  ct_fn :: "'c contfn"
  ct_user :: ptr

record 'n UfsrvWaiter =
  wt_base :: 'n
  wt_coroutine :: ptr
  wt_scheduler :: ptr
  wt_block_fd :: int
  wt_cancel_handle :: ptr

record 'c UfsrvFuture =
  fu_is_completed :: bool
  fu_is_consumed :: bool
  fu_state :: future_state
  fu_result :: "'c UfsrvFutureResult"
  fu_continuations :: ptr
  fu_waiters :: ptr
  fu_refcount :: int
  fu_cancel_token :: ptr
  fu_cancel_handle :: ptr

record UfsrvPromise =
  pr_future :: ptr
  pr_is_fulfilled :: bool

text \<open>The contexts of the operators, allocated by the functions of \<open>Future_Operators\<close>.\<close>

record 'c UfsrvMapContext =
  mc_out_promise :: ptr
  mc_mapper :: 'c
  mc_user :: ptr
  mc_free_value :: "'c fnp option"

record 'c UfsrvFlatMapContext =
  fc_out_promise :: ptr
  fc_mapper :: 'c
  fc_user :: ptr
  fc_token :: ptr

record 'c UfsrvOnErrorContext =
  ec_out_promise :: ptr
  ec_recovery :: 'c
  ec_user :: ptr
  ec_in_future :: ptr

record 'c UfsrvDoOnSuccessContext =
  dc_out_promise :: ptr
  dc_action :: 'c
  dc_user :: ptr
  dc_in_future :: ptr

record UfsrvAllContext =
  ac_out_promise :: ptr
  ac_remaining :: int
  ac_failed :: bool

record UfsrvAnyContext =
  nc_out_promise :: ptr
  nc_claimed :: bool
  nc_remaining :: int

record UfsrvAnyRegistration =
  ar_ctx :: addr
  ar_in_future :: ptr

record 'c UfsrvZipContext =
  zc_out_promise :: ptr
  zc_zipper :: 'c
  zc_user :: ptr
  zc_first_future :: ptr
  zc_second_future :: ptr
  zc_first :: "'c UfsrvFutureResult"
  zc_second :: "'c UfsrvFutureResult"
  zc_remaining :: int
  zc_free_value :: "'c fnp option"

record ('u, 'c, 'q, 't, 'n) future_sys = "('u, 'c fnp, 'q) coro_sys" +
  stacks :: "addr \<rightharpoonup> 't"
  conts :: "addr \<rightharpoonup> ('c, 'n) UfsrvContinuation"
  waiters :: "addr \<rightharpoonup> 'n UfsrvWaiter"
  futures :: "addr \<rightharpoonup> 'c UfsrvFuture"
  promises :: "addr \<rightharpoonup> UfsrvPromise"
  map_ctxs :: "addr \<rightharpoonup> 'c UfsrvMapContext"
  flatmap_ctxs :: "addr \<rightharpoonup> 'c UfsrvFlatMapContext"
  onerror_ctxs :: "addr \<rightharpoonup> 'c UfsrvOnErrorContext"
  dos_ctxs :: "addr \<rightharpoonup> 'c UfsrvDoOnSuccessContext"
  all_ctxs :: "addr \<rightharpoonup> UfsrvAllContext"
  any_ctxs :: "addr \<rightharpoonup> UfsrvAnyContext"
  any_regs :: "addr \<rightharpoonup> UfsrvAnyRegistration"
  zip_ctxs :: "addr \<rightharpoonup> 'c UfsrvZipContext"

type_synonym ('u, 'c, 'q, 't, 'n, 'z, 'a) fprog = "(('u, 'c, 'q, 't, 'n, 'z) future_sys_scheme, 'a) prog"

type_synonym ('u, 'c, 'q, 't, 'n, 'z) fcall = "'c rx_call \<Rightarrow> ('u, 'c, 'q, 't, 'n, 'z, unit) fprog"

section \<open>The environment\<close>

text \<open>uflib's \<^verbatim>\<open>lockless_treiber_stack\<close>.\<close>

record ('t, 'n) treiber_ops =
  ts_new :: 't
  ts_push :: "addr \<Rightarrow> 't \<Rightarrow> bool \<times> 't"
  ts_steal :: "'t \<Rightarrow> addr list \<times> 't"
  tn_init :: 'n
  tn_claim :: "'n \<Rightarrow> bool \<times> 'n"
  tn_release :: "'n \<Rightarrow> bool \<times> 'n"
  tn_retain :: "'n \<Rightarrow> 'n"

text \<open>
  What the code relies on: a push is refused exactly when the stack was closed, stealing takes
  every node, last pushed first, and closes the stack; a node starts with two references
  (pusher and stack) and unclaimed, \<open>claim\<close> succeeds once, \<open>release\<close> answers whether it dropped
  the last reference.
\<close>

definition treiber_laws ::
  "('t, 'n) treiber_ops \<Rightarrow> ('t \<Rightarrow> addr list) \<Rightarrow> ('t \<Rightarrow> bool) \<Rightarrow> ('n \<Rightarrow> int) \<Rightarrow> ('n \<Rightarrow> bool) \<Rightarrow> bool" where
  "treiber_laws T nodes closed refs claimed \<longleftrightarrow>
     nodes (ts_new T) = [] \<and> \<not> closed (ts_new T) \<and>
     (\<forall>a t. fst (ts_push T a t) = (\<not> closed t) \<and> closed (snd (ts_push T a t)) = closed t \<and>
        nodes (snd (ts_push T a t)) = (if closed t then nodes t else a # nodes t)) \<and>
     (\<forall>t. fst (ts_steal T t) = nodes t \<and> nodes (snd (ts_steal T t)) = [] \<and> closed (snd (ts_steal T t))) \<and>
     refs (tn_init T) = 2 \<and> \<not> claimed (tn_init T) \<and>
     (\<forall>n. fst (tn_claim T n) = (\<not> claimed n) \<and> claimed (snd (tn_claim T n)) \<and> refs (snd (tn_claim T n)) = refs n) \<and>
     (\<forall>n. fst (tn_release T n) = (refs n = 1) \<and> claimed (snd (tn_release T n)) = claimed n \<and>
        refs (snd (tn_release T n)) = refs n - 1) \<and>
     (\<forall>n. claimed (tn_retain T n) = claimed n \<and> refs (tn_retain T n) = refs n + 1)"

text \<open>
  Everything outside the repository that the futures use: the queue, the coroutine switch, the
  stack, C's \<^verbatim>\<open>free\<close> on an application value, the application's callbacks, what the other
  threads do while this one is blocked in a \<^verbatim>\<open>read\<close> (the result says whether a signal
  interrupted the \<^verbatim>\<open>read\<close>), whether assertions are compiled out, and the bound on the
  length of a token's callback list.
\<close>

record ('s, 'c, 'q, 't, 'n) rx_env =
  env_mpsc :: "'q mpsc_ops"
  env_aco :: "'s aco_ops"
  env_ts :: "('t, 'n) treiber_ops"
  env_free :: "ptr \<Rightarrow> ('s, unit) prog"
  env_wait :: "('s, bool) prog"
  env_ndebug :: bool
  env_fuel :: nat
  app_void :: "'c \<Rightarrow> ptr \<Rightarrow> ('s, unit) prog"
  app_then :: "'c \<Rightarrow> addr \<Rightarrow> ptr \<Rightarrow> ('s, unit) prog"
  app_map :: "'c \<Rightarrow> ptr \<Rightarrow> ptr \<Rightarrow> ('s, ptr) prog"
  app_flatmap :: "'c \<Rightarrow> ptr \<Rightarrow> ptr \<Rightarrow> ('s, ptr) prog"
  app_recover :: "'c \<Rightarrow> int \<Rightarrow> ptr \<Rightarrow> ('s, ptr) prog"
  app_action :: "'c \<Rightarrow> ptr \<Rightarrow> ptr \<Rightarrow> ('s, unit) prog"
  app_zip :: "'c \<Rightarrow> ptr \<Rightarrow> ptr \<Rightarrow> ptr \<Rightarrow> ('s, ptr) prog"

type_synonym ('u, 'c, 'q, 't, 'n, 'z) fenv =
  "(('u, 'c, 'q, 't, 'n, 'z) future_sys_scheme, 'c, 'q, 't, 'n) rx_env"

text \<open>Error numbers of Linux.\<close>

definition EINVAL :: int where "EINVAL = 22"
definition EPIPE :: int where "EPIPE = 32"
definition EDEADLK :: int where "EDEADLK = 35"
definition ECANCELED :: int where "ECANCELED = 125"

definition error_result :: "int \<Rightarrow> 'c UfsrvFutureResult" where
  "error_result e = \<lparr>res_error = e, res_value = NULL, res_free_value = None\<rparr>"

abbreviation zero_result :: "'c UfsrvFutureResult" where
  "zero_result \<equiv> error_result 0"

text \<open>Dereferencing a pointer that is \<open>NULL\<close> is a fault.\<close>

definition deref :: "ptr \<Rightarrow> (addr \<Rightarrow> ('s, 'a) prog) \<Rightarrow> ('s, 'a) prog" where
  "deref p k = (case p of None \<Rightarrow> fail UseAfterFree | Some a \<Rightarrow> k a)"

lemma deref_simps [simp]: "deref (Some a) k = k a" "deref NULL k = fail UseAfterFree"
  by (simp_all add: deref_def)

abbreviation vcall :: "('c rx_call \<Rightarrow> ('s, unit) prog) \<Rightarrow> 'c fnp \<Rightarrow> ptr \<Rightarrow> ('s, unit) prog" where
  "vcall call \<equiv> (\<lambda>f x. call (Call_void f x))"

abbreviation future_at :: "addr \<Rightarrow> ('u, 'c, 'q, 't, 'n, 'z, 'c UfsrvFuture) fprog" where
  "future_at \<equiv> obj_at futures"

abbreviation upd_future :: "addr \<Rightarrow> ('c UfsrvFuture \<Rightarrow> 'c UfsrvFuture) \<Rightarrow> ('u, 'c, 'q, 't, 'n, 'z, unit) fprog" where
  "upd_future \<equiv> upd_obj futures futures_update"

abbreviation cont_at :: "addr \<Rightarrow> ('u, 'c, 'q, 't, 'n, 'z, ('c, 'n) UfsrvContinuation) fprog" where
  "cont_at \<equiv> obj_at conts"

abbreviation upd_cont ::
  "addr \<Rightarrow> (('c, 'n) UfsrvContinuation \<Rightarrow> ('c, 'n) UfsrvContinuation) \<Rightarrow> ('u, 'c, 'q, 't, 'n, 'z, unit) fprog" where
  "upd_cont \<equiv> upd_obj conts conts_update"

abbreviation free_cont :: "addr \<Rightarrow> ('u, 'c, 'q, 't, 'n, 'z, unit) fprog" where
  "free_cont \<equiv> free_obj conts conts_update"

abbreviation waiter_at :: "addr \<Rightarrow> ('u, 'c, 'q, 't, 'n, 'z, 'n UfsrvWaiter) fprog" where
  "waiter_at \<equiv> obj_at waiters"

abbreviation upd_waiter :: "addr \<Rightarrow> ('n UfsrvWaiter \<Rightarrow> 'n UfsrvWaiter) \<Rightarrow> ('u, 'c, 'q, 't, 'n, 'z, unit) fprog" where
  "upd_waiter \<equiv> upd_obj waiters waiters_update"

abbreviation free_waiter :: "addr \<Rightarrow> ('u, 'c, 'q, 't, 'n, 'z, unit) fprog" where
  "free_waiter \<equiv> free_obj waiters waiters_update"

section \<open>Stacks and nodes\<close>

definition stack_create :: "('u, 'c, 'q, 't, 'n, 'z) fenv \<Rightarrow> ('u, 'c, 'q, 't, 'n, 'z, ptr) fprog" where
  "stack_create E =
     bindm malloc (\<lambda>p.
     case p of
       None \<Rightarrow> ret NULL
     | Some a \<Rightarrow> bindm (new_obj stacks stacks_update a (ts_new (env_ts E))) (\<lambda>_. ret p))"

definition stack_destroy :: "ptr \<Rightarrow> ('u, 'c, 'q, 't, 'n, 'z, unit) fprog" where
  "stack_destroy p = when_some p (free_obj stacks stacks_update)"

definition stack_push :: "('u, 'c, 'q, 't, 'n, 'z) fenv \<Rightarrow> ptr \<Rightarrow> addr \<Rightarrow> ('u, 'c, 'q, 't, 'n, 'z, bool) fprog" where
  "stack_push E p node =
     deref p (\<lambda>a.
     bindm (obj_at stacks a) (\<lambda>t.
     bindm (upd_obj stacks stacks_update a (\<lambda>t. snd (ts_push (env_ts E) node t))) (\<lambda>_.
     ret (fst (ts_push (env_ts E) node t)))))"

definition stack_steal_all_and_close ::
  "('u, 'c, 'q, 't, 'n, 'z) fenv \<Rightarrow> ptr \<Rightarrow> ('u, 'c, 'q, 't, 'n, 'z, addr list) fprog" where
  "stack_steal_all_and_close E p =
     deref p (\<lambda>a.
     bindm (obj_at stacks a) (\<lambda>t.
     bindm (upd_obj stacks stacks_update a (\<lambda>t. snd (ts_steal (env_ts E) t))) (\<lambda>_.
     ret (fst (ts_steal (env_ts E) t)))))"

definition cont_claim :: "('u, 'c, 'q, 't, 'n, 'z) fenv \<Rightarrow> addr \<Rightarrow> ('u, 'c, 'q, 't, 'n, 'z, bool) fprog" where
  "cont_claim E node =
     bindm (cont_at node) (\<lambda>c.
     bindm (upd_cont node (\<lambda>c. c\<lparr>ct_base := snd (tn_claim (env_ts E) (ct_base c))\<rparr>)) (\<lambda>_.
     ret (fst (tn_claim (env_ts E) (ct_base c)))))"

definition cont_release :: "('u, 'c, 'q, 't, 'n, 'z) fenv \<Rightarrow> addr \<Rightarrow> ('u, 'c, 'q, 't, 'n, 'z, bool) fprog" where
  "cont_release E node =
     bindm (cont_at node) (\<lambda>c.
     bindm (upd_cont node (\<lambda>c. c\<lparr>ct_base := snd (tn_release (env_ts E) (ct_base c))\<rparr>)) (\<lambda>_.
     ret (fst (tn_release (env_ts E) (ct_base c)))))"

definition waiter_claim :: "('u, 'c, 'q, 't, 'n, 'z) fenv \<Rightarrow> addr \<Rightarrow> ('u, 'c, 'q, 't, 'n, 'z, bool) fprog" where
  "waiter_claim E w =
     bindm (waiter_at w) (\<lambda>c.
     bindm (upd_waiter w (\<lambda>c. c\<lparr>wt_base := snd (tn_claim (env_ts E) (wt_base c))\<rparr>)) (\<lambda>_.
     ret (fst (tn_claim (env_ts E) (wt_base c)))))"

definition waiter_release :: "('u, 'c, 'q, 't, 'n, 'z) fenv \<Rightarrow> addr \<Rightarrow> ('u, 'c, 'q, 't, 'n, 'z, bool) fprog" where
  "waiter_release E w =
     bindm (waiter_at w) (\<lambda>c.
     bindm (upd_waiter w (\<lambda>c. c\<lparr>wt_base := snd (tn_release (env_ts E) (wt_base c))\<rparr>)) (\<lambda>_.
     ret (fst (tn_release (env_ts E) (wt_base c)))))"

section \<open>Continuations and waiters\<close>

definition sNodeRelease :: "('u, 'c, 'q, 't, 'n, 'z) fenv \<Rightarrow> addr \<Rightarrow> ('u, 'c, 'q, 't, 'n, 'z, unit) fprog" where
  "sNodeRelease E node_ptr =
     bindm (cont_release E node_ptr) (\<lambda>last. if last then free_cont node_ptr else ret ())"

definition sNodeDiscard :: "('u, 'c, 'q, 't, 'n, 'z) fenv \<Rightarrow> addr \<Rightarrow> ('u, 'c, 'q, 't, 'n, 'z, unit) fprog" where
  "sNodeDiscard E node_ptr = bindm (cont_release E node_ptr) (\<lambda>_. sNodeRelease E node_ptr)"

definition sRunContinuation ::
  "('u, 'c, 'q, 't, 'n, 'z) fenv \<Rightarrow> ('u, 'c, 'q, 't, 'n, 'z) fcall \<Rightarrow> addr \<Rightarrow> addr \<Rightarrow> ('u, 'c, 'q, 't, 'n, 'z, unit) fprog" where
  "sRunContinuation E call future_ptr node_ptr =
     bindm (cont_claim E node_ptr) (\<lambda>won.
     if won then bindm (cont_at node_ptr) (\<lambda>c. call (Call_cont (ct_fn c) future_ptr (ct_user c)))
     else ret ())"

definition sPushContinuation ::
  "('u, 'c, 'q, 't, 'n, 'z) fenv \<Rightarrow> addr \<Rightarrow> addr \<Rightarrow> ('u, 'c, 'q, 't, 'n, 'z, bool) fprog" where
  "sPushContinuation E future_ptr node_ptr =
     bindm (future_at future_ptr) (\<lambda>v. stack_push E (fu_continuations v) node_ptr)"

text \<open>The loops over a stolen chain.\<close>

primrec drain_continuations_loop ::
  "('u, 'c, 'q, 't, 'n, 'z) fenv \<Rightarrow> ('u, 'c, 'q, 't, 'n, 'z) fcall \<Rightarrow> addr \<Rightarrow> addr list \<Rightarrow>
   ('u, 'c, 'q, 't, 'n, 'z, unit) fprog" where
  "drain_continuations_loop E call future_ptr [] = ret ()"
| "drain_continuations_loop E call future_ptr (node # nodes) =
     bindm (sRunContinuation E call future_ptr node) (\<lambda>_.
     bindm (sNodeRelease E node) (\<lambda>_.
     drain_continuations_loop E call future_ptr nodes))"

definition sDrainContinuations ::
  "('u, 'c, 'q, 't, 'n, 'z) fenv \<Rightarrow> ('u, 'c, 'q, 't, 'n, 'z) fcall \<Rightarrow> addr \<Rightarrow> ('u, 'c, 'q, 't, 'n, 'z, unit) fprog" where
  "sDrainContinuations E call future_ptr =
     bindm (future_at future_ptr) (\<lambda>v.
     bindm (stack_steal_all_and_close E (fu_continuations v)) (\<lambda>nodes.
     drain_continuations_loop E call future_ptr nodes))"

text \<open>Waking one waiter: a coroutine is resumed on its scheduler, a thread through its eventfd.\<close>

definition wake_waiter :: "('u, 'c, 'q, 't, 'n, 'z) fenv \<Rightarrow> addr \<Rightarrow> ('u, 'c, 'q, 't, 'n, 'z, unit) fprog" where
  "wake_waiter E w =
     bindm (waiter_at w) (\<lambda>c.
     if wt_coroutine c \<noteq> NULL then
       bindm (UfsrvCoroutineSubmitResume (env_mpsc E) F_sResumeJob (wt_scheduler c) (wt_coroutine c)) (\<lambda>ok.
       if \<not> ok then fail Aborted else ret ())
     else if wt_block_fd c \<ge> 0 then eventfd_write (wt_block_fd c)
     else ret ())"

primrec drain_waiters_loop ::
  "('u, 'c, 'q, 't, 'n, 'z) fenv \<Rightarrow> addr list \<Rightarrow> ('u, 'c, 'q, 't, 'n, 'z, unit) fprog" where
  "drain_waiters_loop E [] = ret ()"
| "drain_waiters_loop E (w # ws) =
     bindm (waiter_claim E w) (\<lambda>won.
     bindm (if won then wake_waiter E w else ret ()) (\<lambda>_.
     bindm (waiter_release E w) (\<lambda>last.
     bindm (if last then free_waiter w else ret ()) (\<lambda>_.
     drain_waiters_loop E ws))))"

definition sDrainWaiters :: "('u, 'c, 'q, 't, 'n, 'z) fenv \<Rightarrow> addr \<Rightarrow> ('u, 'c, 'q, 't, 'n, 'z, unit) fprog" where
  "sDrainWaiters E future_ptr =
     bindm (future_at future_ptr) (\<lambda>v.
     bindm (stack_steal_all_and_close E (fu_waiters v)) (\<lambda>ws.
     drain_waiters_loop E ws))"

definition sWaiterDiscard :: "('u, 'c, 'q, 't, 'n, 'z) fenv \<Rightarrow> addr \<Rightarrow> ('u, 'c, 'q, 't, 'n, 'z, unit) fprog" where
  "sWaiterDiscard E waiter =
     bindm (waiter_release E waiter) (\<lambda>_.
     bindm (waiter_release E waiter) (\<lambda>last.
     if last then free_waiter waiter else ret ()))"

section \<open>Completion\<close>

definition sFutureComplete ::
  "('u, 'c, 'q, 't, 'n, 'z) fenv \<Rightarrow> ('u, 'c, 'q, 't, 'n, 'z) fcall \<Rightarrow> addr \<Rightarrow> 'c UfsrvFutureResult \<Rightarrow>
   ('u, 'c, 'q, 't, 'n, 'z, bool) fprog" where
  "sFutureComplete E call future_ptr result =
     bindm (future_at future_ptr) (\<lambda>v.
     bindm (upd_future future_ptr (\<lambda>v. v\<lparr>fu_is_completed := True\<rparr>)) (\<lambda>_.
     if fu_is_completed v then ret False
     else
       bindm (upd_future future_ptr (\<lambda>v. v\<lparr>fu_result := result\<rparr>)) (\<lambda>_.
       bindm (upd_future future_ptr (\<lambda>v. v\<lparr>fu_state := UFSRV_FUTURE_READY\<rparr>)) (\<lambda>_.
       bindm (future_at future_ptr) (\<lambda>v.
       bindm (upd_future future_ptr (\<lambda>v. v\<lparr>fu_cancel_handle := NULL\<rparr>)) (\<lambda>_.
       bindm (if fu_cancel_handle v \<noteq> NULL
              then UfsrvCancellationTokenUnregister (vcall call) (env_fuel E) (fu_cancel_handle v)
              else ret False) (\<lambda>_.
       bindm (sDrainWaiters E future_ptr) (\<lambda>_.
       bindm (sDrainContinuations E call future_ptr) (\<lambda>_.
       ret True)))))))))"

definition sFutureThen ::
  "('u, 'c, 'q, 't, 'n, 'z) fenv \<Rightarrow> ('u, 'c, 'q, 't, 'n, 'z) fcall \<Rightarrow> ptr \<Rightarrow> 'c contfn option \<Rightarrow> ptr \<Rightarrow>
   ('u, 'c, 'q, 't, 'n, 'z, bool) fprog" where
  "sFutureThen E call future_ptr fn context_ptr =
     (case (future_ptr, fn) of
        (Some f, Some k) \<Rightarrow>
          bindm (future_at f) (\<lambda>v.
          if fu_state v = UFSRV_FUTURE_READY then
            bindm (call (Call_cont k f context_ptr)) (\<lambda>_. ret True)
          else
            bindm malloc (\<lambda>node_ptr.
            case node_ptr of
              None \<Rightarrow> ret False
            | Some node \<Rightarrow>
                bindm (new_obj conts conts_update node
                  \<lparr>ct_base = tn_init (env_ts E), ct_fn = k, ct_user = context_ptr\<rparr>) (\<lambda>_.
                bindm (sPushContinuation E f node) (\<lambda>pushed.
                if \<not> pushed then
                  bindm (call (Call_cont k f context_ptr)) (\<lambda>_.
                  bindm (sNodeDiscard E node) (\<lambda>_.
                  ret True))
                else
                  bindm (sNodeRelease E node) (\<lambda>_. ret True)))))
      | _ \<Rightarrow> ret False)"

definition sConsumeOnce :: "addr \<Rightarrow> ('u, 'c, 'q, 't, 'n, 'z, bool) fprog" where
  "sConsumeOnce future_ptr =
     bindm (future_at future_ptr) (\<lambda>v.
     bindm (upd_future future_ptr (\<lambda>v. v\<lparr>fu_is_consumed := True\<rparr>)) (\<lambda>_.
     ret (\<not> fu_is_consumed v)))"

section \<open>Reference counts\<close>

definition UfsrvFutureRetain :: "ptr \<Rightarrow> ('u, 'c, 'q, 't, 'n, 'z, unit) fprog" where
  "UfsrvFutureRetain future_ptr =
     (case future_ptr of
        None \<Rightarrow> ret ()
      | Some f \<Rightarrow> upd_future f (\<lambda>v. v\<lparr>fu_refcount := fu_refcount v + 1\<rparr>))"

text \<open>\<^verbatim>\<open>if (result.free_value != NULL && result.value != NULL) result.free_value(result.value)\<close>\<close>

definition drop_value ::
  "('u, 'c, 'q, 't, 'n, 'z) fcall \<Rightarrow> 'c UfsrvFutureResult \<Rightarrow> ('u, 'c, 'q, 't, 'n, 'z, unit) fprog" where
  "drop_value call r =
     (case res_free_value r of
        None \<Rightarrow> ret ()
      | Some fr \<Rightarrow> if res_value r \<noteq> NULL then call (Call_void fr (res_value r)) else ret ())"

primrec release_continuations_loop ::
  "('u, 'c, 'q, 't, 'n, 'z) fenv \<Rightarrow> addr list \<Rightarrow> ('u, 'c, 'q, 't, 'n, 'z, unit) fprog" where
  "release_continuations_loop E [] = ret ()"
| "release_continuations_loop E (node # nodes) =
     bindm (sNodeRelease E node) (\<lambda>_. release_continuations_loop E nodes)"

primrec release_waiters_loop ::
  "('u, 'c, 'q, 't, 'n, 'z) fenv \<Rightarrow> addr list \<Rightarrow> ('u, 'c, 'q, 't, 'n, 'z, unit) fprog" where
  "release_waiters_loop E [] = ret ()"
| "release_waiters_loop E (w # ws) =
     bindm (waiter_at w) (\<lambda>c.
     bindm (if wt_block_fd c \<ge> 0 then eventfd_close (wt_block_fd c) else ret ()) (\<lambda>_.
     bindm (waiter_release E w) (\<lambda>last.
     bindm (if last then free_waiter w else ret ()) (\<lambda>_.
     release_waiters_loop E ws))))"

definition UfsrvFutureRelease ::
  "('u, 'c, 'q, 't, 'n, 'z) fenv \<Rightarrow> ('u, 'c, 'q, 't, 'n, 'z) fcall \<Rightarrow> ptr \<Rightarrow> ('u, 'c, 'q, 't, 'n, 'z, unit) fprog" where
  "UfsrvFutureRelease E call future_ptr =
     (case future_ptr of
        None \<Rightarrow> ret ()
      | Some f \<Rightarrow>
          bindm (future_at f) (\<lambda>v.
          bindm (upd_future f (\<lambda>v. v\<lparr>fu_refcount := fu_refcount v - 1\<rparr>)) (\<lambda>_.
          if fu_refcount v \<noteq> 1 then ret ()
          else
            bindm (future_at f) (\<lambda>v.
            bindm (drop_value call (fu_result v)) (\<lambda>_.
            bindm (future_at f) (\<lambda>v.
            bindm (stack_steal_all_and_close E (fu_continuations v)) (\<lambda>nodes.
            bindm (release_continuations_loop E nodes) (\<lambda>_.
            bindm (stack_steal_all_and_close E (fu_waiters v)) (\<lambda>ws.
            bindm (release_waiters_loop E ws) (\<lambda>_.
            bindm (stack_destroy (fu_continuations v)) (\<lambda>_.
            bindm (stack_destroy (fu_waiters v)) (\<lambda>_.
            bindm (future_at f) (\<lambda>v.
            bindm (upd_future f (\<lambda>v. v\<lparr>fu_cancel_token := NULL\<rparr>)) (\<lambda>_.
            bindm (if fu_cancel_token v \<noteq> NULL
                   then UfsrvCancellationTokenDestroy (vcall call) (env_fuel E) (fu_cancel_token v)
                   else ret ()) (\<lambda>_.
            free_obj futures futures_update f)))))))))))))))"

section \<open>Promises\<close>

text \<open>
  \<open>UfsrvPromiseCreate\<close> returns the promise and stores the future through \<open>future_out\<close>: the
  result is the pair of both, or nothing.  The argument says whether \<open>future_out\<close> is given.
\<close>

definition zero_future :: "'c UfsrvFuture" where
  "zero_future = \<lparr>fu_is_completed = False, fu_is_consumed = False, fu_state = UFSRV_FUTURE_PENDING,
     fu_result = zero_result, fu_continuations = NULL, fu_waiters = NULL, fu_refcount = 0,
     fu_cancel_token = NULL, fu_cancel_handle = NULL\<rparr>"

definition UfsrvPromiseCreate ::
  "('u, 'c, 'q, 't, 'n, 'z) fenv \<Rightarrow> bool \<Rightarrow> ('u, 'c, 'q, 't, 'n, 'z, (addr \<times> addr) option) fprog" where
  "UfsrvPromiseCreate E future_out =
     (if \<not> future_out then ret None
      else
        bindm malloc (\<lambda>fp.
        case fp of
          None \<Rightarrow> ret None
        | Some f \<Rightarrow>
            bindm (new_obj futures futures_update f zero_future) (\<lambda>_.
            bindm malloc (\<lambda>pp.
            case pp of
              None \<Rightarrow> bindm (free_obj futures futures_update f) (\<lambda>_. ret None)
            | Some p \<Rightarrow>
                bindm (new_obj promises promises_update p \<lparr>pr_future = NULL, pr_is_fulfilled = False\<rparr>) (\<lambda>_.
                bindm (stack_create E) (\<lambda>cs.
                bindm (upd_future f (\<lambda>v. v\<lparr>fu_continuations := cs\<rparr>)) (\<lambda>_.
                bindm (stack_create E) (\<lambda>ws.
                bindm (upd_future f (\<lambda>v. v\<lparr>fu_waiters := ws\<rparr>)) (\<lambda>_.
                if cs = NULL \<or> ws = NULL then
                  bindm (stack_destroy cs) (\<lambda>_.
                  bindm (stack_destroy ws) (\<lambda>_.
                  bindm (free_obj promises promises_update p) (\<lambda>_.
                  bindm (free_obj futures futures_update f) (\<lambda>_.
                  ret None))))
                else
                  bindm (upd_future f (\<lambda>v. v\<lparr>fu_refcount := 2\<rparr>)) (\<lambda>_.
                  bindm (upd_obj promises promises_update p (\<lambda>q. q\<lparr>pr_future := Some f\<rparr>)) (\<lambda>_.
                  ret (Some (p, f)))))))))))))"

definition UfsrvPromiseSetResult ::
  "('u, 'c, 'q, 't, 'n, 'z) fenv \<Rightarrow> ('u, 'c, 'q, 't, 'n, 'z) fcall \<Rightarrow> ptr \<Rightarrow> 'c UfsrvFutureResult \<Rightarrow>
   ('u, 'c, 'q, 't, 'n, 'z, unit) fprog" where
  "UfsrvPromiseSetResult E call promise_ptr result =
     (case promise_ptr of
        None \<Rightarrow> ret ()
      | Some p \<Rightarrow>
          bindm (obj_at promises p) (\<lambda>q.
          bindm (upd_obj promises promises_update p (\<lambda>q. q\<lparr>pr_is_fulfilled := True\<rparr>)) (\<lambda>_.
          if pr_is_fulfilled q then drop_value call result
          else
            deref (pr_future q) (\<lambda>f.
            bindm (sFutureComplete E call f result) (\<lambda>won.
            if \<not> won then drop_value call result else ret ())))))"

definition UfsrvPromiseSetValue ::
  "('u, 'c, 'q, 't, 'n, 'z) fenv \<Rightarrow> ('u, 'c, 'q, 't, 'n, 'z) fcall \<Rightarrow> ptr \<Rightarrow> ptr \<Rightarrow> 'c fnp option \<Rightarrow>
   ('u, 'c, 'q, 't, 'n, 'z, unit) fprog" where
  "UfsrvPromiseSetValue E call promise_ptr value_ptr free_value =
     UfsrvPromiseSetResult E call promise_ptr
       \<lparr>res_error = 0, res_value = value_ptr, res_free_value = free_value\<rparr>"

definition UfsrvPromiseSetError ::
  "('u, 'c, 'q, 't, 'n, 'z) fenv \<Rightarrow> ('u, 'c, 'q, 't, 'n, 'z) fcall \<Rightarrow> ptr \<Rightarrow> int \<Rightarrow>
   ('u, 'c, 'q, 't, 'n, 'z, unit) fprog" where
  "UfsrvPromiseSetError E call promise_ptr error =
     UfsrvPromiseSetResult E call promise_ptr (error_result error)"

definition UfsrvPromiseDestroy ::
  "('u, 'c, 'q, 't, 'n, 'z) fenv \<Rightarrow> ('u, 'c, 'q, 't, 'n, 'z) fcall \<Rightarrow> ptr \<Rightarrow> ('u, 'c, 'q, 't, 'n, 'z, unit) fprog" where
  "UfsrvPromiseDestroy E call promise_ptr =
     (case promise_ptr of
        None \<Rightarrow> ret ()
      | Some p \<Rightarrow>
          bindm (obj_at promises p) (\<lambda>q.
          bindm (upd_obj promises promises_update p (\<lambda>q. q\<lparr>pr_is_fulfilled := True\<rparr>)) (\<lambda>_.
          bindm (if \<not> pr_is_fulfilled q
                 then deref (pr_future q) (\<lambda>f. sFutureComplete E call f (error_result EPIPE))
                 else ret False) (\<lambda>_.
          bindm (obj_at promises p) (\<lambda>q.
          bindm (UfsrvFutureRelease E call (pr_future q)) (\<lambda>_.
          free_obj promises promises_update p))))))"

text \<open>Moving a result into a promise and clearing its source.\<close>

definition sMoveChainContinuation ::
  "('u, 'c, 'q, 't, 'n, 'z) fenv \<Rightarrow> ('u, 'c, 'q, 't, 'n, 'z) fcall \<Rightarrow> addr \<Rightarrow> ptr \<Rightarrow>
   ('u, 'c, 'q, 't, 'n, 'z, unit) fprog" where
  "sMoveChainContinuation E call result_of out_promise =
     bindm (future_at result_of) (\<lambda>v.
     bindm (UfsrvPromiseSetResult E call out_promise (fu_result v)) (\<lambda>_.
     bindm (UfsrvPromiseDestroy E call out_promise) (\<lambda>_.
     upd_future result_of (\<lambda>v. v\<lparr>fu_result := zero_result\<rparr>))))"

definition UfsrvFutureThen ::
  "('u, 'c, 'q, 't, 'n, 'z) fenv \<Rightarrow> ('u, 'c, 'q, 't, 'n, 'z) fcall \<Rightarrow> ptr \<Rightarrow> 'c contfn option \<Rightarrow> ptr \<Rightarrow>
   ('u, 'c, 'q, 't, 'n, 'z, bool) fprog" where
  "UfsrvFutureThen E call future_ptr callback context_ptr =
     (if future_ptr = NULL \<or> callback = None then ret False
      else sFutureThen E call future_ptr callback context_ptr)"

definition UfsrvFutureIsReady :: "ptr \<Rightarrow> ('u, 'c, 'q, 't, 'n, 'z, bool) fprog" where
  "UfsrvFutureIsReady future_ptr =
     (case future_ptr of
        None \<Rightarrow> ret False
      | Some f \<Rightarrow> bindm (future_at f) (\<lambda>v. ret (fu_state v = UFSRV_FUTURE_READY)))"

definition UfsrvFutureFromValue ::
  "('u, 'c, 'q, 't, 'n, 'z) fenv \<Rightarrow> ('u, 'c, 'q, 't, 'n, 'z) fcall \<Rightarrow> ptr \<Rightarrow> 'c fnp option \<Rightarrow>
   ('u, 'c, 'q, 't, 'n, 'z, ptr) fprog" where
  "UfsrvFutureFromValue E call value_ptr free_value =
     bindm (UfsrvPromiseCreate E True) (\<lambda>r.
     case r of
       None \<Rightarrow> ret NULL
     | Some (p, f) \<Rightarrow>
         bindm (UfsrvPromiseSetValue E call (Some p) value_ptr free_value) (\<lambda>_.
         bindm (UfsrvPromiseDestroy E call (Some p)) (\<lambda>_.
         ret (Some f))))"

definition UfsrvFutureFromError ::
  "('u, 'c, 'q, 't, 'n, 'z) fenv \<Rightarrow> ('u, 'c, 'q, 't, 'n, 'z) fcall \<Rightarrow> int \<Rightarrow>
   ('u, 'c, 'q, 't, 'n, 'z, ptr) fprog" where
  "UfsrvFutureFromError E call error =
     bindm (UfsrvPromiseCreate E True) (\<lambda>r.
     case r of
       None \<Rightarrow> ret NULL
     | Some (p, f) \<Rightarrow>
         bindm (UfsrvPromiseSetError E call (Some p) error) (\<lambda>_.
         bindm (UfsrvPromiseDestroy E call (Some p)) (\<lambda>_.
         ret (Some f))))"

end
