(* ===== verification/Future_Wait.thy ===== *)
theory Future_Wait
  imports Future
begin

text \<open>
  Waiting for a future and cancelling one, the second part of
  \<^verbatim>\<open>src/ufsrv_future/ufsrv_future.c\<close>: the blocking and the coroutine form of \<^verbatim>\<open>get\<close>,
  both with a cancellation token, the callbacks that a token runs on behalf of a waiter or a
  future, and attaching a token.

  While a thread is blocked in \<^verbatim>\<open>read\<close> the other threads run: that is the program
  \<open>env_wait\<close> of the environment, as what happens between a coroutine's yield and its
  resumption is the program \<open>aco_yield\<close>.  A \<^verbatim>\<open>read\<close> of an eventfd that nobody has
  written when the others are finished is the fault \<open>Deadlock\<close>.
\<close>

section \<open>Blocking\<close>

text \<open>
  \<^verbatim>\<open>do n = read(fd, ...) while (n < 0 && errno == EINTR)\<close>: interrupted reads are
  repeated; a read of a descriptor that is not open fails at once.
\<close>

fun read_eventfd :: "('u, 'c, 'q, 't, 'n, 'z) fenv \<Rightarrow> nat \<Rightarrow> int \<Rightarrow> ('u, 'c, 'q, 't, 'n, 'z, unit) fprog" where
  "read_eventfd E 0 fd = fail OutOfFuel"
| "read_eventfd E (Suc n) fd =
     bindm (env_wait E) (\<lambda>interrupted.
     if interrupted then read_eventfd E n fd
     else
       bindm (gets (\<lambda>s. eventfds s fd)) (\<lambda>v.
       case v of
         None \<Rightarrow> ret ()
       | Some k \<Rightarrow>
           if k = 0 then fail Deadlock
           else modify (\<lambda>s. s\<lparr>eventfds := (eventfds s)(fd \<mapsto> 0)\<rparr>)))"

text \<open>Pushing a waiter that was just initialised.\<close>

definition push_waiter ::
  "('u, 'c, 'q, 't, 'n, 'z) fenv \<Rightarrow> addr \<Rightarrow> addr \<Rightarrow> ('u, 'c, 'q, 't, 'n, 'z, bool) fprog" where
  "push_waiter E f w = bindm (future_at f) (\<lambda>v. stack_push E (fu_waiters v) w)"

definition read_result :: "addr \<Rightarrow> ('u, 'c, 'q, 't, 'n, 'z, 'c UfsrvFutureResult) fprog" where
  "read_result f = bindm (future_at f) (\<lambda>v. ret (fu_result v))"

definition sFutureGetBlocking ::
  "('u, 'c, 'q, 't, 'n, 'z) fenv \<Rightarrow> addr \<Rightarrow> ('u, 'c, 'q, 't, 'n, 'z, 'c UfsrvFutureResult) fprog" where
  "sFutureGetBlocking E future_ptr =
     bindm malloc (\<lambda>wp.
     case wp of
       None \<Rightarrow> ret (error_result (- 1))
     | Some w \<Rightarrow>
         bindm eventfd (\<lambda>fd.
         if fd < 0 then ret (error_result (- 1))
         else
           bindm (new_obj waiters waiters_update w
             \<lparr>wt_base = tn_init (env_ts E), wt_coroutine = NULL, wt_scheduler = NULL, wt_block_fd = fd,
              wt_cancel_handle = NULL\<rparr>) (\<lambda>_.
           bindm (push_waiter E future_ptr w) (\<lambda>pushed.
           if \<not> pushed then
             bindm (eventfd_close fd) (\<lambda>_.
             bindm (sWaiterDiscard E w) (\<lambda>_.
             read_result future_ptr))
           else
             bindm (read_eventfd E (env_fuel E) fd) (\<lambda>_.
             bindm (waiter_at w) (\<lambda>c.
             bindm (eventfd_close (wt_block_fd c)) (\<lambda>_.
             bindm (waiter_release E w) (\<lambda>last.
             bindm (if last then free_waiter w else ret ()) (\<lambda>_.
             read_result future_ptr)))))))))"

text \<open>\<^verbatim>\<open>assert(!"blocking wait on a scheduler worker thread")\<close> and what follows it.\<close>

definition blocking_on_worker :: "('u, 'c, 'q, 't, 'n, 'z) fenv \<Rightarrow> ('u, 'c, 'q, 't, 'n, 'z, 'c UfsrvFutureResult) fprog" where
  "blocking_on_worker E = (if env_ndebug E then ret (error_result EDEADLK) else fail AssertFailed)"

definition UfsrvFutureGet ::
  "('u, 'c, 'q, 't, 'n, 'z) fenv \<Rightarrow> ptr \<Rightarrow> ('u, 'c, 'q, 't, 'n, 'z, 'c UfsrvFutureResult) fprog" where
  "UfsrvFutureGet E future_ptr =
     (case future_ptr of
        None \<Rightarrow> ret (error_result (- 1))
      | Some f \<Rightarrow>
          bindm (future_at f) (\<lambda>v.
          if fu_state v = UFSRV_FUTURE_READY then ret (fu_result v)
          else
            bindm UfsrvCoroutineCurrentScheduler (\<lambda>scheduler.
            if scheduler = NULL then
              bindm UfsrvSchedulerIsOnWorkerThread (\<lambda>on_worker.
              if on_worker then blocking_on_worker E else sFutureGetBlocking E f)
            else
              bindm malloc (\<lambda>wp.
              case wp of
                None \<Rightarrow> ret (error_result (- 1))
              | Some w \<Rightarrow>
                  bindm (UfsrvCoroutineCurrent (env_aco E)) (\<lambda>co.
                  bindm (new_obj waiters waiters_update w
                    \<lparr>wt_base = tn_init (env_ts E), wt_coroutine = co, wt_scheduler = scheduler, wt_block_fd = - 1,
                     wt_cancel_handle = NULL\<rparr>) (\<lambda>_.
                  bindm (push_waiter E f w) (\<lambda>pushed.
                  if \<not> pushed then bindm (sWaiterDiscard E w) (\<lambda>_. read_result f)
                  else
                    bindm (UfsrvCoroutineYield (env_aco E)) (\<lambda>_.
                    bindm (waiter_release E w) (\<lambda>last.
                    bindm (if last then free_waiter w else ret ()) (\<lambda>_.
                    read_result f))))))))))"

section \<open>The callbacks of a token\<close>

definition sResumeWaiterOnCancel ::
  "('u, 'c, 'q, 't, 'n, 'z) fenv \<Rightarrow> ptr \<Rightarrow> ('u, 'c, 'q, 't, 'n, 'z, unit) fprog" where
  "sResumeWaiterOnCancel E context_ptr =
     deref context_ptr (\<lambda>w.
     bindm (waiter_claim E w) (\<lambda>won.
     if won then
       bindm (waiter_at w) (\<lambda>c.
       bindm (UfsrvCoroutineSubmitResume (env_mpsc E) F_sResumeJob (wt_scheduler c) (wt_coroutine c)) (\<lambda>ok.
       if \<not> ok then fail Aborted else ret ()))
     else ret ()))"

definition sWakeBlockingWaiterOnCancel ::
  "('u, 'c, 'q, 't, 'n, 'z) fenv \<Rightarrow> ptr \<Rightarrow> ('u, 'c, 'q, 't, 'n, 'z, unit) fprog" where
  "sWakeBlockingWaiterOnCancel E context_ptr =
     deref context_ptr (\<lambda>w.
     bindm (waiter_claim E w) (\<lambda>won.
     if won then bindm (waiter_at w) (\<lambda>c. eventfd_write (wt_block_fd c)) else ret ()))"

definition sWaiterCancelRelease ::
  "('u, 'c, 'q, 't, 'n, 'z) fenv \<Rightarrow> ptr \<Rightarrow> ('u, 'c, 'q, 't, 'n, 'z, unit) fprog" where
  "sWaiterCancelRelease E context_ptr =
     deref context_ptr (\<lambda>w.
     bindm (waiter_release E w) (\<lambda>last. if last then free_waiter w else ret ()))"

definition waiter_retain :: "('u, 'c, 'q, 't, 'n, 'z) fenv \<Rightarrow> addr \<Rightarrow> ('u, 'c, 'q, 't, 'n, 'z, unit) fprog" where
  "waiter_retain E w = upd_waiter w (\<lambda>c. c\<lparr>wt_base := tn_retain (env_ts E) (wt_base c)\<rparr>)"

text \<open>The end of both cancellable waits: a cancelled token wins over the result.\<close>

definition result_unless_cancelled ::
  "addr \<Rightarrow> ptr \<Rightarrow> ('u, 'c, 'q, 't, 'n, 'z, 'c UfsrvFutureResult) fprog" where
  "result_unless_cancelled f token_ptr =
     bindm (UfsrvCancellationTokenIsCancelled token_ptr) (\<lambda>cancelled.
     if cancelled then ret (error_result ECANCELED) else read_result f)"

definition sFutureGetBlockingCancellable ::
  "('u, 'c, 'q, 't, 'n, 'z) fenv \<Rightarrow> ('u, 'c, 'q, 't, 'n, 'z) fcall \<Rightarrow> addr \<Rightarrow> ptr \<Rightarrow>
   ('u, 'c, 'q, 't, 'n, 'z, 'c UfsrvFutureResult) fprog" where
  "sFutureGetBlockingCancellable E call future_ptr token_ptr =
     bindm malloc (\<lambda>wp.
     case wp of
       None \<Rightarrow> ret (error_result (- 1))
     | Some w \<Rightarrow>
         bindm eventfd (\<lambda>fd.
         if fd < 0 then ret (error_result (- 1))
         else
           bindm (new_obj waiters waiters_update w
             \<lparr>wt_base = tn_init (env_ts E), wt_coroutine = NULL, wt_scheduler = NULL, wt_block_fd = fd,
              wt_cancel_handle = NULL\<rparr>) (\<lambda>_.
           bindm (push_waiter E future_ptr w) (\<lambda>pushed.
           if \<not> pushed then
             bindm (eventfd_close fd) (\<lambda>_.
             bindm (upd_waiter w (\<lambda>c. c\<lparr>wt_block_fd := - 1\<rparr>)) (\<lambda>_.
             bindm (sWaiterDiscard E w) (\<lambda>_.
             read_result future_ptr)))
           else
             bindm (waiter_retain E w) (\<lambda>_.
             bindm (UfsrvCancellationTokenRegisterEx (vcall call) token_ptr
                      (Some F_sWakeBlockingWaiterOnCancel) (Some w) (Some F_sWaiterCancelRelease)) (\<lambda>handle.
             bindm (upd_waiter w (\<lambda>c. c\<lparr>wt_cancel_handle := handle\<rparr>)) (\<lambda>_.
             if handle = NULL then
               bindm (waiter_release E w) (\<lambda>_.
               bindm (eventfd_close fd) (\<lambda>_.
               bindm (upd_waiter w (\<lambda>c. c\<lparr>wt_block_fd := - 1\<rparr>)) (\<lambda>_.
               bindm (waiter_release E w) (\<lambda>_.
               ret (error_result (- 1))))))
             else
               bindm (read_eventfd E (env_fuel E) fd) (\<lambda>_.
               bindm (waiter_at w) (\<lambda>c.
               bindm (eventfd_close (wt_block_fd c)) (\<lambda>_.
               bindm (upd_waiter w (\<lambda>c. c\<lparr>wt_block_fd := - 1\<rparr>)) (\<lambda>_.
               bindm (UfsrvCancellationTokenUnregister (vcall call) (env_fuel E) (wt_cancel_handle c)) (\<lambda>_.
               bindm (waiter_release E w) (\<lambda>last.
               bindm (if last then free_waiter w else ret ()) (\<lambda>_.
               result_unless_cancelled future_ptr token_ptr))))))))))))))"

definition UfsrvFutureGetWithCancellation ::
  "('u, 'c, 'q, 't, 'n, 'z) fenv \<Rightarrow> ('u, 'c, 'q, 't, 'n, 'z) fcall \<Rightarrow> ptr \<Rightarrow> ptr \<Rightarrow>
   ('u, 'c, 'q, 't, 'n, 'z, 'c UfsrvFutureResult) fprog" where
  "UfsrvFutureGetWithCancellation E call future_ptr token_ptr =
     (case future_ptr of
        None \<Rightarrow> ret (error_result (- 1))
      | Some f \<Rightarrow>
          if token_ptr = NULL then UfsrvFutureGet E future_ptr
          else
            bindm (UfsrvCancellationTokenIsCancelled token_ptr) (\<lambda>cancelled.
            if cancelled then ret (error_result ECANCELED)
            else
              bindm (future_at f) (\<lambda>v.
              if fu_state v = UFSRV_FUTURE_READY then ret (fu_result v)
              else
                bindm UfsrvCoroutineCurrentScheduler (\<lambda>scheduler.
                if scheduler = NULL then
                  bindm UfsrvSchedulerIsOnWorkerThread (\<lambda>on_worker.
                  if on_worker then blocking_on_worker E else sFutureGetBlockingCancellable E call f token_ptr)
                else
                  bindm malloc (\<lambda>wp.
                  case wp of
                    None \<Rightarrow> ret (error_result (- 1))
                  | Some w \<Rightarrow>
                      bindm (UfsrvCoroutineCurrent (env_aco E)) (\<lambda>co.
                      bindm (new_obj waiters waiters_update w
                        \<lparr>wt_base = tn_init (env_ts E), wt_coroutine = co, wt_scheduler = scheduler, wt_block_fd = - 1,
                         wt_cancel_handle = NULL\<rparr>) (\<lambda>_.
                      bindm (push_waiter E f w) (\<lambda>pushed.
                      if \<not> pushed then bindm (sWaiterDiscard E w) (\<lambda>_. read_result f)
                      else
                        bindm (waiter_retain E w) (\<lambda>_.
                        bindm (UfsrvCancellationTokenRegisterEx (vcall call) token_ptr
                                 (Some F_sResumeWaiterOnCancel) (Some w) (Some F_sWaiterCancelRelease)) (\<lambda>handle.
                        bindm (upd_waiter w (\<lambda>c. c\<lparr>wt_cancel_handle := handle\<rparr>)) (\<lambda>_.
                        if handle = NULL then
                          bindm (waiter_release E w) (\<lambda>_.
                          bindm (waiter_release E w) (\<lambda>_.
                          ret (error_result (- 1))))
                        else
                          bindm (UfsrvCoroutineYield (env_aco E)) (\<lambda>_.
                          bindm (waiter_at w) (\<lambda>c.
                          bindm (UfsrvCancellationTokenUnregister (vcall call) (env_fuel E) (wt_cancel_handle c)) (\<lambda>_.
                          bindm (waiter_release E w) (\<lambda>last.
                          bindm (if last then free_waiter w else ret ()) (\<lambda>_.
                          result_unless_cancelled f token_ptr))))))))))))))))"

section \<open>Attaching a token\<close>

definition sFutureCancelCallback ::
  "('u, 'c, 'q, 't, 'n, 'z) fenv \<Rightarrow> ('u, 'c, 'q, 't, 'n, 'z) fcall \<Rightarrow> ptr \<Rightarrow> ('u, 'c, 'q, 't, 'n, 'z, unit) fprog" where
  "sFutureCancelCallback E call context_ptr =
     deref context_ptr (\<lambda>f.
     bindm (sFutureComplete E call f (error_result ECANCELED)) (\<lambda>_. ret ()))"

definition sFutureCancelRelease ::
  "('u, 'c, 'q, 't, 'n, 'z) fenv \<Rightarrow> ('u, 'c, 'q, 't, 'n, 'z) fcall \<Rightarrow> ptr \<Rightarrow> ('u, 'c, 'q, 't, 'n, 'z, unit) fprog" where
  "sFutureCancelRelease E call context_ptr = UfsrvFutureRelease E call context_ptr"

definition UfsrvFutureAttachCancellation ::
  "('u, 'c, 'q, 't, 'n, 'z) fenv \<Rightarrow> ('u, 'c, 'q, 't, 'n, 'z) fcall \<Rightarrow> ptr \<Rightarrow> ptr \<Rightarrow>
   ('u, 'c, 'q, 't, 'n, 'z, bool) fprog" where
  "UfsrvFutureAttachCancellation E call future_ptr token_ptr =
     (case future_ptr of
        None \<Rightarrow> ret False
      | Some f \<Rightarrow>
          if token_ptr = NULL then ret False
          else
            bindm (future_at f) (\<lambda>v.
            if fu_is_completed v then ret False
            else if fu_cancel_token v \<noteq> NULL then ret False
            else
              bindm (upd_future f (\<lambda>v. v\<lparr>fu_cancel_token := token_ptr\<rparr>)) (\<lambda>_.
              bindm (UfsrvCancellationTokenRetainInternal token_ptr) (\<lambda>_.
              bindm (UfsrvFutureRetain future_ptr) (\<lambda>_.
              bindm (UfsrvCancellationTokenRegisterEx (vcall call) token_ptr
                       (Some F_sFutureCancelCallback) (Some f) (Some F_sFutureCancelRelease)) (\<lambda>handle.
              if handle = NULL then
                bindm (upd_future f (\<lambda>v. v\<lparr>fu_cancel_token := NULL\<rparr>)) (\<lambda>_.
                bindm (UfsrvCancellationTokenDestroy (vcall call) (env_fuel E) token_ptr) (\<lambda>_.
                bindm (UfsrvFutureRelease E call future_ptr) (\<lambda>_.
                ret False)))
              else
                bindm (upd_future f (\<lambda>v. v\<lparr>fu_cancel_handle := handle\<rparr>)) (\<lambda>_.
                bindm (future_at f) (\<lambda>v.
                bindm (if fu_is_completed v then
                         bindm (upd_future f (\<lambda>v. v\<lparr>fu_cancel_handle := NULL\<rparr>)) (\<lambda>_.
                         if fu_cancel_handle v \<noteq> NULL
                         then UfsrvCancellationTokenUnregister (vcall call) (env_fuel E) (fu_cancel_handle v)
                         else ret False)
                       else ret False) (\<lambda>_.
                ret True)))))))))"

end
