(* ===== verification/Future_Operators.thy ===== *)
theory Future_Operators
  imports Future_Wait
begin

text \<open>
  The operators on futures, the third part of \<^verbatim>\<open>src/ufsrv_future/ufsrv_future.c\<close>:
  map, flatMap, onError, doOnSuccess, all, any and zip, with their continuations and contexts,
  and the dispatcher that ties the library's function pointers to its functions.

  Every operator creates an output promise, registers its continuation on the input, and
  hands the input's cancellation token on to the output.  The continuation owns the context.
\<close>

section \<open>Shared by the operators\<close>

text \<open>Set the outcome of the output promise and give the promise up.\<close>

definition fulfil_result ::
  "('u, 'c, 'q, 't, 'n, 'z) fenv \<Rightarrow> ('u, 'c, 'q, 't, 'n, 'z) fcall \<Rightarrow> ptr \<Rightarrow> 'c UfsrvFutureResult \<Rightarrow>
   ('u, 'c, 'q, 't, 'n, 'z, unit) fprog" where
  "fulfil_result E call out_promise r =
     bindm (UfsrvPromiseSetResult E call out_promise r) (\<lambda>_. UfsrvPromiseDestroy E call out_promise)"

definition fulfil_error ::
  "('u, 'c, 'q, 't, 'n, 'z) fenv \<Rightarrow> ('u, 'c, 'q, 't, 'n, 'z) fcall \<Rightarrow> ptr \<Rightarrow> int \<Rightarrow>
   ('u, 'c, 'q, 't, 'n, 'z, unit) fprog" where
  "fulfil_error E call out_promise e =
     bindm (UfsrvPromiseSetError E call out_promise e) (\<lambda>_. UfsrvPromiseDestroy E call out_promise)"

definition fulfil_value ::
  "('u, 'c, 'q, 't, 'n, 'z) fenv \<Rightarrow> ('u, 'c, 'q, 't, 'n, 'z) fcall \<Rightarrow> ptr \<Rightarrow> ptr \<Rightarrow> 'c fnp option \<Rightarrow>
   ('u, 'c, 'q, 't, 'n, 'z, unit) fprog" where
  "fulfil_value E call out_promise x fr =
     bindm (UfsrvPromiseSetValue E call out_promise x fr) (\<lambda>_. UfsrvPromiseDestroy E call out_promise)"

text \<open>Give up an output that was never published.\<close>

definition discard_out ::
  "('u, 'c, 'q, 't, 'n, 'z) fenv \<Rightarrow> ('u, 'c, 'q, 't, 'n, 'z) fcall \<Rightarrow> addr \<Rightarrow> addr \<Rightarrow>
   ('u, 'c, 'q, 't, 'n, 'z, ptr) fprog" where
  "discard_out E call out_promise out_future =
     bindm (UfsrvPromiseDestroy E call (Some out_promise)) (\<lambda>_.
     bindm (UfsrvFutureRelease E call (Some out_future)) (\<lambda>_.
     ret NULL))"

text \<open>Attach the input's token to the output and return the output.\<close>

definition inherit_token ::
  "('u, 'c, 'q, 't, 'n, 'z) fenv \<Rightarrow> ('u, 'c, 'q, 't, 'n, 'z) fcall \<Rightarrow> addr \<Rightarrow> addr \<Rightarrow>
   ('u, 'c, 'q, 't, 'n, 'z, ptr) fprog" where
  "inherit_token E call future_ptr out_future =
     bindm (future_at future_ptr) (\<lambda>v.
     bindm (if fu_cancel_token v \<noteq> NULL
            then UfsrvFutureAttachCancellation E call (Some out_future) (fu_cancel_token v)
            else ret False) (\<lambda>_.
     ret (Some out_future)))"

text \<open>Move the result out of a future that this operator consumed; a second consumer gets \<open>EINVAL\<close>.\<close>

definition move_or_einval ::
  "('u, 'c, 'q, 't, 'n, 'z) fenv \<Rightarrow> ('u, 'c, 'q, 't, 'n, 'z) fcall \<Rightarrow> ptr \<Rightarrow> addr \<Rightarrow> ptr \<Rightarrow>
   ('u, 'c, 'q, 't, 'n, 'z, unit) fprog" where
  "move_or_einval E call in_future result_of out_promise =
     deref in_future (\<lambda>i.
     bindm (sConsumeOnce i) (\<lambda>won.
     if \<not> won then fulfil_error E call out_promise EINVAL
     else
       bindm (future_at result_of) (\<lambda>v.
       bindm (fulfil_result E call out_promise (fu_result v)) (\<lambda>_.
       upd_future result_of (\<lambda>v. v\<lparr>fu_result := zero_result\<rparr>)))))"

section \<open>map\<close>

definition sMapContinuation ::
  "('u, 'c, 'q, 't, 'n, 'z) fenv \<Rightarrow> ('u, 'c, 'q, 't, 'n, 'z) fcall \<Rightarrow> addr \<Rightarrow> ptr \<Rightarrow>
   ('u, 'c, 'q, 't, 'n, 'z, unit) fprog" where
  "sMapContinuation E call result_of context_ptr =
     deref context_ptr (\<lambda>ctx.
     bindm (future_at result_of) (\<lambda>v.
     bindm (obj_at map_ctxs ctx) (\<lambda>m.
     bindm (if res_error (fu_result v) \<noteq> 0 then
              fulfil_error E call (mc_out_promise m) (res_error (fu_result v))
            else
              bindm (app_map E (mc_mapper m) (res_value (fu_result v)) (mc_user m)) (\<lambda>mapped.
              if mapped = NULL then fulfil_error E call (mc_out_promise m) (- 1)
              else fulfil_value E call (mc_out_promise m) mapped (mc_free_value m))) (\<lambda>_.
     free_obj map_ctxs map_ctxs_update ctx))))"

definition sFutureMap ::
  "('u, 'c, 'q, 't, 'n, 'z) fenv \<Rightarrow> ('u, 'c, 'q, 't, 'n, 'z) fcall \<Rightarrow> ptr \<Rightarrow> 'c option \<Rightarrow> ptr \<Rightarrow> 'c fnp option \<Rightarrow>
   ('u, 'c, 'q, 't, 'n, 'z, ptr) fprog" where
  "sFutureMap E call future_ptr mapper context_ptr free_value =
     (case (future_ptr, mapper) of
        (Some f, Some m) \<Rightarrow>
          bindm (UfsrvPromiseCreate E True) (\<lambda>out.
          case out of
            None \<Rightarrow> ret NULL
          | Some (out_promise, out_future) \<Rightarrow>
              bindm malloc (\<lambda>cp.
              case cp of
                None \<Rightarrow> discard_out E call out_promise out_future
              | Some ctx \<Rightarrow>
                  bindm (new_obj map_ctxs map_ctxs_update ctx
                    \<lparr>mc_out_promise = Some out_promise, mc_mapper = m, mc_user = context_ptr,
                     mc_free_value = free_value\<rparr>) (\<lambda>_.
                  bindm (sFutureThen E call future_ptr (Some K_sMapContinuation) (Some ctx)) (\<lambda>ok.
                  if \<not> ok then
                    bindm (free_obj map_ctxs map_ctxs_update ctx) (\<lambda>_. discard_out E call out_promise out_future)
                  else inherit_token E call f out_future))))
      | _ \<Rightarrow> ret NULL)"

definition UfsrvFutureMap ::
  "('u, 'c, 'q, 't, 'n, 'z) fenv \<Rightarrow> ('u, 'c, 'q, 't, 'n, 'z) fcall \<Rightarrow> ptr \<Rightarrow> 'c option \<Rightarrow> ptr \<Rightarrow>
   ('u, 'c, 'q, 't, 'n, 'z, ptr) fprog" where
  "UfsrvFutureMap E call future_ptr mapper context_ptr = sFutureMap E call future_ptr mapper context_ptr (Some F_free)"

definition UfsrvFutureMapEx ::
  "('u, 'c, 'q, 't, 'n, 'z) fenv \<Rightarrow> ('u, 'c, 'q, 't, 'n, 'z) fcall \<Rightarrow> ptr \<Rightarrow> 'c option \<Rightarrow> ptr \<Rightarrow> 'c fnp option \<Rightarrow>
   ('u, 'c, 'q, 't, 'n, 'z, ptr) fprog" where
  "UfsrvFutureMapEx E call future_ptr mapper context_ptr free_value =
     sFutureMap E call future_ptr mapper context_ptr free_value"

section \<open>flatMap\<close>

definition sDropContextToken ::
  "('u, 'c, 'q, 't, 'n, 'z) fenv \<Rightarrow> ('u, 'c, 'q, 't, 'n, 'z) fcall \<Rightarrow> addr \<Rightarrow> ('u, 'c, 'q, 't, 'n, 'z, unit) fprog" where
  "sDropContextToken E call ctx =
     bindm (obj_at flatmap_ctxs ctx) (\<lambda>m.
     if fc_token m \<noteq> NULL then
       bindm (UfsrvCancellationTokenDestroy (vcall call) (env_fuel E) (fc_token m)) (\<lambda>_.
       upd_obj flatmap_ctxs flatmap_ctxs_update ctx (\<lambda>m. m\<lparr>fc_token := NULL\<rparr>))
     else ret ())"

definition sFlatMapContinuation ::
  "('u, 'c, 'q, 't, 'n, 'z) fenv \<Rightarrow> ('u, 'c, 'q, 't, 'n, 'z) fcall \<Rightarrow> addr \<Rightarrow> ptr \<Rightarrow>
   ('u, 'c, 'q, 't, 'n, 'z, unit) fprog" where
  "sFlatMapContinuation E call result_of context_ptr =
     deref context_ptr (\<lambda>ctx.
     bindm (future_at result_of) (\<lambda>v.
     bindm (obj_at flatmap_ctxs ctx) (\<lambda>m.
     if res_error (fu_result v) \<noteq> 0 then
       bindm (fulfil_error E call (fc_out_promise m) (res_error (fu_result v))) (\<lambda>_.
       bindm (sDropContextToken E call ctx) (\<lambda>_.
       free_obj flatmap_ctxs flatmap_ctxs_update ctx))
     else
       bindm (app_flatmap E (fc_mapper m) (res_value (fu_result v)) (fc_user m)) (\<lambda>next_ptr.
       case next_ptr of
         None \<Rightarrow>
           bindm (fulfil_error E call (fc_out_promise m) (- 1)) (\<lambda>_.
           bindm (sDropContextToken E call ctx) (\<lambda>_.
           free_obj flatmap_ctxs flatmap_ctxs_update ctx))
       | Some nxt \<Rightarrow>
           bindm (if fc_token m \<noteq> NULL then
                    bindm (UfsrvFutureAttachCancellation E call next_ptr (fc_token m)) (\<lambda>_.
                    sDropContextToken E call ctx)
                  else ret ()) (\<lambda>_.
           bindm (sConsumeOnce nxt) (\<lambda>won.
           if \<not> won then
             bindm (fulfil_error E call (fc_out_promise m) EINVAL) (\<lambda>_.
             bindm (UfsrvFutureRelease E call next_ptr) (\<lambda>_.
             free_obj flatmap_ctxs flatmap_ctxs_update ctx))
           else
             bindm (sFutureThen E call next_ptr (Some K_sMoveChainContinuation) (fc_out_promise m)) (\<lambda>_.
             bindm (UfsrvFutureRelease E call next_ptr) (\<lambda>_.
             free_obj flatmap_ctxs flatmap_ctxs_update ctx))))))))"

definition UfsrvFutureFlatMap ::
  "('u, 'c, 'q, 't, 'n, 'z) fenv \<Rightarrow> ('u, 'c, 'q, 't, 'n, 'z) fcall \<Rightarrow> ptr \<Rightarrow> 'c option \<Rightarrow> ptr \<Rightarrow>
   ('u, 'c, 'q, 't, 'n, 'z, ptr) fprog" where
  "UfsrvFutureFlatMap E call future_ptr mapper context_ptr =
     (case (future_ptr, mapper) of
        (Some f, Some m) \<Rightarrow>
          bindm (UfsrvPromiseCreate E True) (\<lambda>out.
          case out of
            None \<Rightarrow> ret NULL
          | Some (out_promise, out_future) \<Rightarrow>
              bindm malloc (\<lambda>cp.
              case cp of
                None \<Rightarrow> discard_out E call out_promise out_future
              | Some ctx \<Rightarrow>
                  bindm (future_at f) (\<lambda>v.
                  bindm (new_obj flatmap_ctxs flatmap_ctxs_update ctx
                    \<lparr>fc_out_promise = Some out_promise, fc_mapper = m, fc_user = context_ptr,
                     fc_token = fu_cancel_token v\<rparr>) (\<lambda>_.
                  bindm (if fu_cancel_token v \<noteq> NULL
                         then UfsrvCancellationTokenRetainInternal (fu_cancel_token v) else ret ()) (\<lambda>_.
                  bindm (sFutureThen E call future_ptr (Some K_sFlatMapContinuation) (Some ctx)) (\<lambda>ok.
                  if \<not> ok then
                    bindm (free_obj flatmap_ctxs flatmap_ctxs_update ctx) (\<lambda>_.
                    discard_out E call out_promise out_future)
                  else inherit_token E call f out_future))))))
      | _ \<Rightarrow> ret NULL)"

section \<open>onError\<close>

definition sOnErrorContinuation ::
  "('u, 'c, 'q, 't, 'n, 'z) fenv \<Rightarrow> ('u, 'c, 'q, 't, 'n, 'z) fcall \<Rightarrow> addr \<Rightarrow> ptr \<Rightarrow>
   ('u, 'c, 'q, 't, 'n, 'z, unit) fprog" where
  "sOnErrorContinuation E call result_of context_ptr =
     deref context_ptr (\<lambda>ctx.
     bindm (future_at result_of) (\<lambda>v.
     bindm (obj_at onerror_ctxs ctx) (\<lambda>m.
     if res_error (fu_result v) \<noteq> 0 then
       bindm (app_recover E (ec_recovery m) (res_error (fu_result v)) (ec_user m)) (\<lambda>recovered.
       case recovered of
         None \<Rightarrow>
           bindm (future_at result_of) (\<lambda>v.
           bindm (fulfil_error E call (ec_out_promise m) (res_error (fu_result v))) (\<lambda>_.
           free_obj onerror_ctxs onerror_ctxs_update ctx))
       | Some r \<Rightarrow>
           bindm (sConsumeOnce r) (\<lambda>won.
           if \<not> won then
             bindm (fulfil_error E call (ec_out_promise m) EINVAL) (\<lambda>_.
             bindm (UfsrvFutureRelease E call recovered) (\<lambda>_.
             free_obj onerror_ctxs onerror_ctxs_update ctx))
           else
             bindm (sFutureThen E call recovered (Some K_sMoveChainContinuation) (ec_out_promise m)) (\<lambda>_.
             bindm (UfsrvFutureRelease E call recovered) (\<lambda>_.
             free_obj onerror_ctxs onerror_ctxs_update ctx))))
     else
       bindm (move_or_einval E call (ec_in_future m) result_of (ec_out_promise m)) (\<lambda>_.
       free_obj onerror_ctxs onerror_ctxs_update ctx))))"

definition UfsrvFutureOnError ::
  "('u, 'c, 'q, 't, 'n, 'z) fenv \<Rightarrow> ('u, 'c, 'q, 't, 'n, 'z) fcall \<Rightarrow> ptr \<Rightarrow> 'c option \<Rightarrow> ptr \<Rightarrow>
   ('u, 'c, 'q, 't, 'n, 'z, ptr) fprog" where
  "UfsrvFutureOnError E call future_ptr recovery context_ptr =
     (case (future_ptr, recovery) of
        (Some f, Some m) \<Rightarrow>
          bindm (UfsrvPromiseCreate E True) (\<lambda>out.
          case out of
            None \<Rightarrow> ret NULL
          | Some (out_promise, out_future) \<Rightarrow>
              bindm malloc (\<lambda>cp.
              case cp of
                None \<Rightarrow> discard_out E call out_promise out_future
              | Some ctx \<Rightarrow>
                  bindm (new_obj onerror_ctxs onerror_ctxs_update ctx
                    \<lparr>ec_out_promise = Some out_promise, ec_recovery = m, ec_user = context_ptr,
                     ec_in_future = future_ptr\<rparr>) (\<lambda>_.
                  bindm (sFutureThen E call future_ptr (Some K_sOnErrorContinuation) (Some ctx)) (\<lambda>ok.
                  if \<not> ok then
                    bindm (free_obj onerror_ctxs onerror_ctxs_update ctx) (\<lambda>_.
                    discard_out E call out_promise out_future)
                  else inherit_token E call f out_future))))
      | _ \<Rightarrow> ret NULL)"

section \<open>doOnSuccess\<close>

definition sDoOnSuccessContinuation ::
  "('u, 'c, 'q, 't, 'n, 'z) fenv \<Rightarrow> ('u, 'c, 'q, 't, 'n, 'z) fcall \<Rightarrow> addr \<Rightarrow> ptr \<Rightarrow>
   ('u, 'c, 'q, 't, 'n, 'z, unit) fprog" where
  "sDoOnSuccessContinuation E call result_of context_ptr =
     deref context_ptr (\<lambda>ctx.
     bindm (future_at result_of) (\<lambda>v.
     bindm (obj_at dos_ctxs ctx) (\<lambda>m.
     bindm (if res_error (fu_result v) = 0
            then app_action E (dc_action m) (res_value (fu_result v)) (dc_user m) else ret ()) (\<lambda>_.
     bindm (move_or_einval E call (dc_in_future m) result_of (dc_out_promise m)) (\<lambda>_.
     free_obj dos_ctxs dos_ctxs_update ctx)))))"

definition UfsrvFutureDoOnSuccess ::
  "('u, 'c, 'q, 't, 'n, 'z) fenv \<Rightarrow> ('u, 'c, 'q, 't, 'n, 'z) fcall \<Rightarrow> ptr \<Rightarrow> 'c option \<Rightarrow> ptr \<Rightarrow>
   ('u, 'c, 'q, 't, 'n, 'z, ptr) fprog" where
  "UfsrvFutureDoOnSuccess E call future_ptr action context_ptr =
     (case (future_ptr, action) of
        (Some f, Some m) \<Rightarrow>
          bindm (UfsrvPromiseCreate E True) (\<lambda>out.
          case out of
            None \<Rightarrow> ret NULL
          | Some (out_promise, out_future) \<Rightarrow>
              bindm malloc (\<lambda>cp.
              case cp of
                None \<Rightarrow> discard_out E call out_promise out_future
              | Some ctx \<Rightarrow>
                  bindm (new_obj dos_ctxs dos_ctxs_update ctx
                    \<lparr>dc_out_promise = Some out_promise, dc_action = m, dc_user = context_ptr,
                     dc_in_future = future_ptr\<rparr>) (\<lambda>_.
                  bindm (sFutureThen E call future_ptr (Some K_sDoOnSuccessContinuation) (Some ctx)) (\<lambda>ok.
                  if \<not> ok then
                    bindm (free_obj dos_ctxs dos_ctxs_update ctx) (\<lambda>_.
                    discard_out E call out_promise out_future)
                  else inherit_token E call f out_future))))
      | _ \<Rightarrow> ret NULL)"

section \<open>all\<close>

text \<open>\<^verbatim>\<open>atomic_exchange(&ctx->failed, true)\<close> and \<^verbatim>\<open>atomic_fetch_sub(&ctx->remaining, 1)\<close>: the old values.\<close>

definition all_set_failed :: "addr \<Rightarrow> ('u, 'c, 'q, 't, 'n, 'z, bool) fprog" where
  "all_set_failed ctx =
     bindm (obj_at all_ctxs ctx) (\<lambda>m.
     bindm (upd_obj all_ctxs all_ctxs_update ctx (\<lambda>m. m\<lparr>ac_failed := True\<rparr>)) (\<lambda>_.
     ret (ac_failed m)))"

definition all_count_down :: "addr \<Rightarrow> ('u, 'c, 'q, 't, 'n, 'z, int) fprog" where
  "all_count_down ctx =
     bindm (obj_at all_ctxs ctx) (\<lambda>m.
     bindm (upd_obj all_ctxs all_ctxs_update ctx (\<lambda>m. m\<lparr>ac_remaining := ac_remaining m - 1\<rparr>)) (\<lambda>_.
     ret (ac_remaining m)))"

definition sAllContinuation ::
  "('u, 'c, 'q, 't, 'n, 'z) fenv \<Rightarrow> ('u, 'c, 'q, 't, 'n, 'z) fcall \<Rightarrow> addr \<Rightarrow> ptr \<Rightarrow>
   ('u, 'c, 'q, 't, 'n, 'z, unit) fprog" where
  "sAllContinuation E call result_of context_ptr =
     deref context_ptr (\<lambda>ctx.
     bindm (future_at result_of) (\<lambda>v.
     bindm (if res_error (fu_result v) \<noteq> 0 then
              bindm (all_set_failed ctx) (\<lambda>old.
              if \<not> old then
                bindm (obj_at all_ctxs ctx) (\<lambda>m. fulfil_error E call (ac_out_promise m) (res_error (fu_result v)))
              else ret ())
            else ret ()) (\<lambda>_.
     bindm (all_count_down ctx) (\<lambda>old.
     if old = 1 then
       bindm (obj_at all_ctxs ctx) (\<lambda>m.
       bindm (if \<not> ac_failed m then fulfil_value E call (ac_out_promise m) NULL None else ret ()) (\<lambda>_.
       free_obj all_ctxs all_ctxs_update ctx))
     else ret ()))))"

text \<open>The registration loop over \<^verbatim>\<open>futures[0 .. count - 1]\<close>; reading past the array is a fault.\<close>

fun all_register_loop ::
  "('u, 'c, 'q, 't, 'n, 'z) fenv \<Rightarrow> ('u, 'c, 'q, 't, 'n, 'z) fcall \<Rightarrow> addr \<Rightarrow> nat \<Rightarrow> ptr list \<Rightarrow>
   ('u, 'c, 'q, 't, 'n, 'z, unit) fprog" where
  "all_register_loop E call ctx 0 fs = ret ()"
| "all_register_loop E call ctx (Suc n) [] = fail UseAfterFree"
| "all_register_loop E call ctx (Suc n) (f # fs) =
     bindm (UfsrvFutureThen E call f (Some K_sAllContinuation) (Some ctx)) (\<lambda>ok.
     bindm (if ok then ret ()
            else
              bindm (all_set_failed ctx) (\<lambda>old.
              bindm (if \<not> old then
                       bindm (obj_at all_ctxs ctx) (\<lambda>m. fulfil_error E call (ac_out_promise m) EINVAL)
                     else ret ()) (\<lambda>_.
              bindm (all_count_down ctx) (\<lambda>old.
              if old = 1 then free_obj all_ctxs all_ctxs_update ctx else ret ())))) (\<lambda>_.
     all_register_loop E call ctx n fs))"

definition UfsrvFutureAll ::
  "('u, 'c, 'q, 't, 'n, 'z) fenv \<Rightarrow> ('u, 'c, 'q, 't, 'n, 'z) fcall \<Rightarrow> ptr list option \<Rightarrow> nat \<Rightarrow>
   ('u, 'c, 'q, 't, 'n, 'z, ptr) fprog" where
  "UfsrvFutureAll E call futures_ptr count =
     (if count = 0 then UfsrvFutureFromValue E call NULL None
      else case futures_ptr of
        None \<Rightarrow> ret NULL
      | Some fs \<Rightarrow>
          bindm (UfsrvPromiseCreate E True) (\<lambda>out.
          case out of
            None \<Rightarrow> ret NULL
          | Some (out_promise, out_future) \<Rightarrow>
              bindm malloc (\<lambda>cp.
              case cp of
                None \<Rightarrow> discard_out E call out_promise out_future
              | Some ctx \<Rightarrow>
                  bindm (new_obj all_ctxs all_ctxs_update ctx
                    \<lparr>ac_out_promise = Some out_promise, ac_remaining = int count, ac_failed = False\<rparr>) (\<lambda>_.
                  bindm (all_register_loop E call ctx count fs) (\<lambda>_.
                  ret (Some out_future))))))"

section \<open>any\<close>

definition any_set_claimed :: "addr \<Rightarrow> ('u, 'c, 'q, 't, 'n, 'z, bool) fprog" where
  "any_set_claimed ctx =
     bindm (obj_at any_ctxs ctx) (\<lambda>m.
     bindm (upd_obj any_ctxs any_ctxs_update ctx (\<lambda>m. m\<lparr>nc_claimed := True\<rparr>)) (\<lambda>_.
     ret (nc_claimed m)))"

definition any_count_down :: "addr \<Rightarrow> ('u, 'c, 'q, 't, 'n, 'z, int) fprog" where
  "any_count_down ctx =
     bindm (obj_at any_ctxs ctx) (\<lambda>m.
     bindm (upd_obj any_ctxs any_ctxs_update ctx (\<lambda>m. m\<lparr>nc_remaining := nc_remaining m - 1\<rparr>)) (\<lambda>_.
     ret (nc_remaining m)))"

definition sAnyContinuation ::
  "('u, 'c, 'q, 't, 'n, 'z) fenv \<Rightarrow> ('u, 'c, 'q, 't, 'n, 'z) fcall \<Rightarrow> addr \<Rightarrow> ptr \<Rightarrow>
   ('u, 'c, 'q, 't, 'n, 'z, unit) fprog" where
  "sAnyContinuation E call result_of context_ptr =
     deref context_ptr (\<lambda>reg.
     bindm (obj_at any_regs reg) (\<lambda>r.
     bindm (free_obj any_regs any_regs_update reg) (\<lambda>_.
     bindm (any_set_claimed (ar_ctx r)) (\<lambda>old.
     bindm (if \<not> old then
              bindm (obj_at any_ctxs (ar_ctx r)) (\<lambda>m.
              move_or_einval E call (ar_in_future r) result_of (nc_out_promise m))
            else ret ()) (\<lambda>_.
     bindm (any_count_down (ar_ctx r)) (\<lambda>old.
     if old = 1 then free_obj any_ctxs any_ctxs_update (ar_ctx r) else ret ()))))))"

text \<open>An input that could not be registered only counts down; the last one to do so fails the output.\<close>

definition any_missed ::
  "('u, 'c, 'q, 't, 'n, 'z) fenv \<Rightarrow> ('u, 'c, 'q, 't, 'n, 'z) fcall \<Rightarrow> addr \<Rightarrow> ('u, 'c, 'q, 't, 'n, 'z, unit) fprog" where
  "any_missed E call ctx =
     bindm (any_count_down ctx) (\<lambda>old.
     if old = 1 then
       bindm (obj_at any_ctxs ctx) (\<lambda>m.
       bindm (if \<not> nc_claimed m then fulfil_error E call (nc_out_promise m) EINVAL else ret ()) (\<lambda>_.
       free_obj any_ctxs any_ctxs_update ctx))
     else ret ())"

fun any_register_loop ::
  "('u, 'c, 'q, 't, 'n, 'z) fenv \<Rightarrow> ('u, 'c, 'q, 't, 'n, 'z) fcall \<Rightarrow> addr \<Rightarrow> nat \<Rightarrow> ptr list \<Rightarrow>
   ('u, 'c, 'q, 't, 'n, 'z, unit) fprog" where
  "any_register_loop E call ctx 0 fs = ret ()"
| "any_register_loop E call ctx (Suc n) [] = fail UseAfterFree"
| "any_register_loop E call ctx (Suc n) (f # fs) =
     bindm malloc (\<lambda>rp.
     bindm (case rp of
              None \<Rightarrow> any_missed E call ctx
            | Some reg \<Rightarrow>
                bindm (new_obj any_regs any_regs_update reg \<lparr>ar_ctx = ctx, ar_in_future = f\<rparr>) (\<lambda>_.
                bindm (UfsrvFutureThen E call f (Some K_sAnyContinuation) (Some reg)) (\<lambda>ok.
                if ok then ret ()
                else bindm (free_obj any_regs any_regs_update reg) (\<lambda>_. any_missed E call ctx)))) (\<lambda>_.
     any_register_loop E call ctx n fs))"

definition UfsrvFutureAny ::
  "('u, 'c, 'q, 't, 'n, 'z) fenv \<Rightarrow> ('u, 'c, 'q, 't, 'n, 'z) fcall \<Rightarrow> ptr list option \<Rightarrow> nat \<Rightarrow>
   ('u, 'c, 'q, 't, 'n, 'z, ptr) fprog" where
  "UfsrvFutureAny E call futures_ptr count =
     (if count = 0 then UfsrvFutureFromValue E call NULL None
      else case futures_ptr of
        None \<Rightarrow> ret NULL
      | Some fs \<Rightarrow>
          bindm (UfsrvPromiseCreate E True) (\<lambda>out.
          case out of
            None \<Rightarrow> ret NULL
          | Some (out_promise, out_future) \<Rightarrow>
              bindm malloc (\<lambda>cp.
              case cp of
                None \<Rightarrow> discard_out E call out_promise out_future
              | Some ctx \<Rightarrow>
                  bindm (new_obj any_ctxs any_ctxs_update ctx
                    \<lparr>nc_out_promise = Some out_promise, nc_claimed = False, nc_remaining = int count\<rparr>) (\<lambda>_.
                  bindm (any_register_loop E call ctx count fs) (\<lambda>_.
                  ret (Some out_future))))))"

section \<open>zip\<close>

definition sZipComplete ::
  "('u, 'c, 'q, 't, 'n, 'z) fenv \<Rightarrow> ('u, 'c, 'q, 't, 'n, 'z) fcall \<Rightarrow> addr \<Rightarrow> ('u, 'c, 'q, 't, 'n, 'z, unit) fprog" where
  "sZipComplete E call ctx =
     bindm (obj_at zip_ctxs ctx) (\<lambda>m.
     bindm (if res_error (zc_first m) \<noteq> 0 then
              fulfil_error E call (zc_out_promise m) (res_error (zc_first m))
            else if res_error (zc_second m) \<noteq> 0 then
              fulfil_error E call (zc_out_promise m) (res_error (zc_second m))
            else
              bindm (app_zip E (zc_zipper m) (res_value (zc_first m)) (res_value (zc_second m)) (zc_user m)) (\<lambda>zipped.
              if zipped = NULL then fulfil_error E call (zc_out_promise m) (- 1)
              else fulfil_value E call (zc_out_promise m) zipped (zc_free_value m))) (\<lambda>_.
     bindm (free_obj zip_ctxs zip_ctxs_update ctx) (\<lambda>_.
     bindm (UfsrvFutureRelease E call (zc_first_future m)) (\<lambda>_.
     UfsrvFutureRelease E call (zc_second_future m)))))"

definition zip_count_down :: "addr \<Rightarrow> ('u, 'c, 'q, 't, 'n, 'z, int) fprog" where
  "zip_count_down ctx =
     bindm (obj_at zip_ctxs ctx) (\<lambda>m.
     bindm (upd_obj zip_ctxs zip_ctxs_update ctx (\<lambda>m. m\<lparr>zc_remaining := zc_remaining m - 1\<rparr>)) (\<lambda>_.
     ret (zc_remaining m)))"

definition sZipFirstContinuation ::
  "('u, 'c, 'q, 't, 'n, 'z) fenv \<Rightarrow> ('u, 'c, 'q, 't, 'n, 'z) fcall \<Rightarrow> addr \<Rightarrow> ptr \<Rightarrow>
   ('u, 'c, 'q, 't, 'n, 'z, unit) fprog" where
  "sZipFirstContinuation E call result_of context_ptr =
     deref context_ptr (\<lambda>ctx.
     bindm (future_at result_of) (\<lambda>v.
     bindm (upd_obj zip_ctxs zip_ctxs_update ctx (\<lambda>m. m\<lparr>zc_first := fu_result v\<rparr>)) (\<lambda>_.
     bindm (zip_count_down ctx) (\<lambda>old.
     if old = 1 then sZipComplete E call ctx else ret ()))))"

definition sZipSecondContinuation ::
  "('u, 'c, 'q, 't, 'n, 'z) fenv \<Rightarrow> ('u, 'c, 'q, 't, 'n, 'z) fcall \<Rightarrow> addr \<Rightarrow> ptr \<Rightarrow>
   ('u, 'c, 'q, 't, 'n, 'z, unit) fprog" where
  "sZipSecondContinuation E call result_of context_ptr =
     deref context_ptr (\<lambda>ctx.
     bindm (future_at result_of) (\<lambda>v.
     bindm (upd_obj zip_ctxs zip_ctxs_update ctx (\<lambda>m. m\<lparr>zc_second := fu_result v\<rparr>)) (\<lambda>_.
     bindm (zip_count_down ctx) (\<lambda>old.
     if old = 1 then sZipComplete E call ctx else ret ()))))"

definition sFutureZip ::
  "('u, 'c, 'q, 't, 'n, 'z) fenv \<Rightarrow> ('u, 'c, 'q, 't, 'n, 'z) fcall \<Rightarrow> ptr \<Rightarrow> ptr \<Rightarrow> 'c option \<Rightarrow> ptr \<Rightarrow>
   'c fnp option \<Rightarrow> ('u, 'c, 'q, 't, 'n, 'z, ptr) fprog" where
  "sFutureZip E call future_a future_b zipper context_ptr free_value =
     (case (future_a, future_b, zipper) of
        (Some a, Some b, Some z) \<Rightarrow>
          bindm (UfsrvPromiseCreate E True) (\<lambda>out.
          case out of
            None \<Rightarrow> ret NULL
          | Some (out_promise, out_future) \<Rightarrow>
              bindm malloc (\<lambda>cp.
              case cp of
                None \<Rightarrow> discard_out E call out_promise out_future
              | Some ctx \<Rightarrow>
                  bindm (new_obj zip_ctxs zip_ctxs_update ctx
                    \<lparr>zc_out_promise = Some out_promise, zc_zipper = z, zc_user = context_ptr,
                     zc_first_future = future_a, zc_second_future = future_b, zc_first = zero_result,
                     zc_second = zero_result, zc_remaining = 2, zc_free_value = free_value\<rparr>) (\<lambda>_.
                  bindm (UfsrvFutureRetain future_a) (\<lambda>_.
                  bindm (UfsrvFutureRetain future_b) (\<lambda>_.
                  bindm (UfsrvFutureThen E call future_a (Some K_sZipFirstContinuation) (Some ctx)) (\<lambda>ok.
                  if \<not> ok then ret NULL
                  else
                    bindm (UfsrvFutureThen E call future_b (Some K_sZipSecondContinuation) (Some ctx)) (\<lambda>ok.
                    if \<not> ok then ret NULL else ret (Some out_future))))))))
      | _ \<Rightarrow> ret NULL)"

definition UfsrvFutureZip ::
  "('u, 'c, 'q, 't, 'n, 'z) fenv \<Rightarrow> ('u, 'c, 'q, 't, 'n, 'z) fcall \<Rightarrow> ptr \<Rightarrow> ptr \<Rightarrow> 'c option \<Rightarrow> ptr \<Rightarrow>
   ('u, 'c, 'q, 't, 'n, 'z, ptr) fprog" where
  "UfsrvFutureZip E call future_a future_b zipper context_ptr =
     sFutureZip E call future_a future_b zipper context_ptr (Some F_free)"

definition UfsrvFutureZipEx ::
  "('u, 'c, 'q, 't, 'n, 'z) fenv \<Rightarrow> ('u, 'c, 'q, 't, 'n, 'z) fcall \<Rightarrow> ptr \<Rightarrow> ptr \<Rightarrow> 'c option \<Rightarrow> ptr \<Rightarrow>
   'c fnp option \<Rightarrow> ('u, 'c, 'q, 't, 'n, 'z, ptr) fprog" where
  "UfsrvFutureZipEx E call future_a future_b zipper context_ptr free_value =
     sFutureZip E call future_a future_b zipper context_ptr free_value"

section \<open>Calling a function pointer\<close>

text \<open>
  The code behind each function pointer.  \<open>call\<close> is the dispatcher used by calls made while the
  function runs; the fuel bounds the depth of such nested calls.
\<close>

definition rx_handler ::
  "('u, 'c, 'q, 't, 'n, 'z) fenv \<Rightarrow> ('u, 'c, 'q, 't, 'n, 'z) fcall \<Rightarrow> ('u, 'c, 'q, 't, 'n, 'z) fcall" where
  "rx_handler E call c =
     (case c of
        Call_void fn x \<Rightarrow>
          (case fn of
             F_user u \<Rightarrow> app_void E u x
           | F_free \<Rightarrow> env_free E x
           | F_sResumeJob \<Rightarrow> sResumeJob (env_aco E) x
           | F_sSpawnJob \<Rightarrow> sSpawnJob (env_aco E) x
           | F_sFutureCancelCallback \<Rightarrow> sFutureCancelCallback E call x
           | F_sFutureCancelRelease \<Rightarrow> sFutureCancelRelease E call x
           | F_sResumeWaiterOnCancel \<Rightarrow> sResumeWaiterOnCancel E x
           | F_sWakeBlockingWaiterOnCancel \<Rightarrow> sWakeBlockingWaiterOnCancel E x
           | F_sWaiterCancelRelease \<Rightarrow> sWaiterCancelRelease E x)
      | Call_cont k f x \<Rightarrow>
          (case k of
             K_user u \<Rightarrow> app_then E u f x
           | K_sMoveChainContinuation \<Rightarrow> sMoveChainContinuation E call f x
           | K_sMapContinuation \<Rightarrow> sMapContinuation E call f x
           | K_sFlatMapContinuation \<Rightarrow> sFlatMapContinuation E call f x
           | K_sOnErrorContinuation \<Rightarrow> sOnErrorContinuation E call f x
           | K_sDoOnSuccessContinuation \<Rightarrow> sDoOnSuccessContinuation E call f x
           | K_sAllContinuation \<Rightarrow> sAllContinuation E call f x
           | K_sAnyContinuation \<Rightarrow> sAnyContinuation E call f x
           | K_sZipFirstContinuation \<Rightarrow> sZipFirstContinuation E call f x
           | K_sZipSecondContinuation \<Rightarrow> sZipSecondContinuation E call f x))"

primrec rx_dispatch :: "('u, 'c, 'q, 't, 'n, 'z) fenv \<Rightarrow> nat \<Rightarrow> ('u, 'c, 'q, 't, 'n, 'z) fcall" where
  "rx_dispatch E 0 = (\<lambda>_. fail OutOfFuel)"
| "rx_dispatch E (Suc n) = rx_handler E (rx_dispatch E n)"

end
