(* ===== verification/Future_Spec.thy ===== *)
theory Future_Spec
  imports Future_Operators Coroutine_Spec
begin

text \<open>
  What a future promises.  A future refines a small abstract machine, a result that is set at
  most once and the continuations that wait for it: every registered continuation is run
  exactly once, with the first result, and later results are refused and freed.
\<close>

section \<open>The stack's laws\<close>

lemma treiber_lawsD:
  assumes "treiber_laws T nodes closed refs claimed"
  shows "nodes (ts_new T) = []" "\<not> closed (ts_new T)"
    "fst (ts_push T a t) = (\<not> closed t)" "closed (snd (ts_push T a t)) = closed t"
    "nodes (snd (ts_push T a t)) = (if closed t then nodes t else a # nodes t)"
    "fst (ts_steal T t) = nodes t" "nodes (snd (ts_steal T t)) = []" "closed (snd (ts_steal T t))"
    "refs (tn_init T) = 2" "\<not> claimed (tn_init T)"
    "fst (tn_claim T n) = (\<not> claimed n)" "claimed (snd (tn_claim T n))" "refs (snd (tn_claim T n)) = refs n"
    "fst (tn_release T n) = (refs n = 1)" "claimed (snd (tn_release T n)) = claimed n"
    "refs (snd (tn_release T n)) = refs n - 1"
    "claimed (tn_retain T n) = claimed n" "refs (tn_retain T n) = refs n + 1"
  using assms by (simp_all add: treiber_laws_def)

section \<open>Draining continuations\<close>

text \<open>A heap without the objects at the given addresses.\<close>

definition drop_keys :: "addr list \<Rightarrow> (addr \<rightharpoonup> 'a) \<Rightarrow> (addr \<rightharpoonup> 'a)" where
  "drop_keys ns m = m |` (- set ns)"

lemma drop_keys_simps [simp]:
  "drop_keys [] m = m" "drop_keys ns (m(n := None)) = drop_keys (n # ns) m"
  by (auto simp: drop_keys_def restrict_map_def fun_eq_iff)

lemma drop_keys_apply: "drop_keys ns m x = (if x \<in> set ns then None else m x)"
  by (simp add: drop_keys_def restrict_map_def)

text \<open>
  Callbacks that observe a result and touch only the application's state: \<open>cu\<close> is what a
  continuation does with the result it is given, \<open>cv\<close> what a plain callback does.
\<close>

definition observing_call ::
  "('c contfn \<Rightarrow> 'c UfsrvFutureResult option \<Rightarrow> ptr \<Rightarrow> 'u \<Rightarrow> 'u) \<Rightarrow> ('c fnp \<Rightarrow> ptr \<Rightarrow> 'u \<Rightarrow> 'u) \<Rightarrow>
   ('u, 'c, 'q, 't, 'n, 'z) fcall" where
  "observing_call cu cv c s =
     (case c of
        Call_cont k f x \<Rightarrow> Inr ((), s\<lparr>user := cu k (map_option fu_result (futures s f)) x (user s)\<rparr>)
      | Call_void fn x \<Rightarrow> Inr ((), s\<lparr>user := cv fn x (user s)\<rparr>))"

lemma observing_call_apply [simp]:
  "observing_call cu cv (Call_cont k f x) s = Inr ((), s\<lparr>user := cu k (map_option fu_result (futures s f)) x (user s)\<rparr>)"
  "observing_call cu cv (Call_void fn x) s = Inr ((), s\<lparr>user := cv fn x (user s)\<rparr>)"
  by (simp_all add: observing_call_def)

text \<open>A registered continuation holds the stack's reference and is not claimed.\<close>

definition cont_ready ::
  "('n \<Rightarrow> int) \<Rightarrow> ('n \<Rightarrow> bool) \<Rightarrow> ('u, 'c, 'q, 't, 'n, 'z) future_sys_scheme \<Rightarrow> addr \<Rightarrow> bool" where
  "cont_ready refs claimed s n \<longleftrightarrow>
     (\<exists>c. conts s n = Some c \<and> refs (ct_base c) = 1 \<and> \<not> claimed (ct_base c))"

definition cont_entry :: "('u, 'c, 'q, 't, 'n, 'z) future_sys_scheme \<Rightarrow> addr \<Rightarrow> 'c contfn \<times> ptr" where
  "cont_entry s n = (case conts s n of Some c \<Rightarrow> (ct_fn c, ct_user c) | None \<Rightarrow> undefined)"

definition deliver ::
  "('c contfn \<Rightarrow> 'c UfsrvFutureResult option \<Rightarrow> ptr \<Rightarrow> 'u \<Rightarrow> 'u) \<Rightarrow> 'c UfsrvFutureResult \<Rightarrow>
   ('c contfn \<times> ptr) list \<Rightarrow> 'u \<Rightarrow> 'u" where
  "deliver cu r = fold (\<lambda>(k, x). cu k (Some r) x)"

lemma drain_continuations_effect:
  assumes "treiber_laws (env_ts E) nodes closed refs claimed"
  shows "distinct ns \<Longrightarrow> \<forall>n\<in>set ns. cont_ready refs claimed s n \<Longrightarrow> futures s f = Some v \<Longrightarrow>
    drain_continuations_loop E (observing_call cu cv) f ns s =
      Inr ((), s\<lparr>user := deliver cu (fu_result v) (map (cont_entry s) ns) (user s),
                 conts := drop_keys ns (conts s)\<rparr>)"
proof (induction ns arbitrary: s)
  case Nil
  then show ?case by (simp add: deliver_def)
next
  case (Cons n ns)
  note T = treiber_lawsD [OF assms]
  from Cons.prems(2) obtain c where c: "conts s n = Some c" "refs (ct_base c) = 1" "\<not> claimed (ct_base c)"
    by (auto simp: cont_ready_def)
  let ?u = "cu (ct_fn c) (Some (fu_result v)) (ct_user c) (user s)"
  let ?s = "s\<lparr>user := ?u, conts := (conts s)(n := None)\<rparr>"
  have run: "drain_continuations_loop E (observing_call cu cv) f (n # ns) s =
      drain_continuations_loop E (observing_call cu cv) f ns ?s"
    using c Cons.prems(3) by (simp add: sRunContinuation_def cont_claim_def sNodeRelease_def cont_release_def T)
  have same: "cont_entry ?s m = cont_entry s m" "cont_ready refs claimed ?s m = cont_ready refs claimed s m"
    if "m \<in> set ns" for m
    using Cons.prems(1) that by (auto simp: cont_entry_def cont_ready_def)
  have ready: "\<forall>m\<in>set ns. cont_ready refs claimed ?s m" using Cons.prems(2) same(2) by simp
  have entries: "map (cont_entry ?s) ns = map (cont_entry s) ns" using same(1) by simp
  have "deliver cu (fu_result v) (map (cont_entry s) (n # ns)) (user s) =
      deliver cu (fu_result v) (map (cont_entry s) ns) ?u" using c by (simp add: deliver_def cont_entry_def)
  then show ?case
    using Cons.IH [OF _ ready] Cons.prems(1,3) unfolding run by (simp add: entries del: fun_upd_apply)
qed

section \<open>Waking waiters\<close>

text \<open>A thread blocked in \<open>get\<close>: its waiter has the stack's and its own reference and an open eventfd.\<close>

definition blocked_waiter ::
  "('n \<Rightarrow> int) \<Rightarrow> ('n \<Rightarrow> bool) \<Rightarrow> ('u, 'c, 'q, 't, 'n, 'z) future_sys_scheme \<Rightarrow> addr \<Rightarrow> int \<Rightarrow> bool" where
  "blocked_waiter refs claimed s w fd \<longleftrightarrow>
     (\<exists>c. waiters s w = Some c \<and> wt_coroutine c = NULL \<and> wt_block_fd c = fd \<and> fd \<ge> 0 \<and> eventfds s fd \<noteq> None \<and>
        refs (wt_base c) = 2 \<and> \<not> claimed (wt_base c))"

definition woken_waiter ::
  "('n \<Rightarrow> int) \<Rightarrow> ('n \<Rightarrow> bool) \<Rightarrow> ('u, 'c, 'q, 't, 'n, 'z) future_sys_scheme \<Rightarrow> addr \<Rightarrow> int \<Rightarrow> bool" where
  "woken_waiter refs claimed s w fd \<longleftrightarrow>
     (\<exists>c. waiters s w = Some c \<and> wt_block_fd c = fd \<and> refs (wt_base c) = 1 \<and> claimed (wt_base c))"

lemma drain_waiters_effect:
  assumes "treiber_laws (env_ts E) nodes closed refs claimed"
  shows "distinct (map fst ws) \<Longrightarrow> distinct (map snd ws) \<Longrightarrow> \<forall>(w, fd)\<in>set ws. blocked_waiter refs claimed s w fd \<Longrightarrow>
    \<exists>W F. drain_waiters_loop E (map fst ws) s = Inr ((), s\<lparr>waiters := W, eventfds := F\<rparr>) \<and>
      (\<forall>(w, fd)\<in>set ws. F fd = map_option Suc (eventfds s fd) \<and> woken_waiter refs claimed (s\<lparr>waiters := W, eventfds := F\<rparr>) w fd) \<and>
      (\<forall>w. w \<notin> fst ` set ws \<longrightarrow> W w = waiters s w) \<and> (\<forall>fd. fd \<notin> snd ` set ws \<longrightarrow> F fd = eventfds s fd)"
proof (induction ws arbitrary: s)
  case Nil
  show ?case by (intro exI [of _ "waiters s"] exI [of _ "eventfds s"]) simp
next
  case (Cons p ws)
  note T = treiber_lawsD [OF assms]
  obtain w fd where p: "p = (w, fd)" by (cases p)
  from Cons.prems(3) p obtain c k where c: "waiters s w = Some c" "wt_coroutine c = NULL" "wt_block_fd c = fd" "fd \<ge> 0"
      "eventfds s fd = Some k" "refs (wt_base c) = 2" "\<not> claimed (wt_base c)"
    by (auto simp: blocked_waiter_def)
  let ?c = "c\<lparr>wt_base := snd (tn_release (env_ts E) (snd (tn_claim (env_ts E) (wt_base c))))\<rparr>"
  let ?s = "s\<lparr>eventfds := (eventfds s)(fd \<mapsto> Suc k), waiters := (waiters s)(w \<mapsto> ?c)\<rparr>"
  have run: "drain_waiters_loop E (map fst (p # ws)) s = drain_waiters_loop E (map fst ws) ?s"
    using c by (simp add: p waiter_claim_def wake_waiter_def eventfd_write_def waiter_release_def T)
  have notin: "w \<notin> fst ` set ws" "fd \<notin> snd ` set ws" using Cons.prems(1,2) p by auto
  have "\<forall>(w', fd')\<in>set ws. blocked_waiter refs claimed ?s w' fd'"
  proof clarify
    fix w' fd' assume m: "(w', fd') \<in> set ws"
    then have "w' \<noteq> w" "fd' \<noteq> fd" using notin by force+
    moreover have "blocked_waiter refs claimed s w' fd'" using Cons.prems(3) m by auto
    ultimately show "blocked_waiter refs claimed ?s w' fd'" by (simp add: blocked_waiter_def)
  qed
  from Cons.IH [OF _ _ this] Cons.prems(1,2) obtain W F where
    IH: "drain_waiters_loop E (map fst ws) ?s = Inr ((), ?s\<lparr>waiters := W, eventfds := F\<rparr>)"
      "\<forall>(w, fd)\<in>set ws. F fd = map_option Suc (eventfds ?s fd) \<and> woken_waiter refs claimed (?s\<lparr>waiters := W, eventfds := F\<rparr>) w fd"
      "\<forall>w. w \<notin> fst ` set ws \<longrightarrow> W w = waiters ?s w" "\<forall>fd. fd \<notin> snd ` set ws \<longrightarrow> F fd = eventfds ?s fd"
    by auto
  have eq: "woken_waiter refs claimed (?s\<lparr>waiters := W, eventfds := F\<rparr>) = woken_waiter refs claimed (s\<lparr>waiters := W, eventfds := F\<rparr>)"
    by (simp add: woken_waiter_def fun_eq_iff)
  have run2: "drain_waiters_loop E (map fst ws) ?s = Inr ((), s\<lparr>waiters := W, eventfds := F\<rparr>)" using IH(1) by simp
  have "F fd = Some (Suc k)" "W w = Some ?c" using IH(3,4) notin by simp_all
  then have here: "F fd = map_option Suc (eventfds s fd) \<and> woken_waiter refs claimed (s\<lparr>waiters := W, eventfds := F\<rparr>) w fd"
    using c by (simp add: woken_waiter_def T)
  have there: "\<forall>(w, fd)\<in>set ws. F fd = map_option Suc (eventfds s fd) \<and> woken_waiter refs claimed (s\<lparr>waiters := W, eventfds := F\<rparr>) w fd"
  proof clarify
    fix w' fd' assume m: "(w', fd') \<in> set ws"
    then have "fd' \<noteq> fd" using notin by force
    with IH(2) m show "F fd' = map_option Suc (eventfds s fd') \<and> woken_waiter refs claimed (s\<lparr>waiters := W, eventfds := F\<rparr>) w' fd'"
      unfolding eq by auto
  qed
  have frame: "\<forall>w'. w' \<notin> fst ` set (p # ws) \<longrightarrow> W w' = waiters s w'" "\<forall>fd'. fd' \<notin> snd ` set (p # ws) \<longrightarrow> F fd' = eventfds s fd'"
    using IH(3,4) by (simp_all add: p)
  have "\<forall>(w, fd)\<in>set (p # ws). F fd = map_option Suc (eventfds s fd) \<and> woken_waiter refs claimed (s\<lparr>waiters := W, eventfds := F\<rparr>) w fd"
    using here there by (simp add: p)
  with run run2 frame show ?case by (metis (no_types, lifting))
qed

section \<open>Completion\<close>

text \<open>
  A future that is not completed, with the addresses and the contents of its two stacks.
\<close>

definition pending_future ::
  "('t \<Rightarrow> addr list) \<Rightarrow> ('t \<Rightarrow> bool) \<Rightarrow> ('u, 'c, 'q, 't, 'n, 'z) future_sys_scheme \<Rightarrow> addr \<Rightarrow> 'c UfsrvFuture \<Rightarrow>
   addr list \<Rightarrow> addr list \<Rightarrow> bool" where
  "pending_future nodes closed s f v cs ws \<longleftrightarrow>
     futures s f = Some v \<and> \<not> fu_is_completed v \<and> fu_state v = UFSRV_FUTURE_PENDING \<and>
     (\<exists>a b ta tb. fu_continuations v = Some a \<and> fu_waiters v = Some b \<and> a \<noteq> b \<and>
        stacks s a = Some ta \<and> stacks s b = Some tb \<and> \<not> closed ta \<and> \<not> closed tb \<and> nodes ta = cs \<and> nodes tb = ws)"

text \<open>The future after its completion.\<close>

definition completed :: "'c UfsrvFutureResult \<Rightarrow> 'c UfsrvFuture \<Rightarrow> 'c UfsrvFuture" where
  "completed r v = v\<lparr>fu_is_completed := True, fu_result := r, fu_state := UFSRV_FUTURE_READY, fu_cancel_handle := NULL\<rparr>"

lemma completed_simps [simp]:
  "fu_is_completed (completed r v)" "fu_result (completed r v) = r" "fu_state (completed r v) = UFSRV_FUTURE_READY"
  "fu_cancel_handle (completed r v) = NULL" "fu_continuations (completed r v) = fu_continuations v"
  "fu_waiters (completed r v) = fu_waiters v" "fu_refcount (completed r v) = fu_refcount v"
  "fu_cancel_token (completed r v) = fu_cancel_token v" "fu_is_consumed (completed r v) = fu_is_consumed v"
  by (simp_all add: completed_def)

lemma complete_again:
  assumes "futures s f = Some v" and "fu_is_completed v"
  shows "sFutureComplete E call f r s = Inr (False, s)"
proof -
  have "v\<lparr>fu_is_completed := True\<rparr> = v" using assms(2) by simp
  then show ?thesis using assms by (simp add: sFutureComplete_def fun_upd_idem)
qed

lemma complete_effect:
  assumes T: "treiber_laws (env_ts E) nodes closed refs claimed"
    and pend: "pending_future nodes closed s f v cs (map fst ws)" and "fu_cancel_handle v = NULL"
    and cs: "distinct cs" "\<forall>n\<in>set cs. cont_ready refs claimed s n"
    and ws: "distinct (map fst ws)" "distinct (map snd ws)" "\<forall>(w, fd)\<in>set ws. blocked_waiter refs claimed s w fd"
  shows "\<exists>S W F. sFutureComplete E (observing_call cu cv) f r s =
      Inr (True, s\<lparr>futures := (futures s)(f \<mapsto> completed r v), waiters := W, eventfds := F, stacks := S,
        user := deliver cu r (map (cont_entry s) cs) (user s), conts := drop_keys cs (conts s)\<rparr>) \<and>
    (\<forall>a. Some a \<noteq> fu_continuations v \<longrightarrow> Some a \<noteq> fu_waiters v \<longrightarrow> S a = stacks s a) \<and>
    (\<forall>a. Some a = fu_continuations v \<or> Some a = fu_waiters v \<longrightarrow> (\<exists>t. S a = Some t \<and> closed t \<and> nodes t = [])) \<and>
    (\<forall>(w, fd)\<in>set ws. F fd = map_option Suc (eventfds s fd) \<and> woken_waiter refs claimed (s\<lparr>waiters := W, eventfds := F\<rparr>) w fd) \<and>
    (\<forall>w. w \<notin> fst ` set ws \<longrightarrow> W w = waiters s w) \<and> (\<forall>fd. fd \<notin> snd ` set ws \<longrightarrow> F fd = eventfds s fd)"
proof -
  note L = treiber_lawsD [OF T]
  from pend obtain a b ta tb where v: "futures s f = Some v" "\<not> fu_is_completed v" "fu_continuations v = Some a"
      "fu_waiters v = Some b" "a \<noteq> b" "stacks s a = Some ta" "stacks s b = Some tb" "nodes ta = cs" "nodes tb = map fst ws"
    by (auto simp: pending_future_def)
  let ?F = "(futures s)(f \<mapsto> completed r v)"
  let ?s1 = "s\<lparr>futures := ?F, stacks := (stacks s)(b \<mapsto> snd (ts_steal (env_ts E) tb))\<rparr>"
  have "\<forall>(w, fd)\<in>set ws. blocked_waiter refs claimed ?s1 w fd" using ws(3) by (auto simp: blocked_waiter_def)
  from drain_waiters_effect [OF T ws(1,2) this] obtain W F where
    dw: "drain_waiters_loop E (map fst ws) ?s1 = Inr ((), ?s1\<lparr>waiters := W, eventfds := F\<rparr>)"
    and wk: "\<forall>(w, fd)\<in>set ws. F fd = map_option Suc (eventfds ?s1 fd) \<and> woken_waiter refs claimed (?s1\<lparr>waiters := W, eventfds := F\<rparr>) w fd"
      "\<forall>w. w \<notin> fst ` set ws \<longrightarrow> W w = waiters ?s1 w" "\<forall>fd. fd \<notin> snd ` set ws \<longrightarrow> F fd = eventfds ?s1 fd" by auto
  let ?S = "(stacks s)(b \<mapsto> snd (ts_steal (env_ts E) tb), a \<mapsto> snd (ts_steal (env_ts E) ta))"
  let ?s2 = "s\<lparr>futures := ?F, waiters := W, eventfds := F, stacks := ?S\<rparr>"
  have f2: "futures ?s2 f = Some (completed r v)" by simp
  have same: "cont_entry ?s2 = cont_entry s" "cont_ready refs claimed ?s2 = cont_ready refs claimed s"
    by (simp_all add: cont_entry_def cont_ready_def fun_eq_iff)
  have dc: "drain_continuations_loop E (observing_call cu cv) f cs ?s2 =
      Inr ((), s\<lparr>futures := ?F, waiters := W, eventfds := F, stacks := ?S,
        user := deliver cu r (map (cont_entry s) cs) (user s), conts := drop_keys cs (conts s)\<rparr>)"
    using drain_continuations_effect [OF T cs(1) _ f2, of cu cv] cs(2) by (simp add: same del: fun_upd_apply)
  have "sFutureComplete E (observing_call cu cv) f r s =
      bindm (drain_waiters_loop E (map fst ws)) (\<lambda>_. bindm (sDrainContinuations E (observing_call cu cv) f) (\<lambda>_. ret True)) ?s1"
    using v assms(3) by (simp add: sFutureComplete_def sDrainWaiters_def stack_steal_all_and_close_def L completed_def bindm_assoc)
  also have "\<dots> = bindm (drain_continuations_loop E (observing_call cu cv) f cs) (\<lambda>_. ret True) ?s2"
    using dw v by (simp add: sDrainContinuations_def stack_steal_all_and_close_def L bindm_assoc)
  also have "\<dots> = Inr (True, s\<lparr>futures := ?F, waiters := W, eventfds := F, stacks := ?S,
        user := deliver cu r (map (cont_entry s) cs) (user s), conts := drop_keys cs (conts s)\<rparr>)"
    using dc by simp
  finally have run: "sFutureComplete E (observing_call cu cv) f r s = \<dots>" .
  show ?thesis
  proof (intro exI [of _ ?S] exI [of _ W] exI [of _ F] conjI)
    show "\<forall>(w, fd)\<in>set ws. F fd = map_option Suc (eventfds s fd) \<and> woken_waiter refs claimed (s\<lparr>waiters := W, eventfds := F\<rparr>) w fd"
      using wk(1) by (auto simp: woken_waiter_def)
  qed (use run wk v L in \<open>auto\<close>)
qed

section \<open>Creating a promise\<close>

text \<open>The addresses from \<open>next_addr\<close> on are free in the heaps of futures, promises and stacks.\<close>

definition fresh_heaps :: "('u, 'c, 'q, 't, 'n, 'z) future_sys_scheme \<Rightarrow> bool" where
  "fresh_heaps s \<longleftrightarrow>
     (\<forall>m\<ge>next_addr s. futures s m = None \<and> promises s m = None \<and> stacks s m = None)"

definition new_future :: "addr \<Rightarrow> addr \<Rightarrow> 'c UfsrvFuture" where
  "new_future a b = zero_future\<lparr>fu_continuations := Some a, fu_waiters := Some b, fu_refcount := 2\<rparr>"

lemma new_future_simps [simp]:
  "fu_is_completed (new_future a b) = False" "fu_is_consumed (new_future a b) = False"
  "fu_state (new_future a b) = UFSRV_FUTURE_PENDING" "fu_continuations (new_future a b) = Some a"
  "fu_waiters (new_future a b) = Some b" "fu_refcount (new_future a b) = 2" "fu_result (new_future a b) = zero_result"
  "fu_cancel_token (new_future a b) = NULL" "fu_cancel_handle (new_future a b) = NULL"
  by (simp_all add: new_future_def zero_future_def)

definition created ::
  "('u, 'c, 'q, 't, 'n, 'z) fenv \<Rightarrow> ('u, 'c, 'q, 't, 'n, 'z) future_sys_scheme \<Rightarrow> ('u, 'c, 'q, 't, 'n, 'z) future_sys_scheme" where
  "created E s = (let n = next_addr s in
     s\<lparr>next_addr := n + 4, stacks := (stacks s)(n + 2 \<mapsto> ts_new (env_ts E), n + 3 \<mapsto> ts_new (env_ts E)),
       futures := (futures s)(n \<mapsto> new_future (n + 2) (n + 3)),
       promises := (promises s)(n + 1 \<mapsto> \<lparr>pr_future = Some n, pr_is_fulfilled = False\<rparr>)\<rparr>)"

lemma promise_create_ok:
  assumes "sys_ok s (next_addr s)" "sys_ok s (next_addr s + 1)" "sys_ok s (next_addr s + 2)" "sys_ok s (next_addr s + 3)"
  shows "UfsrvPromiseCreate E True s = Inr (Some (next_addr s + 1, next_addr s), created E s)"
  using assms by (simp add: UfsrvPromiseCreate_def stack_create_def created_def Let_def new_future_def numeral_eq_Suc)

lemma created_simps [simp]:
  "futures (created E s) = (futures s)(next_addr s \<mapsto> new_future (next_addr s + 2) (next_addr s + 3))"
  "promises (created E s) = (promises s)(next_addr s + 1 \<mapsto> \<lparr>pr_future = Some (next_addr s), pr_is_fulfilled = False\<rparr>)"
  "next_addr (created E s) = next_addr s + 4" "user (created E s) = user s" "sys_ok (created E s) = sys_ok s"
  "conts (created E s) = conts s" "waiters (created E s) = waiters s" "eventfds (created E s) = eventfds s"
  "tokens (created E s) = tokens s" "callbacks (created E s) = callbacks s"
  "stacks (created E s) = (stacks s)(next_addr s + 2 \<mapsto> ts_new (env_ts E), next_addr s + 3 \<mapsto> ts_new (env_ts E))"
  by (simp_all add: created_def Let_def)

lemma created_pending:
  assumes "treiber_laws (env_ts E) nodes closed refs claimed"
  shows "pending_future nodes closed (created E s) (next_addr s) (new_future (next_addr s + 2) (next_addr s + 3)) [] []"
  using treiber_lawsD(1,2) [OF assms] by (simp add: pending_future_def)

lemma promise_create_oom:
  assumes fresh: "fresh_heaps s" and no: "\<not> (\<forall>i<4. sys_ok s (next_addr s + i))"
  shows "\<exists>k. UfsrvPromiseCreate E True s = Inr (None, s\<lparr>next_addr := k\<rparr>)"
proof -
  let ?n = "next_addr s"
  have free: "(futures s)(?n := None) = futures s" "(promises s)(Suc ?n := None) = promises s"
    "(stacks s)(Suc (Suc ?n) := None) = stacks s" "(stacks s)(Suc (Suc (Suc ?n)) := None) = stacks s"
    using fresh by (auto simp: fresh_heaps_def)
  from no consider "\<not> sys_ok s ?n" | "sys_ok s ?n" "\<not> sys_ok s (Suc ?n)"
    | "sys_ok s ?n" "sys_ok s (Suc ?n)" "\<not> sys_ok s (Suc (Suc ?n))" "\<not> sys_ok s (Suc (Suc (Suc ?n)))"
    | "sys_ok s ?n" "sys_ok s (Suc ?n)" "\<not> sys_ok s (Suc (Suc ?n))" "sys_ok s (Suc (Suc (Suc ?n)))"
    | "sys_ok s ?n" "sys_ok s (Suc ?n)" "sys_ok s (Suc (Suc ?n))" "\<not> sys_ok s (Suc (Suc (Suc ?n)))"
    by (auto simp: numeral_eq_Suc less_Suc_eq)
  then show ?thesis
    by cases (simp_all add: UfsrvPromiseCreate_def stack_create_def stack_destroy_def free, auto)
qed

section \<open>Completing and releasing a future that nobody observes\<close>

text \<open>Both stacks of a future closed.\<close>

definition drain_stacks :: "('u, 'c, 'q, 't, 'n, 'z) fenv \<Rightarrow> 'c UfsrvFuture \<Rightarrow> (addr \<rightharpoonup> 't) \<Rightarrow> (addr \<rightharpoonup> 't)" where
  "drain_stacks E v S = S(the (fu_waiters v) \<mapsto> snd (ts_steal (env_ts E) (the (S (the (fu_waiters v))))),
     the (fu_continuations v) \<mapsto> snd (ts_steal (env_ts E) (the (S (the (fu_continuations v))))))"

lemma complete_quiet:
  assumes T: "treiber_laws (env_ts E) nodes closed refs claimed"
    and pend: "pending_future nodes closed s f v [] []" and "fu_cancel_handle v = NULL"
  shows "sFutureComplete E call f r s =
    Inr (True, s\<lparr>futures := (futures s)(f \<mapsto> completed r v), stacks := drain_stacks E v (stacks s)\<rparr>)"
  using assms(3) pend treiber_lawsD(6) [OF T]
  by (auto simp: pending_future_def sFutureComplete_def sDrainWaiters_def sDrainContinuations_def
      stack_steal_all_and_close_def drain_stacks_def completed_def)

text \<open>The future after its promise set the result and was given up.\<close>

definition settled :: "'c UfsrvFutureResult \<Rightarrow> 'c UfsrvFuture \<Rightarrow> 'c UfsrvFuture" where
  "settled r v = (completed r v)\<lparr>fu_refcount := fu_refcount v - 1\<rparr>"

lemma settled_simps [simp]:
  "fu_is_completed (settled r v)" "fu_result (settled r v) = r" "fu_state (settled r v) = UFSRV_FUTURE_READY"
  "fu_cancel_handle (settled r v) = NULL" "fu_continuations (settled r v) = fu_continuations v"
  "fu_waiters (settled r v) = fu_waiters v" "fu_refcount (settled r v) = fu_refcount v - 1"
  "fu_cancel_token (settled r v) = fu_cancel_token v" "fu_is_consumed (settled r v) = fu_is_consumed v"
  by (simp_all add: settled_def)

lemma release_not_last:
  assumes "futures s f = Some v" and "fu_refcount v \<noteq> 1"
  shows "UfsrvFutureRelease E call (Some f) s =
    Inr ((), s\<lparr>futures := (futures s)(f \<mapsto> v\<lparr>fu_refcount := fu_refcount v - 1\<rparr>)\<rparr>)"
  using assms by (simp add: UfsrvFutureRelease_def)

lemma fulfil_quiet:
  assumes T: "treiber_laws (env_ts E) nodes closed refs claimed"
    and pend: "pending_future nodes closed s f v [] []" and "fu_cancel_handle v = NULL" and "fu_refcount v \<noteq> 1"
    and p: "promises s p = Some \<lparr>pr_future = Some f, pr_is_fulfilled = False\<rparr>"
  shows "fulfil_result E call (Some p) r s =
    Inr ((), s\<lparr>stacks := drain_stacks E v (stacks s), futures := (futures s)(f \<mapsto> settled r v),
               promises := (promises s)(p := None)\<rparr>)"
proof -
  let ?q = "\<lparr>pr_future = Some f, pr_is_fulfilled = True\<rparr>"
  let ?s1 = "s\<lparr>promises := (promises s)(p \<mapsto> ?q)\<rparr>"
  let ?s2 = "s\<lparr>promises := (promises s)(p \<mapsto> ?q), futures := (futures s)(f \<mapsto> completed r v), stacks := drain_stacks E v (stacks s)\<rparr>"
  have "pending_future nodes closed ?s1 f v [] []" using pend by (simp add: pending_future_def)
  from complete_quiet [OF T this assms(3)] have c: "sFutureComplete E call f r ?s1 = Inr (True, ?s2)" by simp
  have set: "UfsrvPromiseSetResult E call (Some p) r s = Inr ((), ?s2)"
    using p c by (simp add: UfsrvPromiseSetResult_def)
  show ?thesis
    using set assms(4) by (simp add: fulfil_result_def UfsrvPromiseDestroy_def release_not_last settled_def)
qed

lemma fulfil_eqs:
  "fulfil_error E call p e = fulfil_result E call p (error_result e)"
  "fulfil_value E call p x fr = fulfil_result E call p \<lparr>res_error = 0, res_value = x, res_free_value = fr\<rparr>"
  by (simp_all add: fulfil_error_def fulfil_value_def fulfil_result_def UfsrvPromiseSetError_def UfsrvPromiseSetValue_def)

text \<open>What dropping a value does to the application's state.\<close>

definition drop_user :: "('c fnp \<Rightarrow> ptr \<Rightarrow> 'u \<Rightarrow> 'u) \<Rightarrow> 'c UfsrvFutureResult \<Rightarrow> 'u \<Rightarrow> 'u" where
  "drop_user cv r u =
     (case res_free_value r of None \<Rightarrow> u | Some fr \<Rightarrow> if res_value r \<noteq> NULL then cv fr (res_value r) u else u)"

lemma drop_value_observing [simp]:
  "drop_value (observing_call cu cv) r s = Inr ((), s\<lparr>user := drop_user cv r (user s)\<rparr>)"
  by (simp add: drop_value_def drop_user_def split: option.split)

lemma release_last:
  assumes T: "treiber_laws (env_ts E) nodes closed refs claimed"
    and v: "futures s f = Some v" "fu_refcount v = 1" "fu_cancel_token v = NULL"
      "fu_continuations v = Some a" "fu_waiters v = Some b" "a \<noteq> b"
    and st: "stacks s a = Some ta" "stacks s b = Some tb" "nodes ta = []" "nodes tb = []"
  shows "UfsrvFutureRelease E (observing_call cu cv) (Some f) s =
    Inr ((), s\<lparr>user := drop_user cv (fu_result v) (user s), stacks := (stacks s)(a := None, b := None),
               futures := (futures s)(f := None)\<rparr>)"
  using v st treiber_lawsD(6) [OF T]
  by (simp add: UfsrvFutureRelease_def stack_steal_all_and_close_def stack_destroy_def fun_upd_twist)

section \<open>A concrete environment\<close>

text \<open>The stack as a list with a closed flag, a node as its reference count and its claim flag.\<close>

definition list_stack :: "(addr list \<times> bool, int \<times> bool) treiber_ops" where
  "list_stack = \<lparr>ts_new = ([], False),
     ts_push = (\<lambda>a (l, c). if c then (False, (l, c)) else (True, (a # l, c))),
     ts_steal = (\<lambda>(l, c). (l, ([], True))),
     tn_init = (2, False), tn_claim = (\<lambda>(r, c). (\<not> c, (r, True))), tn_release = (\<lambda>(r, c). (r = 1, (r - 1, c))),
     tn_retain = (\<lambda>(r, c). (r + 1, c))\<rparr>"

lemma list_stack_laws: "treiber_laws list_stack fst snd fst snd"
  by (simp add: treiber_laws_def list_stack_def split: prod.splits)

definition idle_aco :: "('u, 'fn, 'q, 'z) aco" where
  "idle_aco = \<lparr>aco_thread_init = ret (), aco_create = (\<lambda>_ _ _. ret NULL), aco_destroy = (\<lambda>_. ret ()),
     aco_share_stack_new = ret NULL, aco_share_stack_destroy = (\<lambda>_. ret ()), aco_resume = (\<lambda>_. ret ()),
     aco_is_end = (\<lambda>_. ret False), aco_yield = ret (), aco_exit = ret (), aco_get_co = ret (Some 9),
     aco_get_arg = ret NULL, aco_set_arg = (\<lambda>_ _. ret ())\<rparr>"

text \<open>
  An application that does nothing but map a value to its successor, add two values, and answer
  an asynchronous request with the future it was given as context.
\<close>

definition base_env :: "('u, 'c, addr list, addr list \<times> bool, int \<times> bool, 'z) fenv" where
  "base_env = \<lparr>env_mpsc = list_queue, env_aco = idle_aco, env_ts = list_stack, env_free = (\<lambda>_. ret ()),
     env_wait = ret False, env_ndebug = False, env_fuel = 5, app_void = (\<lambda>_ _. ret ()), app_then = (\<lambda>_ _ _. ret ()),
     app_map = (\<lambda>_ x _. ret (map_option Suc x)), app_flatmap = (\<lambda>_ _ c. ret c), app_recover = (\<lambda>_ _ c. ret c),
     app_action = (\<lambda>_ _ _. ret ()), app_zip = (\<lambda>_ x y _. ret (Some (the x + the y)))\<rparr>"

lemma base_env_simps [simp]:
  "env_ts base_env = list_stack" "env_mpsc base_env = list_queue" "env_aco base_env = idle_aco" "env_fuel base_env = 5"
  "app_map base_env c x y = ret (map_option Suc x)" "app_zip base_env c x x' y = ret (Some (the x + the x'))"
  "app_flatmap base_env c x y = ret y" "app_recover base_env c e y = ret y"
  by (simp_all add: base_env_def)

text \<open>A process with nothing allocated.\<close>

definition future_init :: "'u \<Rightarrow> (nat \<Rightarrow> bool) \<Rightarrow> ('u, 'c, addr list, addr list \<times> bool, int \<times> bool) future_sys" where
  "future_init u ok = coro_sys.extend
     (sched_sys.extend (sched_init u ok)
       (coro_sys.fields (\<lambda>_. NULL) (\<lambda>_. NULL) (\<lambda>_. False) (\<lambda>_. NULL) (\<lambda>_. NULL) Map.empty Map.empty Map.empty))
     (future_sys.fields Map.empty Map.empty Map.empty Map.empty Map.empty Map.empty Map.empty Map.empty Map.empty
       Map.empty Map.empty Map.empty Map.empty)"

lemmas future_init_defs = future_init_def sched_init_def sched_sys.defs coro_sys.defs future_sys.defs

end
