(* ===== verification/Future_Refinement.thy ===== *)
theory Future_Refinement
  imports Future_Spec
begin

text \<open>
  A future as an abstract machine: a result that is set at most once, and the continuations
  that wait for it.  Every sequence of registrations, completions and queries on the code
  behaves like this machine, and in the machine every accepted continuation is delivered
  exactly once, with the first result.
\<close>

section \<open>The abstract machine\<close>

datatype 'c fut_op = Op_then "'c contfn" ptr | Op_complete "'c UfsrvFutureResult" | Op_is_ready

text \<open>The result, the waiting continuations (most recent first), the application's state.\<close>

type_synonym ('c, 'u) a_future = "'c UfsrvFutureResult option \<times> ('c contfn \<times> ptr) list \<times> 'u"

inductive afut_step ::
  "('c contfn \<Rightarrow> 'c UfsrvFutureResult option \<Rightarrow> ptr \<Rightarrow> 'u \<Rightarrow> 'u) \<Rightarrow>
   ('c, 'u) a_future \<Rightarrow> 'c fut_op \<Rightarrow> bool \<Rightarrow> ('c, 'u) a_future \<Rightarrow> bool"
  for cu where
  then_ready: "afut_step cu (Some r, p, u) (Op_then k x) True (Some r, p, cu k (Some r) x u)"
| then_pending: "afut_step cu (None, p, u) (Op_then k x) True (None, (k, x) # p, u)"
| then_refused: "afut_step cu (None, p, u) (Op_then k x) False (None, p, u)"
| complete_first: "afut_step cu (None, p, u) (Op_complete r) True (Some r, [], deliver cu r p u)"
| complete_late: "afut_step cu (Some r0, p, u) (Op_complete r) False (Some r0, p, u)"
| is_ready: "afut_step cu (res, p, u) Op_is_ready (res \<noteq> None) (res, p, u)"

inductive_cases afut_step_thenE: "afut_step cu st (Op_then k x) b st'"
inductive_cases afut_step_completeE: "afut_step cu st (Op_complete r) b st'"
inductive_cases afut_step_readyE: "afut_step cu st Op_is_ready b st'"

inductive afut_run ::
  "('c contfn \<Rightarrow> 'c UfsrvFutureResult option \<Rightarrow> ptr \<Rightarrow> 'u \<Rightarrow> 'u) \<Rightarrow>
   ('c, 'u) a_future \<Rightarrow> 'c fut_op list \<Rightarrow> bool list \<Rightarrow> ('c, 'u) a_future \<Rightarrow> bool"
  for cu where
  afut_run_Nil: "afut_run cu st [] [] st"
| afut_run_Cons: "afut_step cu st op b st1 \<Longrightarrow> afut_run cu st1 ops bs st2 \<Longrightarrow> afut_run cu st (op # ops) (b # bs) st2"

inductive_cases afut_run_NilE: "afut_run cu st [] bs st'"
inductive_cases afut_run_ConsE: "afut_run cu st (op # ops) bs st'"

section \<open>The code\<close>

definition fut_exec ::
  "('u, 'c, 'q, 't, 'n, 'z) fenv \<Rightarrow> ('u, 'c, 'q, 't, 'n, 'z) fcall \<Rightarrow> addr \<Rightarrow> 'c fut_op \<Rightarrow>
   ('u, 'c, 'q, 't, 'n, 'z, bool) fprog" where
  "fut_exec E call f op =
     (case op of
        Op_then k x \<Rightarrow> UfsrvFutureThen E call (Some f) (Some k) x
      | Op_complete r \<Rightarrow> sFutureComplete E call f r
      | Op_is_ready \<Rightarrow> UfsrvFutureIsReady (Some f))"

primrec fut_run ::
  "('u, 'c, 'q, 't, 'n, 'z) fenv \<Rightarrow> ('u, 'c, 'q, 't, 'n, 'z) fcall \<Rightarrow> addr \<Rightarrow> 'c fut_op list \<Rightarrow>
   ('u, 'c, 'q, 't, 'n, 'z, bool list) fprog" where
  "fut_run E call f [] = ret []"
| "fut_run E call f (op # ops) =
     bindm (fut_exec E call f op) (\<lambda>b. bindm (fut_run E call f ops) (\<lambda>bs. ret (b # bs)))"

text \<open>
  The abstraction relation: a pending future with its registered continuations and blocked
  threads, or a completed one.
\<close>

definition future_rel ::
  "('t \<Rightarrow> addr list) \<Rightarrow> ('t \<Rightarrow> bool) \<Rightarrow> ('n \<Rightarrow> int) \<Rightarrow> ('n \<Rightarrow> bool) \<Rightarrow>
   ('u, 'c, 'q, 't, 'n, 'z) future_sys_scheme \<Rightarrow> addr \<Rightarrow> ('c, 'u) a_future \<Rightarrow> bool" where
  "future_rel nodes closed refs claimed s f st \<longleftrightarrow>
     (case st of (res, p, u) \<Rightarrow>
        user s = u \<and>
        (case res of
           None \<Rightarrow> \<exists>v cs ws. pending_future nodes closed s f v cs (map fst ws) \<and> fu_cancel_handle v = NULL \<and>
             distinct cs \<and> (\<forall>n\<in>set cs. cont_ready refs claimed s n \<and> n < next_addr s) \<and> map (cont_entry s) cs = p \<and>
             distinct (map fst ws) \<and> distinct (map snd ws) \<and> (\<forall>(w, fd)\<in>set ws. blocked_waiter refs claimed s w fd)
         | Some r \<Rightarrow> p = [] \<and> (\<exists>v. futures s f = Some v \<and> fu_is_completed v \<and> fu_state v = UFSRV_FUTURE_READY \<and> fu_result v = r)))"

lemma future_rel_pendingI:
  assumes "user s = u" and "pending_future nodes closed s f v cs (map fst ws)" and "fu_cancel_handle v = NULL"
    and "distinct cs" and "\<forall>n\<in>set cs. cont_ready refs claimed s n \<and> n < next_addr s" and "map (cont_entry s) cs = p"
    and "distinct (map fst ws)" and "distinct (map snd ws)" and "\<forall>(w, fd)\<in>set ws. blocked_waiter refs claimed s w fd"
  shows "future_rel nodes closed refs claimed s f (None, p, u)"
  unfolding future_rel_def using assms by (simp only: prod.case option.case) blast

section \<open>Simulation, one operation at a time\<close>

lemma then_on_ready:
  assumes "futures s f = Some v" and "fu_state v = UFSRV_FUTURE_READY"
  shows "UfsrvFutureThen E call (Some f) (Some k) x s = bindm (call (Call_cont k f x)) (\<lambda>_. ret True) s"
  using assms by (simp add: UfsrvFutureThen_def sFutureThen_def)

text \<open>Registering on a pending future pushes one continuation, which keeps the stack's reference.\<close>

lemma then_on_pending:
  assumes T: "treiber_laws (env_ts E) nodes closed refs claimed" and pend: "pending_future nodes closed s f v cs ws"
    and ok: "sys_ok s (next_addr s)"
  obtains S c where "UfsrvFutureThen E call (Some f) (Some k) x s =
        Inr (True, s\<lparr>next_addr := Suc (next_addr s), stacks := S, conts := (conts s)(next_addr s \<mapsto> c)\<rparr>)"
    and "refs (ct_base c) = 1" and "\<not> claimed (ct_base c)" and "ct_fn c = k" and "ct_user c = x"
    and "\<And>a. Some a \<noteq> fu_continuations v \<Longrightarrow> S a = stacks s a"
    and "pending_future nodes closed (s\<lparr>next_addr := Suc (next_addr s), stacks := S, conts := (conts s)(next_addr s \<mapsto> c)\<rparr>)
          f v (next_addr s # cs) ws"
proof -
  note L = treiber_lawsD [OF T]
  from pend obtain a b ta tb where v: "futures s f = Some v" "\<not> fu_is_completed v" "fu_state v = UFSRV_FUTURE_PENDING"
      "fu_continuations v = Some a" "fu_waiters v = Some b" "a \<noteq> b" "stacks s a = Some ta" "stacks s b = Some tb"
      "\<not> closed ta" "\<not> closed tb" "nodes ta = cs" "nodes tb = ws"
    by (auto simp: pending_future_def)
  define S where "S = (stacks s)(a \<mapsto> snd (ts_push (env_ts E) (next_addr s) ta))"
  define c where "c = \<lparr>ct_base = snd (tn_release (env_ts E) (tn_init (env_ts E))), ct_fn = k, ct_user = x\<rparr>"
  have run: "UfsrvFutureThen E call (Some f) (Some k) x s =
        Inr (True, s\<lparr>next_addr := Suc (next_addr s), stacks := S, conts := (conts s)(next_addr s \<mapsto> c)\<rparr>)"
    using ok v by (simp add: UfsrvFutureThen_def sFutureThen_def sPushContinuation_def stack_push_def
        sNodeRelease_def cont_release_def L S_def c_def)
  have "S a = Some (snd (ts_push (env_ts E) (next_addr s) ta))" "S b = Some tb" using v by (simp_all add: S_def)
  then have pend': "pending_future nodes closed (s\<lparr>next_addr := Suc (next_addr s), stacks := S, conts := (conts s)(next_addr s \<mapsto> c)\<rparr>)
        f v (next_addr s # cs) ws"
    unfolding pending_future_def using v L(4,5) by simp
  show thesis by (rule that [OF run _ _ _ _ _ pend']) (use v L in \<open>simp_all add: c_def S_def\<close>)
qed

lemma then_on_pending_oom:
  assumes "pending_future nodes closed s f v cs ws" and "\<not> sys_ok s (next_addr s)"
  shows "UfsrvFutureThen E call (Some f) (Some k) x s = Inr (False, s\<lparr>next_addr := Suc (next_addr s)\<rparr>)"
  using assms by (auto simp: UfsrvFutureThen_def sFutureThen_def pending_future_def)

lemma sim_then_pending:
  assumes T: "treiber_laws (env_ts E) nodes closed refs claimed" and rel: "future_rel nodes closed refs claimed s f (None, p, u)"
  shows "\<exists>b s' st'. fut_exec E (observing_call cu cv) f (Op_then k x) s = Inr (b, s') \<and>
    afut_step cu (None, p, u) (Op_then k x) b st' \<and> future_rel nodes closed refs claimed s' f st'"
proof -
  let ?n = "next_addr s"
  from rel obtain v cs ws where u: "user s = u" and pend: "pending_future nodes closed s f v cs (map fst ws)"
    and v: "fu_cancel_handle v = NULL" and cs: "distinct cs" "\<forall>m\<in>set cs. cont_ready refs claimed s m \<and> m < ?n" "map (cont_entry s) cs = p"
    and ws: "distinct (map fst ws)" "distinct (map snd ws)" "\<forall>(w, fd)\<in>set ws. blocked_waiter refs claimed s w fd"
    by (auto simp: future_rel_def)
  show ?thesis
  proof (cases "sys_ok s ?n")
    case True
    obtain S c where run: "UfsrvFutureThen E (observing_call cu cv) (Some f) (Some k) x s =
        Inr (True, s\<lparr>next_addr := Suc ?n, stacks := S, conts := (conts s)(?n \<mapsto> c)\<rparr>)"
      and c: "refs (ct_base c) = 1" "\<not> claimed (ct_base c)" "ct_fn c = k" "ct_user c = x"
      and pend': "pending_future nodes closed (s\<lparr>next_addr := Suc ?n, stacks := S, conts := (conts s)(?n \<mapsto> c)\<rparr>) f v (?n # cs) (map fst ws)"
      by (rule then_on_pending [OF T pend True])
    let ?s = "s\<lparr>next_addr := Suc ?n, stacks := S, conts := (conts s)(?n \<mapsto> c)\<rparr>"
    have old: "cont_ready refs claimed ?s m = cont_ready refs claimed s m" "cont_entry ?s m = cont_entry s m" "m < Suc ?n"
      if "m \<in> set cs" for m
      using cs(2) that by (auto simp: cont_ready_def cont_entry_def)
    have new: "cont_ready refs claimed ?s ?n" "cont_entry ?s ?n = (k, x)" using c by (simp_all add: cont_ready_def cont_entry_def)
    have all: "distinct (?n # cs)" "\<forall>m\<in>set (?n # cs). cont_ready refs claimed ?s m \<and> m < next_addr ?s"
      "map (cont_entry ?s) (?n # cs) = (k, x) # p"
      using cs old new by auto
    have "\<forall>(w, fd)\<in>set ws. blocked_waiter refs claimed ?s w fd" using ws(3) by (auto simp: blocked_waiter_def)
    from future_rel_pendingI [OF _ pend' v all ws(1,2) this] u
    have "future_rel nodes closed refs claimed ?s f (None, (k, x) # p, u)" by simp
    then show ?thesis using run then_pending [of cu p u k x] unfolding fut_exec_def by fastforce
  next
    case False
    let ?s = "s\<lparr>next_addr := Suc ?n\<rparr>"
    have run: "fut_exec E (observing_call cu cv) f (Op_then k x) s = Inr (False, ?s)"
      using then_on_pending_oom [OF pend False] by (simp add: fut_exec_def)
    have 1: "pending_future nodes closed ?s f v cs (map fst ws)" using pend by (simp add: pending_future_def)
    have 2: "\<forall>m\<in>set cs. cont_ready refs claimed ?s m \<and> m < next_addr ?s" using cs(2) by (auto simp: cont_ready_def)
    have "cont_entry ?s = cont_entry s" by (simp add: cont_entry_def fun_eq_iff)
    with cs(3) have 3: "map (cont_entry ?s) cs = p" by simp
    have 4: "\<forall>(w, fd)\<in>set ws. blocked_waiter refs claimed ?s w fd" using ws(3) by (auto simp: blocked_waiter_def)
    from future_rel_pendingI [OF _ 1 v cs(1) 2 3 ws(1,2) 4] u
    have "future_rel nodes closed refs claimed ?s f (None, p, u)" by simp
    with run show ?thesis by (intro exI conjI) (assumption, rule then_refused, assumption)
  qed
qed

lemma sim_complete_pending:
  assumes T: "treiber_laws (env_ts E) nodes closed refs claimed" and rel: "future_rel nodes closed refs claimed s f (None, p, u)"
  shows "\<exists>s'. fut_exec E (observing_call cu cv) f (Op_complete r) s = Inr (True, s') \<and>
    future_rel nodes closed refs claimed s' f (Some r, [], deliver cu r p u)"
proof -
  from rel obtain v cs ws where u: "user s = u" and pend: "pending_future nodes closed s f v cs (map fst ws)"
    and v: "fu_cancel_handle v = NULL" and cs: "distinct cs" "\<forall>m\<in>set cs. cont_ready refs claimed s m" "map (cont_entry s) cs = p"
    and ws: "distinct (map fst ws)" "distinct (map snd ws)" "\<forall>(w, fd)\<in>set ws. blocked_waiter refs claimed s w fd"
    by (auto simp: future_rel_def)
  from complete_effect [OF T pend v cs(1,2) ws, of cu cv r] obtain S W F where
    "sFutureComplete E (observing_call cu cv) f r s =
      Inr (True, s\<lparr>futures := (futures s)(f \<mapsto> completed r v), waiters := W, eventfds := F, stacks := S,
        user := deliver cu r (map (cont_entry s) cs) (user s), conts := drop_keys cs (conts s)\<rparr>)" by blast
  then show ?thesis using u cs(3) by (simp add: fut_exec_def future_rel_def)
qed

lemma future_simulation:
  assumes T: "treiber_laws (env_ts E) nodes closed refs claimed" and rel: "future_rel nodes closed refs claimed s f st"
  shows "\<exists>b s' st'. fut_exec E (observing_call cu cv) f op s = Inr (b, s') \<and> afut_step cu st op b st' \<and>
    future_rel nodes closed refs claimed s' f st'"
proof -
  obtain res p u where st: "st = (res, p, u)" by (cases st)
  show ?thesis
  proof (cases res)
    case None
    note rel' = rel [unfolded st None]
    from rel' have pend: "\<exists>v. futures s f = Some v \<and> fu_state v = UFSRV_FUTURE_PENDING"
      by (auto simp: future_rel_def pending_future_def)
    show ?thesis
    proof (cases op)
      case (Op_then k x)
      then show ?thesis using sim_then_pending [OF T rel'] st None by simp
    next
      case (Op_complete r)
      then show ?thesis using sim_complete_pending [OF T rel', of cu cv r] complete_first st None by metis
    next
      case Op_is_ready
      have "fut_exec E (observing_call cu cv) f op s = Inr (False, s)"
        using pend Op_is_ready by (auto simp: fut_exec_def UfsrvFutureIsReady_def)
      then show ?thesis using rel is_ready [of cu None p u] Op_is_ready st None by auto
    qed
  next
    case (Some r)
    note rel' = rel [unfolded st Some]
    from rel' obtain v where v: "futures s f = Some v" "fu_is_completed v" "fu_state v = UFSRV_FUTURE_READY" "fu_result v = r"
      and pu: "p = []" "user s = u"
      by (auto simp: future_rel_def)
    show ?thesis
    proof (cases op)
      case (Op_then k x)
      let ?s = "s\<lparr>user := cu k (Some r) x u\<rparr>"
      have "fut_exec E (observing_call cu cv) f op s = Inr (True, ?s)"
        using then_on_ready [OF v(1,3)] v pu Op_then by (simp add: fut_exec_def)
      moreover have "future_rel nodes closed refs claimed ?s f (Some r, p, cu k (Some r) x u)"
        using v pu by (simp add: future_rel_def)
      ultimately show ?thesis unfolding st Some Op_then by (intro exI conjI) (assumption, rule then_ready, assumption)
    next
      case (Op_complete r')
      have "fut_exec E (observing_call cu cv) f op s = Inr (False, s)"
        using complete_again [OF v(1,2)] Op_complete by (simp add: fut_exec_def)
      then show ?thesis using rel unfolding st Some Op_complete by (intro exI conjI) (assumption, rule complete_late, assumption)
    next
      case Op_is_ready
      have "fut_exec E (observing_call cu cv) f op s = Inr (True, s)"
        using v Op_is_ready by (auto simp: fut_exec_def UfsrvFutureIsReady_def)
      then show ?thesis using rel is_ready [of cu "Some r" p u] Op_is_ready st Some by auto
    qed
  qed
qed

lemma future_simulation_run:
  assumes T: "treiber_laws (env_ts E) nodes closed refs claimed"
  shows "future_rel nodes closed refs claimed s f st \<Longrightarrow>
    \<exists>bs s' st'. fut_run E (observing_call cu cv) f ops s = Inr (bs, s') \<and> afut_run cu st ops bs st' \<and>
      future_rel nodes closed refs claimed s' f st'"
proof (induction ops arbitrary: s st)
  case Nil
  then show ?case by (intro exI [of _ "[]"] exI [of _ s] exI [of _ st]) (simp add: afut_run_Nil)
next
  case (Cons op ops)
  from future_simulation [OF T Cons.prems, of cu cv op] obtain b s1 st1 where
    1: "fut_exec E (observing_call cu cv) f op s = Inr (b, s1)" "afut_step cu st op b st1" "future_rel nodes closed refs claimed s1 f st1"
    by blast
  from Cons.IH [OF 1(3)] obtain bs s2 st2 where
    2: "fut_run E (observing_call cu cv) f ops s1 = Inr (bs, s2)" "afut_run cu st1 ops bs st2" "future_rel nodes closed refs claimed s2 f st2"
    by blast
  have "fut_run E (observing_call cu cv) f (op # ops) s = Inr (b # bs, s2)" using 1(1) 2(1) by simp
  with afut_run_Cons [OF 1(2) 2(2)] 2(3) show ?case by blast
qed

section \<open>Exactly once\<close>

text \<open>An application that records every delivery.\<close>

definition record_delivery ::
  "'c contfn \<Rightarrow> 'c UfsrvFutureResult option \<Rightarrow> ptr \<Rightarrow> ('c contfn \<times> ptr \<times> 'c UfsrvFutureResult option) list \<Rightarrow>
   ('c contfn \<times> ptr \<times> 'c UfsrvFutureResult option) list" where
  "record_delivery k r x l = l @ [(k, x, r)]"

text \<open>The registrations of a sequence of operations that were accepted, and its first result.\<close>

fun accepted :: "'c fut_op list \<Rightarrow> bool list \<Rightarrow> ('c contfn \<times> ptr) list" where
  "accepted (Op_then k x # ops) (True # bs) = (k, x) # accepted ops bs"
| "accepted (op # ops) (b # bs) = accepted ops bs"
| "accepted ops bs = []"

fun first_result :: "'c fut_op list \<Rightarrow> 'c UfsrvFutureResult option" where
  "first_result (Op_complete r # ops) = Some r"
| "first_result (op # ops) = first_result ops"
| "first_result [] = None"

text \<open>How often an entry was delivered.\<close>

definition times :: "('c contfn \<times> ptr \<times> 'c UfsrvFutureResult option) list \<Rightarrow> 'c contfn \<times> ptr \<Rightarrow> nat" where
  "times l e = count_list (map (\<lambda>(k, x, r). (k, x)) l) e"

lemma deliver_record: "deliver record_delivery r p l = l @ map (\<lambda>(k, x). (k, x, Some r)) p"
  unfolding deliver_def by (induction p arbitrary: l) (auto simp: record_delivery_def)

lemma times_simps [simp]:
  "times [] e = 0" "times (l @ l') e = times l e + times l' e" "times [(k, x, r)] e = (if e = (k, x) then 1 else 0)"
  "times (map (\<lambda>(k, x). (k, x, r)) p) e = count_list p e"
proof -
  show "times (map (\<lambda>(k, x). (k, x, r)) p) e = count_list p e" by (induction p) (auto simp: times_def)
qed (simp_all add: times_def)

lemma ready_run:
  "afut_run record_delivery (Some r, p, l) ops bs (res, p', l') \<Longrightarrow>
   res = Some r \<and> p' = p \<and> (\<forall>e. times l' e = times l e + count_list (accepted ops bs) e) \<and>
   (\<forall>(k, x, r')\<in>set l'. (k, x, r') \<in> set l \<or> r' = Some r)"
proof (induction ops arbitrary: l bs)
  case Nil
  then show ?case by (auto elim: afut_run_NilE)
next
  case (Cons op ops)
  from Cons.prems obtain b bs1 st1 where bs: "bs = b # bs1" and step: "afut_step record_delivery (Some r, p, l) op b st1"
    and run: "afut_run record_delivery st1 ops bs1 (res, p', l')" by (auto elim: afut_run_ConsE)
  from step show ?case
  proof cases
    case (then_ready k x)
    from Cons.IH [OF run [unfolded then_ready(3)]] show ?thesis
      using then_ready(1,2) bs by (auto simp: record_delivery_def)
  next
    case complete_late
    from Cons.IH [OF run [unfolded complete_late(3)]] show ?thesis using complete_late(1,2) bs by auto
  next
    case is_ready
    from Cons.IH [OF run [unfolded is_ready(3)]] show ?thesis using is_ready(1) bs by auto
  qed
qed

lemma pending_run:
  "afut_run record_delivery (None, p, []) ops bs (res, p', l') \<Longrightarrow>
   res = first_result ops \<and>
   (if res = None then l' = [] else (\<forall>e. times l' e = count_list p e + count_list (accepted ops bs) e) \<and> (\<forall>(k, x, r')\<in>set l'. r' = res))"
proof (induction ops arbitrary: p bs)
  case Nil
  then show ?case by (auto elim: afut_run_NilE)
next
  case (Cons op ops)
  from Cons.prems obtain b bs1 st1 where bs: "bs = b # bs1" and step: "afut_step record_delivery (None, p, []) op b st1"
    and run: "afut_run record_delivery st1 ops bs1 (res, p', l')" by (auto elim: afut_run_ConsE)
  from step show ?case
  proof cases
    case (then_pending k x)
    from Cons.IH [OF run [unfolded then_pending(3)]] show ?thesis using then_pending(1,2) bs by auto
  next
    case then_refused
    from Cons.IH [OF run [unfolded then_refused(3)]] show ?thesis using then_refused(1,2) bs by auto
  next
    case (complete_first r)
    have "afut_run record_delivery (Some r, [], map (\<lambda>(k, x). (k, x, Some r)) p) ops bs1 (res, p', l')"
      using run unfolding complete_first(3) deliver_record by simp
    from ready_run [OF this] show ?thesis using complete_first(1,2) bs by fastforce
  next
    case is_ready
    from Cons.IH [OF run [unfolded is_ready(3)]] show ?thesis using is_ready(1) bs by auto
  qed
qed

section \<open>Properties\<close>

text \<open>
C1: every sequence of registrations, completions and queries on a future runs without a fault,
returns the answers of the abstract machine, a result set at most once with continuations
waiting for it, and ends in a state the machine describes.
\<close>

theorem future_refines_machine:
  assumes "treiber_laws (env_ts E) nodes closed refs claimed" and "future_rel nodes closed refs claimed s f st"
  shows "\<exists>bs s' st'. fut_run E (observing_call cu cv) f ops s = Inr (bs, s') \<and> afut_run cu st ops bs st' \<and>
    future_rel nodes closed refs claimed s' f st'"
  by (rule future_simulation_run [OF assms])

text \<open>A new future is the machine's initial state.\<close>

lemma created_rel:
  assumes "treiber_laws (env_ts E) nodes closed refs claimed"
  shows "future_rel nodes closed refs claimed (created E s) (next_addr s) (None, [], user s)"
  by (rule future_rel_pendingI [of _ _ _ _ _ _ "[]" "[]", unfolded list.map, OF _ created_pending [OF assms]]) simp_all

definition demo_ops :: "string fut_op list" where
  "demo_ops = [Op_then (K_user ''a'') NULL, Op_complete (error_result 7), Op_then (K_user ''b'') NULL, Op_complete (error_result 8)]"

definition demo_pending ::
  "((string contfn \<times> ptr \<times> string UfsrvFutureResult option) list, string, addr list, addr list \<times> bool, int \<times> bool) future_sys" where
  "demo_pending = created base_env (future_init [] (\<lambda>_. True))"

lemma demo_pending_rel: "future_rel fst snd fst snd demo_pending 16 (None, [], [])"
  using created_rel [of base_env fst snd fst snd "future_init [] (\<lambda>_. True)"] list_stack_laws
  by (simp add: demo_pending_def future_init_defs)

theorem future_refines_machine_witness:
  "\<exists>bs s' st'. fut_run base_env (observing_call record_delivery (\<lambda>_ _ u. u)) 16 demo_ops demo_pending = Inr (bs, s') \<and>
     afut_run record_delivery (None, [], []) demo_ops bs st' \<and> future_rel fst snd fst snd s' 16 st'"
  using future_refines_machine [of base_env fst snd fst snd demo_pending 16] demo_pending_rel list_stack_laws by simp

text \<open>
Whatever the order of registrations and completions, every continuation whose registration
was accepted is run exactly once, with the result of the first completion; without a completion
none is run.
\<close>

lemma future_delivers_exactly_once:
  assumes "treiber_laws (env_ts E) nodes closed refs claimed" and "future_rel nodes closed refs claimed s f (None, [], [])"
  shows "\<exists>bs s'. fut_run E (observing_call record_delivery cv) f ops s = Inr (bs, s') \<and>
    (case first_result ops of
       None \<Rightarrow> user s' = []
     | Some r \<Rightarrow> (\<forall>e. times (user s') e = count_list (accepted ops bs) e) \<and> (\<forall>(k, x, r')\<in>set (user s'). r' = Some r))"
proof -
  from future_simulation_run [OF assms, of record_delivery cv ops] obtain bs s' res p' l' where
    "fut_run E (observing_call record_delivery cv) f ops s = Inr (bs, s')"
    "afut_run record_delivery (None, [], []) ops bs (res, p', l')" "future_rel nodes closed refs claimed s' f (res, p', l')"
    by auto
  moreover from this(3) have "user s' = l'" by (simp add: future_rel_def)
  moreover note pending_run [OF calculation(2)]
  ultimately show ?thesis by (intro exI [of _ bs] exI [of _ s']) (auto split: option.split)
qed

end
