(* ===== verification/Future_Conc.thy ===== *)
theory Future_Conc
  imports Future_Refinement Simulation
begin

text \<open>
  A future under concurrency: any number of threads that register a continuation and any number
  of threads that complete the future, interleaved at their atomic actions.  The functions
  \<open>sFutureThen\<close> and \<open>sFutureComplete\<close> are cut into segments, one atomic operation of the code
  each, and an interleaving is a list of actions.  The abstract machine that simulates them keeps
  for every node its owner, its reference count and whether it was claimed; on it the invariants
  are proved.
\<close>

section \<open>Segments of the code\<close>

definition then_check :: "addr \<Rightarrow> ('u, 'c, 'q, 't, 'n, 'z, bool) fprog" where
  "then_check f = bindm (future_at f) (\<lambda>v. ret (fu_state v = UFSRV_FUTURE_READY))"

definition then_alloc ::
  "('u, 'c, 'q, 't, 'n, 'z) fenv \<Rightarrow> 'c contfn \<Rightarrow> ptr \<Rightarrow> ('u, 'c, 'q, 't, 'n, 'z, ptr) fprog" where
  "then_alloc E k x =
     bindm malloc (\<lambda>node_ptr.
     case node_ptr of
       None \<Rightarrow> ret NULL
     | Some node \<Rightarrow>
         bindm (new_obj conts conts_update node \<lparr>ct_base = tn_init (env_ts E), ct_fn = k, ct_user = x\<rparr>) (\<lambda>_.
         ret (Some node)))"

definition complete_exchange :: "addr \<Rightarrow> ('u, 'c, 'q, 't, 'n, 'z, bool) fprog" where
  "complete_exchange f =
     bindm (future_at f) (\<lambda>v.
     bindm (upd_future f (\<lambda>v. v\<lparr>fu_is_completed := True\<rparr>)) (\<lambda>_.
     ret (\<not> fu_is_completed v)))"

definition complete_store :: "addr \<Rightarrow> 'c UfsrvFutureResult \<Rightarrow> ('u, 'c, 'q, 't, 'n, 'z, unit) fprog" where
  "complete_store f r = upd_future f (\<lambda>v. v\<lparr>fu_result := r\<rparr>)"

definition complete_publish :: "addr \<Rightarrow> ('u, 'c, 'q, 't, 'n, 'z, unit) fprog" where
  "complete_publish f = upd_future f (\<lambda>v. v\<lparr>fu_state := UFSRV_FUTURE_READY\<rparr>)"

definition complete_handle ::
  "('u, 'c, 'q, 't, 'n, 'z) fenv \<Rightarrow> ('u, 'c, 'q, 't, 'n, 'z) fcall \<Rightarrow> addr \<Rightarrow> ('u, 'c, 'q, 't, 'n, 'z, bool) fprog" where
  "complete_handle E call f =
     bindm (future_at f) (\<lambda>v.
     bindm (upd_future f (\<lambda>v. v\<lparr>fu_cancel_handle := NULL\<rparr>)) (\<lambda>_.
     if fu_cancel_handle v \<noteq> NULL
     then UfsrvCancellationTokenUnregister (vcall call) (env_fuel E) (fu_cancel_handle v)
     else ret False))"

definition steal_continuations ::
  "('u, 'c, 'q, 't, 'n, 'z) fenv \<Rightarrow> addr \<Rightarrow> ('u, 'c, 'q, 't, 'n, 'z, addr list) fprog" where
  "steal_continuations E f = bindm (future_at f) (\<lambda>v. stack_steal_all_and_close E (fu_continuations v))"

text \<open>The functions are the segments, one after the other.\<close>

lemma sFutureThen_segments:
  "sFutureThen E call (Some f) (Some k) x =
     bindm (then_check f) (\<lambda>ready.
     if ready then bindm (call (Call_cont k f x)) (\<lambda>_. ret True)
     else
       bindm (then_alloc E k x) (\<lambda>node_ptr.
       case node_ptr of
         None \<Rightarrow> ret False
       | Some node \<Rightarrow>
           bindm (sPushContinuation E f node) (\<lambda>pushed.
           if \<not> pushed then
             bindm (call (Call_cont k f x)) (\<lambda>_. bindm (sNodeDiscard E node) (\<lambda>_. ret True))
           else bindm (sNodeRelease E node) (\<lambda>_. ret True))))"
  by (rule ext) (simp add: sFutureThen_def then_check_def then_alloc_def bindm_def split: sum.split prod.split option.split)

lemma sFutureComplete_segments:
  "sFutureComplete E call f r =
     bindm (complete_exchange f) (\<lambda>won.
     if \<not> won then ret False
     else
       bindm (complete_store f r) (\<lambda>_.
       bindm (complete_publish f) (\<lambda>_.
       bindm (complete_handle E call f) (\<lambda>_.
       bindm (sDrainWaiters E f) (\<lambda>_.
       bindm (steal_continuations E f) (\<lambda>nodes.
       bindm (drain_continuations_loop E call f nodes) (\<lambda>_.
       ret True)))))))"
  by (rule ext) (auto simp: sFutureComplete_def complete_exchange_def complete_store_def complete_publish_def complete_handle_def
      steal_continuations_def sDrainContinuations_def bindm_assoc cong: if_cong)

section \<open>Interleaving the code\<close>

text \<open>
  Where a thread is in \<open>sFutureThen\<close> (about to run its continuation, to allocate, to push, to run
  it because the stack was closed, to discard or to release its node, returned) or in
  \<open>sFutureComplete\<close> (about to store the result, to publish it, to take the cancellation handle,
  to drain the waiters, to steal the continuations, to run and to release the next one, returned).
\<close>

datatype 'c fpc =
    F_idle
  | T_run "'c contfn" | T_alloc "'c contfn" | T_push "'c contfn" addr | T_closed "'c contfn" addr
  | T_discard addr | T_release addr | T_done bool
  | C_store "'c UfsrvFutureResult" | C_publish | C_handle | C_waiters | C_steal
  | C_drain "addr list" | C_free addr "addr list" | C_done bool

type_synonym ('u, 'c, 'q, 't, 'n, 'z) fut_conf = "(('u, 'c, 'q, 't, 'n, 'z) future_sys_scheme, 'c fpc) conf"

datatype 'c fut_act = A_then nat "'c contfn" | A_complete nat "'c UfsrvFutureResult" | A_step nat

text \<open>One atomic action of thread \<open>i\<close>, which registers with its own context pointer, and where it is then.\<close>

fun fpc_step ::
  "('u, 'c, 'q, 't, 'n, 'z) fenv \<Rightarrow> ('u, 'c, 'q, 't, 'n, 'z) fcall \<Rightarrow> addr \<Rightarrow> nat \<Rightarrow> 'c fpc \<Rightarrow>
   ('u, 'c, 'q, 't, 'n, 'z, 'c fpc) fprog" where
  "fpc_step E call f i (T_run k) = bindm (call (Call_cont k f (Some i))) (\<lambda>_. ret (T_done True))"
| "fpc_step E call f i (T_alloc k) =
     bindm (then_alloc E k (Some i)) (\<lambda>p. ret (case p of None \<Rightarrow> T_done False | Some n \<Rightarrow> T_push k n))"
| "fpc_step E call f i (T_push k n) =
     bindm (sPushContinuation E f n) (\<lambda>pushed. ret (if pushed then T_release n else T_closed k n))"
| "fpc_step E call f i (T_closed k n) = bindm (call (Call_cont k f (Some i))) (\<lambda>_. ret (T_discard n))"
| "fpc_step E call f i (T_discard n) = bindm (sNodeDiscard E n) (\<lambda>_. ret (T_done True))"
| "fpc_step E call f i (T_release n) = bindm (sNodeRelease E n) (\<lambda>_. ret (T_done True))"
| "fpc_step E call f i (C_store r) = bindm (complete_store f r) (\<lambda>_. ret C_publish)"
| "fpc_step E call f i C_publish = bindm (complete_publish f) (\<lambda>_. ret C_handle)"
| "fpc_step E call f i C_handle = bindm (complete_handle E call f) (\<lambda>_. ret C_waiters)"
| "fpc_step E call f i C_waiters = bindm (sDrainWaiters E f) (\<lambda>_. ret C_steal)"
| "fpc_step E call f i C_steal = bindm (steal_continuations E f) (\<lambda>ns. ret (C_drain ns))"
| "fpc_step E call f i (C_drain []) = ret (C_done True)"
| "fpc_step E call f i (C_drain (n # ns)) = bindm (sRunContinuation E call f n) (\<lambda>_. ret (C_free n ns))"
| "fpc_step E call f i (C_free n ns) = bindm (sNodeRelease E n) (\<lambda>_. ret (C_drain ns))"
| "fpc_step E call f i pc = ret pc"

fun fut_perform ::
  "('u, 'c, 'q, 't, 'n, 'z) fenv \<Rightarrow> ('u, 'c, 'q, 't, 'n, 'z) fcall \<Rightarrow> addr \<Rightarrow> 'c fut_act \<Rightarrow>
   ('u, 'c, 'q, 't, 'n, 'z) fut_conf \<Rightarrow> fault + ('u, 'c, 'q, 't, 'n, 'z) fut_conf" where
  "fut_perform E call f (A_then i k) C =
     (if fc_thr C i = F_idle
      then advance i (bindm (then_check f) (\<lambda>ready. ret (if ready then T_run k else T_alloc k))) C
      else Inr C)"
| "fut_perform E call f (A_complete i r) C =
     (if fc_thr C i = F_idle
      then advance i (bindm (complete_exchange f) (\<lambda>won. ret (if won then C_store r else C_done False))) C
      else Inr C)"
| "fut_perform E call f (A_step i) C = advance i (fpc_step E call f i (fc_thr C i)) C"


section \<open>The abstract machine\<close>

text \<open>
  The nodes that are pushed and not yet run, most recent first, and the one that was run and not
  yet released; for every allocated node its owner, its function, its reference count and whether
  it was claimed; who won the completion.  A thread's position hides its private list.
\<close>

record 'c afut =
  af_thr :: "nat \<Rightarrow> 'c fpc"
  af_node :: "addr \<rightharpoonup> nat \<times> 'c contfn \<times> int \<times> bool"
  af_todo :: "addr list"
  af_doing :: "addr list"
  af_closed :: bool
  af_win :: "nat option"
  af_res :: "'c UfsrvFutureResult"
  af_ready :: bool
  af_log :: "('c contfn \<times> ptr \<times> 'c UfsrvFutureResult option) list"

fun hide :: "'c fpc \<Rightarrow> 'c fpc" where
  "hide (C_drain ns) = C_drain []"
| "hide (C_free n ns) = C_free 0 []"
| "hide pc = pc"

definition drop_ref :: "addr \<Rightarrow> (addr \<rightharpoonup> nat \<times> 'c contfn \<times> int \<times> bool) \<Rightarrow> (addr \<rightharpoonup> nat \<times> 'c contfn \<times> int \<times> bool)" where
  "drop_ref n N =
     (case N n of
        None \<Rightarrow> N
      | Some (i, k, rc, b) \<Rightarrow> if rc = 1 then N(n := None) else N(n \<mapsto> (i, k, rc - 1, b)))"

abbreviation goto :: "nat \<Rightarrow> 'c fpc \<Rightarrow> 'c afut \<Rightarrow> 'c afut" where
  "goto i pc A \<equiv> A\<lparr>af_thr := (af_thr A)(i := pc)\<rparr>"

inductive f_step :: "'c afut \<Rightarrow> 'c afut \<Rightarrow> bool" where
  f_then: "af_thr A i = F_idle \<Longrightarrow> f_step A (goto i (if af_ready A then T_run k else T_alloc k) A)"
| f_run: "af_thr A i = T_run k \<Longrightarrow> f_step A (goto i (T_done True) (A\<lparr>af_log := af_log A @ [(k, Some i, Some (af_res A))]\<rparr>))"
| f_oom: "af_thr A i = T_alloc k \<Longrightarrow> f_step A (goto i (T_done False) A)"
| f_alloc: "af_thr A i = T_alloc k \<Longrightarrow> af_node A n = None \<Longrightarrow>
    f_step A (goto i (T_push k n) (A\<lparr>af_node := (af_node A)(n \<mapsto> (i, k, 2, False))\<rparr>))"
| f_push: "af_thr A i = T_push k n \<Longrightarrow> \<not> af_closed A \<Longrightarrow> f_step A (goto i (T_release n) (A\<lparr>af_todo := n # af_todo A\<rparr>))"
| f_refused: "af_thr A i = T_push k n \<Longrightarrow> af_closed A \<Longrightarrow> f_step A (goto i (T_closed k n) A)"
| f_run_closed: "af_thr A i = T_closed k n \<Longrightarrow>
    f_step A (goto i (T_discard n) (A\<lparr>af_log := af_log A @ [(k, Some i, Some (af_res A))]\<rparr>))"
| f_discard: "af_thr A i = T_discard n \<Longrightarrow> f_step A (goto i (T_done True) (A\<lparr>af_node := (af_node A)(n := None)\<rparr>))"
| f_release: "af_thr A i = T_release n \<Longrightarrow> f_step A (goto i (T_done True) (A\<lparr>af_node := drop_ref n (af_node A)\<rparr>))"
| f_win: "af_thr A i = F_idle \<Longrightarrow> af_win A = None \<Longrightarrow> f_step A (goto i (C_store r) (A\<lparr>af_win := Some i\<rparr>))"
| f_lose: "af_thr A i = F_idle \<Longrightarrow> af_win A \<noteq> None \<Longrightarrow> f_step A (goto i (C_done False) A)"
| f_store: "af_thr A i = C_store r \<Longrightarrow> f_step A (goto i C_publish (A\<lparr>af_res := r\<rparr>))"
| f_publish: "af_thr A i = C_publish \<Longrightarrow> f_step A (goto i C_handle (A\<lparr>af_ready := True\<rparr>))"
| f_handle: "af_thr A i = C_handle \<Longrightarrow> f_step A (goto i C_waiters A)"
| f_waiters: "af_thr A i = C_waiters \<Longrightarrow> f_step A (goto i C_steal A)"
| f_steal: "af_thr A i = C_steal \<Longrightarrow> f_step A (goto i (C_drain []) (A\<lparr>af_closed := True\<rparr>))"
| f_end: "af_thr A i = C_drain [] \<Longrightarrow> af_todo A = [] \<Longrightarrow> af_doing A = [] \<Longrightarrow> f_step A (goto i (C_done True) A)"
| f_deliver: "af_thr A i = C_drain [] \<Longrightarrow> af_todo A = n # ns \<Longrightarrow> af_doing A = [] \<Longrightarrow> af_node A n = Some (j, k, rc, False) \<Longrightarrow>
    f_step A (goto i (C_free 0 []) (A\<lparr>af_node := (af_node A)(n \<mapsto> (j, k, rc, True)), af_todo := ns, af_doing := [n],
      af_log := af_log A @ [(k, Some j, Some (af_res A))]\<rparr>))"
| f_free: "af_thr A i = C_free 0 [] \<Longrightarrow> af_doing A = [n] \<Longrightarrow>
    f_step A (goto i (C_drain []) (A\<lparr>af_node := drop_ref n (af_node A), af_doing := []\<rparr>))"

section \<open>Invariants\<close>

fun won :: "'c fpc \<Rightarrow> bool" where
  "won (C_store r) = True" | "won C_publish = True" | "won C_handle = True" | "won C_waiters = True" | "won C_steal = True"
| "won (C_drain ns) = True" | "won (C_free n ns) = True" | "won (C_done b) = b" | "won pc = False"

fun published :: "'c fpc \<Rightarrow> bool" where
  "published C_handle = True" | "published C_waiters = True" | "published C_steal = True"
| "published (C_drain ns) = True" | "published (C_free n ns) = True" | "published (C_done b) = b" | "published pc = False"

fun stolen :: "'c fpc \<Rightarrow> bool" where
  "stolen (C_drain ns) = True" | "stolen (C_free n ns) = True" | "stolen (C_done b) = b" | "stolen pc = False"

text \<open>One winner; what it has published and closed; deliveries only after the result was stored.\<close>

definition win_inv :: "'c afut \<Rightarrow> bool" where
  "win_inv A \<longleftrightarrow>
     (\<forall>i. won (af_thr A i) \<longleftrightarrow> af_win A = Some i) \<and>
     (af_ready A \<longleftrightarrow> (\<exists>i. af_win A = Some i \<and> published (af_thr A i))) \<and>
     (af_closed A \<longleftrightarrow> (\<exists>i. af_win A = Some i \<and> stolen (af_thr A i))) \<and>
     (\<forall>i k. af_thr A i = T_run k \<longrightarrow> af_ready A) \<and> (\<forall>i k n. af_thr A i = T_closed k n \<longrightarrow> af_closed A) \<and>
     (af_log A \<noteq> [] \<longrightarrow> af_ready A) \<and> (\<forall>(k, x, r)\<in>set (af_log A). r = Some (af_res A))"

lemma published_won: "published pc \<Longrightarrow> won pc" by (cases pc) auto
lemma stolen_published: "stolen pc \<Longrightarrow> published pc" by (cases pc) auto

lemma win_inv_fields [simp]:
  "win_inv (A\<lparr>af_node := N\<rparr>) = win_inv A" "win_inv (A\<lparr>af_todo := T\<rparr>) = win_inv A" "win_inv (A\<lparr>af_doing := T\<rparr>) = win_inv A"
  by (simp_all add: win_inv_def)

text \<open>A step of a thread that has not won, and one of the winner.\<close>

lemma win_inv_other:
  assumes "win_inv A" and "\<not> won (af_thr A i)" and "\<not> won pc" and "\<And>k. pc = T_run k \<Longrightarrow> af_ready A"
    and "\<And>k n. pc = T_closed k n \<Longrightarrow> af_closed A"
  shows "win_inv (goto i pc A)"
proof -
  have "af_win A \<noteq> Some i" using assms(1,2) by (auto simp: win_inv_def)
  then show ?thesis using assms by (auto simp: win_inv_def)
qed

lemma win_inv_log: "win_inv A \<Longrightarrow> af_ready A \<Longrightarrow> win_inv (A\<lparr>af_log := af_log A @ [(k, x, Some (af_res A))]\<rparr>)"
  by (auto simp: win_inv_def)

lemma win_inv_winner:
  assumes "win_inv A" and "af_win A = Some i" and "won pc" and B: "af_thr B = (af_thr A)(i := pc)" "af_win B = af_win A"
    "af_log B = af_log A" "af_ready B = published pc" "af_closed B = stolen pc"
    and "\<not> stolen pc \<Longrightarrow> \<not> af_closed A" and "\<not> published pc \<Longrightarrow> \<not> af_ready A" and "af_res B = af_res A \<or> \<not> af_ready A"
  shows "win_inv B"
proof -
  have "\<not> won (af_thr A j)" if "j \<noteq> i" for j using assms(1,2) that by (auto simp: win_inv_def)
  moreover have "pc \<noteq> T_run k" "pc \<noteq> T_closed k n" for k n using assms(3) by auto
  moreover have "af_thr A j \<noteq> T_run k" "af_thr A j \<noteq> T_closed k n" if "\<not> af_ready A" "\<not> af_closed A" for j k n
    using assms(1) that by (auto simp: win_inv_def)
  ultimately show ?thesis using assms stolen_published unfolding win_inv_def B by auto
qed

lemma winnerD:
  assumes "win_inv A" and "won (af_thr A i)"
  shows "af_win A = Some i" "af_ready A = published (af_thr A i)" "af_closed A = stolen (af_thr A i)"
  using assms by (auto simp: win_inv_def)

lemma win_inv_step: "f_step A B \<Longrightarrow> win_inv A \<Longrightarrow> win_inv B"
proof (induction rule: f_step.induct)
  case (f_run A i k)
  then have "af_ready A" by (auto simp: win_inv_def)
  with win_inv_log [OF f_run(2) this, of k "Some i"] f_run(1) show ?case by (intro win_inv_other) auto
next
  case (f_run_closed A i k n)
  then have "af_ready A" by (auto simp: win_inv_def dest: stolen_published)
  with win_inv_log [OF f_run_closed(2) this, of k "Some i"] f_run_closed(1) show ?case by (intro win_inv_other) auto
next
  case (f_win A i r)
  then have "\<not> af_ready A" "\<not> af_closed A" "\<not> won (af_thr A j)" for j by (auto simp: win_inv_def)
  with f_win show ?case by (auto simp: win_inv_def)
next
  case (f_store A i r)
  then show ?case using winnerD [of A i] by - (rule win_inv_winner [of A i C_publish], simp_all)
next
  case (f_publish A i)
  then show ?case using winnerD [of A i] by - (rule win_inv_winner [of A i C_handle], simp_all)
next
  case (f_handle A i)
  then show ?case using winnerD [of A i] by - (rule win_inv_winner [of A i C_waiters], simp_all)
next
  case (f_waiters A i)
  then show ?case using winnerD [of A i] by - (rule win_inv_winner [of A i C_steal], simp_all)
next
  case (f_steal A i)
  then show ?case using winnerD [of A i] by - (rule win_inv_winner [of A i "C_drain []"], simp_all)
next
  case (f_end A i)
  then show ?case using winnerD [of A i] by - (rule win_inv_winner [of A i "C_done True"], simp_all)
next
  case (f_deliver A i n ns j k rc)
  then have D: "af_win A = Some i" "af_ready A" "af_closed A" using winnerD [of A i] by simp_all
  with f_deliver have "win_inv (A\<lparr>af_log := af_log A @ [(k, Some j, Some (af_res A))]\<rparr>)" by (intro win_inv_log)
  then show ?case by (rule win_inv_winner [of _ i "C_free 0 []"]) (simp_all add: D)
next
  case (f_free A i n)
  then show ?case using winnerD [of A i] by - (rule win_inv_winner [of A i "C_drain []"], simp_all)
qed (rule win_inv_other; auto split: if_splits)+

section \<open>Nodes\<close>

text \<open>
  What a node's owner is doing determines its reference count: two references while it is
  private, one for the owner that has not released it, one while it is to be run or released.
\<close>

fun node_ok :: "'c fpc \<Rightarrow> addr set \<Rightarrow> addr set \<Rightarrow> addr \<Rightarrow> 'c contfn \<Rightarrow> int \<Rightarrow> bool \<Rightarrow> bool" where
  "node_ok (T_push k' m) Q R n k rc b \<longleftrightarrow> m = n \<and> k' = k \<and> rc = 2 \<and> \<not> b \<and> n \<notin> Q \<union> R"
| "node_ok (T_closed k' m) Q R n k rc b \<longleftrightarrow> m = n \<and> rc = 2 \<and> n \<notin> Q \<union> R"
| "node_ok (T_discard m) Q R n k rc b \<longleftrightarrow> m = n \<and> rc = 2 \<and> n \<notin> Q \<union> R"
| "node_ok (T_release m) Q R n k rc b \<longleftrightarrow> m = n \<and> rc = (if n \<in> Q \<union> R then 2 else 1) \<and> (n \<in> Q \<longrightarrow> \<not> b)"
| "node_ok (T_done d) Q R n k rc b \<longleftrightarrow> d \<and> n \<in> Q \<union> R \<and> rc = 1 \<and> (n \<in> Q \<longrightarrow> \<not> b)"
| "node_ok pc Q R n k rc b \<longleftrightarrow> False"

fun held :: "'c fpc \<Rightarrow> addr option" where
  "held (T_push k n) = Some n" | "held (T_closed k n) = Some n" | "held (T_discard n) = Some n" | "held (T_release n) = Some n"
| "held pc = None"

definition node_inv :: "'c afut \<Rightarrow> bool" where
  "node_inv A \<longleftrightarrow>
     (\<forall>n i k rc b. af_node A n = Some (i, k, rc, b) \<longrightarrow>
       node_ok (af_thr A i) (set (af_todo A)) (set (af_doing A)) n k rc b) \<and>
     (\<forall>i n. held (af_thr A i) = Some n \<longrightarrow> (\<exists>k rc b. af_node A n = Some (i, k, rc, b))) \<and>
     (\<forall>n m i k k' rc rc' b b'. af_node A n = Some (i, k, rc, b) \<longrightarrow> af_node A m = Some (i, k', rc', b') \<longrightarrow> n = m) \<and>
     (\<forall>n\<in>set (af_todo A @ af_doing A). af_node A n \<noteq> None) \<and> distinct (af_todo A @ af_doing A)"

lemma node_inv_fields [simp]:
  "node_inv (A\<lparr>af_log := l\<rparr>) = node_inv A" "node_inv (A\<lparr>af_win := w\<rparr>) = node_inv A" "node_inv (A\<lparr>af_res := r\<rparr>) = node_inv A"
  "node_inv (A\<lparr>af_ready := b\<rparr>) = node_inv A" "node_inv (A\<lparr>af_closed := b\<rparr>) = node_inv A"
  by (simp_all add: node_inv_def)

lemma node_owned:
  "node_inv A \<Longrightarrow> af_node A n = Some (i, k, rc, b) \<Longrightarrow> node_ok (af_thr A i) (set (af_todo A)) (set (af_doing A)) n k rc b"
  unfolding node_inv_def by blast

text \<open>A step between positions that own no node.\<close>

fun no_node :: "'c fpc \<Rightarrow> bool" where
  "no_node (T_push k n) = False" | "no_node (T_closed k n) = False" | "no_node (T_discard n) = False"
| "no_node (T_release n) = False" | "no_node (T_done b) = (\<not> b)" | "no_node pc = True"

lemma node_inv_other:
  assumes "node_inv A" and "no_node (af_thr A i)" and "held pc = None"
  shows "node_inv (goto i pc A)"
proof -
  have "af_node A n \<noteq> Some (i, k, rc, b)" for n k rc b
    using node_owned [OF assms(1), of n i k rc b] assms(2) by (cases "af_thr A i") auto
  with assms(1,3) show ?thesis unfolding node_inv_def by simp
qed


text \<open>A step that changes one node, of owner \<open>j\<close>, and where it is.\<close>

lemma node_ok_same: "m \<in> Q \<longleftrightarrow> m \<in> Q' \<Longrightarrow> m \<in> R \<longleftrightarrow> m \<in> R' \<Longrightarrow> node_ok pc Q R m = node_ok pc Q' R' m"
  by (cases pc) (auto simp: fun_eq_iff)

lemma node_inv_update:
  assumes inv: "node_inv A" and n: "af_node A n = Some (j, k, rc, b)"
    and other: "\<And>l. l \<noteq> j \<Longrightarrow> held (af_thr B l) = held (af_thr A l) \<and> node_ok (af_thr B l) = node_ok (af_thr A l)"
    and nodes: "\<And>m. m \<noteq> n \<Longrightarrow> af_node B m = af_node A m"
    and sets: "\<And>m. m \<noteq> n \<Longrightarrow> m \<in> set (af_todo B) \<longleftrightarrow> m \<in> set (af_todo A)" "\<And>m. m \<noteq> n \<Longrightarrow> m \<in> set (af_doing B) \<longleftrightarrow> m \<in> set (af_doing A)"
    and new: "af_node B n = None \<and> n \<notin> set (af_todo B @ af_doing B) \<and> held (af_thr B j) = None \<or>
      (\<exists>rc' b'. af_node B n = Some (j, k, rc', b') \<and> node_ok (af_thr B j) (set (af_todo B)) (set (af_doing B)) n k rc' b' \<and>
        held (af_thr B j) \<in> {None, Some n})"
    and dist: "distinct (af_todo B @ af_doing B)"
  shows "node_inv B"
proof -
  have uniq: "l \<noteq> j" if "m \<noteq> n" "af_node A m = Some (l, k', rc', b')" for m l k' rc' b'
    using inv n that unfolding node_inv_def by blast
  have ok: "node_ok (af_thr B l) (set (af_todo B)) (set (af_doing B)) m k' rc' b'"
    if "m \<noteq> n" "af_node A m = Some (l, k', rc', b')" for m l k' rc' b'
    using node_owned [OF inv that(2)] other [OF uniq [OF that]] node_ok_same [OF sets [OF that(1)], of "af_thr A l"] by simp
  have 1: "node_ok (af_thr B l) (set (af_todo B)) (set (af_doing B)) m k' rc' b'" if "af_node B m = Some (l, k', rc', b')" for m l k' rc' b'
    using ok new that nodes by (cases "m = n") auto
  have 2: "\<exists>k rc b. af_node B m = Some (l, k, rc, b)" if h: "held (af_thr B l) = Some m" for l m
  proof (cases "l = j")
    case True
    then show ?thesis using new h by auto
  next
    case False
    with other h have "held (af_thr A l) = Some m" by simp
    with inv obtain k' rc' b' where "af_node A m = Some (l, k', rc', b')" unfolding node_inv_def by blast
    with False n nodes show ?thesis by (cases "m = n") auto
  qed
  have orig: "\<exists>k rc b. af_node A m = Some (l, k, rc, b)" if "af_node B m = Some (l, k', rc', b')" for m l k' rc' b'
    using that new n nodes by (cases "m = n") auto
  have 3: "m = m'" if "af_node B m = Some (l, k', rc', b')" "af_node B m' = Some (l, k2, rc2, b2)" for m m' l k' rc' b' k2 rc2 b2
    using orig [OF that(1)] orig [OF that(2)] inv unfolding node_inv_def by blast
  have 4: "af_node B m \<noteq> None" if "m \<in> set (af_todo B @ af_doing B)" for m
  proof (cases "m = n")
    case False
    then have "m \<in> set (af_todo A @ af_doing A)" using that sets by auto
    with inv False nodes show ?thesis unfolding node_inv_def by simp
  qed (use new that in auto)
  show ?thesis unfolding node_inv_def using 1 2 3 4 dist by blast
qed

lemma node_of:
  assumes "node_inv A" and "held (af_thr A i) = Some n"
  shows "\<exists>k rc b. af_node A n = Some (i, k, rc, b) \<and> node_ok (af_thr A i) (set (af_todo A)) (set (af_doing A)) n k rc b"
  using assms node_owned [OF assms(1)] unfolding node_inv_def by blast

lemma todo_alloc: "node_inv A \<Longrightarrow> n \<in> set (af_todo A @ af_doing A) \<Longrightarrow> af_node A n \<noteq> None"
  unfolding node_inv_def by blast

lemma drop_ref_other [simp]: "m \<noteq> n \<Longrightarrow> drop_ref n N m = N m"
  by (auto simp: drop_ref_def split: option.split)

lemma drop_ref_at: "N n = Some (i, k, rc, b) \<Longrightarrow> drop_ref n N n = (if rc = 1 then None else Some (i, k, rc - 1, b))"
  by (simp add: drop_ref_def)

lemma node_inv_step: "f_step A B \<Longrightarrow> node_inv A \<Longrightarrow> node_inv B"
proof (induction rule: f_step.induct)
  case (f_alloc A i k n)
  have none: "af_node A m \<noteq> Some (i, k', rc, b)" for m k' rc b
    using node_owned [OF f_alloc(3), of m i k' rc b] f_alloc(1) by auto
  have "n \<notin> set (af_todo A)" "n \<notin> set (af_doing A)" using todo_alloc [OF f_alloc(3), of n] f_alloc(2) by auto
  moreover have "held (af_thr A l) \<noteq> Some n" for l using f_alloc(2,3) unfolding node_inv_def by fastforce
  ultimately show ?case using none f_alloc unfolding node_inv_def by auto
next
  case (f_push A i k n)
  from node_of [OF f_push(3), of i n] f_push(1) obtain k' rc b where n: "af_node A n = Some (i, k', rc, b)" "node_ok (T_push k n) (set (af_todo A)) (set (af_doing A)) n k' rc b"
    by (simp only: held.simps) blast
  show ?case by (rule node_inv_update [OF f_push(3) n(1)]) (use n f_push in \<open>auto simp: node_inv_def\<close>)
next
  case (f_refused A i k n)
  from node_of [OF f_refused(3), of i n] f_refused(1) obtain k' rc b where n: "af_node A n = Some (i, k', rc, b)" "node_ok (T_push k n) (set (af_todo A)) (set (af_doing A)) n k' rc b"
    by (simp only: held.simps) blast
  show ?case by (rule node_inv_update [OF f_refused(3) n(1)]) (use n f_refused in \<open>auto simp: node_inv_def\<close>)
next
  case (f_run_closed A i k n)
  from node_of [OF f_run_closed(2), of i n] f_run_closed(1) obtain k' rc b where n: "af_node A n = Some (i, k', rc, b)" "node_ok (T_closed k n) (set (af_todo A)) (set (af_doing A)) n k' rc b"
    by (simp only: held.simps) blast
  show ?case by (rule node_inv_update [OF f_run_closed(2) n(1)]) (use n f_run_closed in \<open>auto simp: node_inv_def\<close>)
next
  case (f_discard A i n)
  from node_of [OF f_discard(2), of i n] f_discard(1) obtain k' rc b where n: "af_node A n = Some (i, k', rc, b)" "node_ok (T_discard n) (set (af_todo A)) (set (af_doing A)) n k' rc b"
    by (simp only: held.simps) blast
  show ?case by (rule node_inv_update [OF f_discard(2) n(1)]) (use n f_discard in \<open>auto simp: node_inv_def\<close>)
next
  case (f_release A i n)
  from node_of [OF f_release(2), of i n] f_release(1) obtain k' rc b where n: "af_node A n = Some (i, k', rc, b)" "node_ok (T_release n) (set (af_todo A)) (set (af_doing A)) n k' rc b"
    by (simp only: held.simps) blast
  show ?case by (rule node_inv_update [OF f_release(2) n(1)]) (use n f_release in \<open>auto simp: node_inv_def drop_ref_at\<close>)
next
  case (f_deliver A i n ns j k rc)
  from node_owned [OF f_deliver(5,4)] have n: "node_ok (af_thr A j) (set (af_todo A)) (set (af_doing A)) n k rc False" .
  then have ji: "j \<noteq> i" using f_deliver(1) by auto
  have d: "n \<notin> set ns" "distinct ns" using f_deliver(2,5) by (auto simp: node_inv_def)
  show ?case by (rule node_inv_update [OF f_deliver(5,4)])
    (use n ji d f_deliver(1-3) in \<open>cases "af_thr A j"; auto simp: fun_eq_iff\<close>)+
next
  case (f_free A i n)
  then obtain j k rc b where nd: "af_node A n = Some (j, k, rc, b)" unfolding node_inv_def by fastforce
  from node_owned [OF f_free(3) nd] have n: "node_ok (af_thr A j) (set (af_todo A)) (set (af_doing A)) n k rc b" .
  then have ji: "j \<noteq> i" using f_free(1) by auto
  have d: "n \<notin> set (af_todo A)" "distinct (af_todo A)" using f_free(2,3) by (auto simp: node_inv_def)
  show ?case by (rule node_inv_update [OF f_free(3) nd])
    (use n ji d nd f_free(1,2) in \<open>cases "af_thr A j"; auto simp: fun_eq_iff drop_ref_at\<close>)+
qed (rule node_inv_other; auto split: if_splits)+


section \<open>Deliveries\<close>

text \<open>
  How often the continuation of thread \<open>i\<close> has run: never before its call decided to run it or
  while its node is still to be run, and once afterwards.
\<close>

definition deliveries :: "('c contfn \<times> ptr \<times> 'c UfsrvFutureResult option) list \<Rightarrow> nat \<Rightarrow> nat" where
  "deliveries l i = count_list (map (\<lambda>(k, x, r). x) l) (Some i)"

lemma deliveries_simps [simp]:
  "deliveries [] i = 0" "deliveries (l @ [(k, Some j, r)]) i = deliveries l i + (if j = i then 1 else 0)"
  by (simp_all add: deliveries_def)

definition waiting :: "'c afut \<Rightarrow> nat \<Rightarrow> bool" where
  "waiting A i \<longleftrightarrow> (\<exists>n\<in>set (af_todo A). map_option fst (af_node A n) = Some i)"

fun expected :: "'c fpc \<Rightarrow> bool \<Rightarrow> nat" where
  "expected (T_discard n) w = 1"
| "expected (T_release n) w = (if w then 0 else 1)"
| "expected (T_done b) w = (if b \<and> \<not> w then 1 else 0)"
| "expected pc w = 0"

definition log_inv :: "'c afut \<Rightarrow> bool" where
  "log_inv A \<longleftrightarrow> (\<forall>i. deliveries (af_log A) i = expected (af_thr A i) (waiting A i))"

lemma not_waiting: "node_inv A \<Longrightarrow> no_node (af_thr A i) \<Longrightarrow> \<not> waiting A i"
  using node_owned [of A] by (cases "af_thr A i") (fastforce simp: waiting_def)+

lemma node_unique:
  assumes "node_inv A" and "af_node A n = Some (i, k, rc, b)" and "map_option fst (af_node A m) = Some i"
  shows "m = n"
proof -
  from assms(3) obtain k' rc' b' where "af_node A m = Some (i, k', rc', b')" by auto
  with assms(1,2) show ?thesis unfolding node_inv_def by blast
qed

lemma only_node: "node_inv A \<Longrightarrow> af_node A n = Some (i, k, rc, b) \<Longrightarrow> n \<notin> set (af_todo A) \<Longrightarrow> \<not> waiting A i"
  using node_unique unfolding waiting_def by blast

lemma waiting_same:
  assumes "set (af_todo B) = set (af_todo A)"
    and "\<And>n. n \<in> set (af_todo A) \<Longrightarrow> map_option fst (af_node B n) = map_option fst (af_node A n)"
  shows "waiting B = waiting A"
  using assms by (auto simp: waiting_def fun_eq_iff)

lemma drop_ref_owner: "N n = Some (i, k, rc, b) \<Longrightarrow> rc \<noteq> 1 \<Longrightarrow> map_option fst (drop_ref n N m) = map_option fst (N m)"
  by (cases "m = n") (auto simp: drop_ref_at)

text \<open>A step of thread \<open>i\<close> that leaves the waiting nodes alone.\<close>

lemma log_inv_same:
  assumes "log_inv A" and "af_log B = af_log A" and "af_thr B = af_thr A" and "waiting (goto i pc B) = waiting A"
    and "expected pc (waiting A i) = expected (af_thr A i) (waiting A i)"
  shows "log_inv (goto i pc B)"
  using assms by (auto simp: log_inv_def)

lemma log_inv_ran:
  assumes "log_inv A" and "\<not> waiting A i" and "expected pc False = Suc (expected (af_thr A i) False)"
  shows "log_inv (goto i pc (A\<lparr>af_log := af_log A @ [(k, Some i, r)]\<rparr>))"
proof -
  have "waiting (goto i pc (A\<lparr>af_log := af_log A @ [(k, Some i, r)]\<rparr>)) = waiting A" by (rule waiting_same) simp_all
  with assms show ?thesis by (auto simp: log_inv_def)
qed

lemma log_inv_step: "f_step A B \<Longrightarrow> node_inv A \<Longrightarrow> log_inv A \<Longrightarrow> log_inv B"
proof (induction rule: f_step.induct)
  case (f_run A i k)
  then have "\<not> waiting A i" using not_waiting [of A i] by simp
  with f_run show ?case by (intro log_inv_ran) simp_all
next
  case (f_alloc A i k n)
  then have "n \<notin> set (af_todo A)" using todo_alloc [of A n] by auto
  with f_alloc show ?case by - (erule log_inv_same, auto intro!: waiting_same)
next
  case (f_push A i k n)
  from node_of [OF f_push(3), of i n] f_push(1) obtain k' rc b where n: "af_node A n = Some (i, k', rc, b)" by auto
  let ?B = "goto i (T_release n) (A\<lparr>af_todo := n # af_todo A\<rparr>)"
  have "waiting ?B i" "waiting ?B l = waiting A l" if "l \<noteq> i" for l using n that by (auto simp: waiting_def)
  then have "waiting ?B i" "\<And>l. l \<noteq> i \<Longrightarrow> waiting ?B l = waiting A l" using n by (auto simp: waiting_def)
  with f_push show ?case unfolding log_inv_def by auto
next
  case (f_run_closed A i k n)
  from node_of [OF f_run_closed(2), of i n] f_run_closed(1) obtain k' rc b where n: "af_node A n = Some (i, k', rc, b)" "n \<notin> set (af_todo A)" by auto
  with f_run_closed show ?case using only_node [OF f_run_closed(2) n] by (intro log_inv_ran) simp_all
next
  case (f_discard A i n)
  from node_of [OF f_discard(2), of i n] f_discard(1) obtain k' rc b where n: "af_node A n = Some (i, k', rc, b)" "n \<notin> set (af_todo A)" by auto
  with n f_discard only_node [OF f_discard(2) n] show ?case by - (erule log_inv_same, auto intro!: waiting_same)
next
  case (f_release A i n)
  from node_of [OF f_release(2), of i n] f_release(1) obtain k' rc b where
    n: "af_node A n = Some (i, k', rc, b)" "n \<in> set (af_todo A) \<Longrightarrow> rc \<noteq> 1" by auto
  then have "map_option fst (drop_ref n (af_node A) m) = map_option fst (af_node A m)" if "m \<in> set (af_todo A)" for m
    using that drop_ref_owner [of "af_node A" n] by (cases "m = n") auto
  with f_release show ?case by - (erule log_inv_same, auto intro!: waiting_same)
next
  case (f_deliver A i n ns j k rc)
  let ?B = "goto i (C_free 0 []) (A\<lparr>af_node := (af_node A)(n \<mapsto> (j, k, rc, True)), af_todo := ns, af_doing := [n],
      af_log := af_log A @ [(k, Some j, Some (af_res A))]\<rparr>)"
  have d: "n \<notin> set ns" using f_deliver(2,5) by (auto simp: node_inv_def)
  have "\<not> (\<exists>m\<in>set ns. map_option fst (af_node A m) = Some j)" using node_unique [OF f_deliver(5,4)] d by blast
  then have w: "\<not> waiting ?B j" "waiting A j" "l \<noteq> j \<Longrightarrow> waiting ?B l = waiting A l" for l
    using f_deliver(2,4) d by (auto simp: waiting_def)
  have "node_ok (af_thr A j) (set (af_todo A)) (set (af_doing A)) n k rc False" by (rule node_owned [OF f_deliver(5,4)])
  then have j: "j \<noteq> i" "expected (af_thr A j) False = Suc (expected (af_thr A j) True)" using f_deliver(1,2) by (cases "af_thr A j"; auto)+
  show ?case unfolding log_inv_def
  proof
    fix l
    show "deliveries (af_log ?B) l = expected (af_thr ?B l) (waiting ?B l)"
      using f_deliver(1,6) w j by (cases "l = j"; cases "l = i") (auto simp: log_inv_def)
  qed
next
  case (f_free A i n)
  then have "n \<notin> set (af_todo A)" by (auto simp: node_inv_def)
  then have "map_option fst (drop_ref n (af_node A) m) = map_option fst (af_node A m)" if "m \<in> set (af_todo A)" for m
    using that by (cases "m = n") auto
  with f_free show ?case by - (erule log_inv_same, auto intro!: waiting_same)
qed (erule log_inv_same; auto intro!: waiting_same split: if_splits)+

definition fut_inv :: "'c afut \<Rightarrow> bool" where
  "fut_inv A \<longleftrightarrow> win_inv A \<and> node_inv A \<and> log_inv A"

lemma fut_inv_step: "f_step A B \<Longrightarrow> fut_inv A \<Longrightarrow> fut_inv B"
  by (simp add: fut_inv_def win_inv_step node_inv_step log_inv_step)

end
