(* ===== verification/Future_Conc_Sim.thy ===== *)
theory Future_Conc_Sim
  imports Future_Conc
begin

text \<open>
  The code of the futures, interleaved, is simulated by the abstract machine of
  \<open>Future_Conc\<close>, whatever the Treiber stack of uflib is, as long as it keeps its laws.
\<close>

section \<open>The abstraction\<close>

fun todo_pc :: "'c fpc \<Rightarrow> addr list" where
  "todo_pc (C_drain ns) = ns" | "todo_pc (C_free n ns) = ns" | "todo_pc pc = []"

fun doing_pc :: "'c fpc \<Rightarrow> addr list" where
  "doing_pc (C_free n ns) = [n]" | "doing_pc pc = []"

definition node_view ::
  "('n \<Rightarrow> int) \<Rightarrow> ('n \<Rightarrow> bool) \<Rightarrow> (addr \<rightharpoonup> ('c, 'n) UfsrvContinuation) \<Rightarrow> addr \<Rightarrow> (nat \<times> 'c contfn \<times> int \<times> bool) option" where
  "node_view refs claimed M n =
     map_option (\<lambda>c. (case ct_user c of Some i \<Rightarrow> i | None \<Rightarrow> 0, ct_fn c, refs (ct_base c), claimed (ct_base c))) (M n)"

text \<open>
  The future's record, its two stacks and its nodes; \<open>pc\<close> is where the winner is, whose private
  list holds the nodes that were stolen.
\<close>

definition sys_at ::
  "('t \<Rightarrow> addr list) \<Rightarrow> ('t \<Rightarrow> bool) \<Rightarrow> ('n \<Rightarrow> int) \<Rightarrow> ('n \<Rightarrow> bool) \<Rightarrow> addr \<Rightarrow> 'c fpc \<Rightarrow>
   (('c contfn \<times> ptr \<times> 'c UfsrvFutureResult option) list, 'c, 'q, 't, 'n, 'z) future_sys_scheme \<Rightarrow> 'c afut \<Rightarrow>
   'c UfsrvFuture \<Rightarrow> addr \<Rightarrow> addr \<Rightarrow> 't \<Rightarrow> 't \<Rightarrow> bool" where
  "sys_at nodes closed refs claimed f pc s A v a b ta tb \<longleftrightarrow>
     futures s f = Some v \<and> fu_continuations v = Some a \<and> fu_waiters v = Some b \<and> a \<noteq> b \<and> fu_cancel_handle v = NULL \<and>
     stacks s a = Some ta \<and> stacks s b = Some tb \<and> nodes tb = [] \<and>
     closed ta = af_closed A \<and> (closed ta \<longrightarrow> nodes ta = []) \<and> nodes ta @ todo_pc pc = af_todo A \<and> doing_pc pc = af_doing A \<and>
     fu_is_completed v = (af_win A \<noteq> None) \<and> fu_result v = af_res A \<and> (fu_state v = UFSRV_FUTURE_READY) = af_ready A \<and>
     af_node A = node_view refs claimed (conts s) \<and> (\<forall>n c. conts s n = Some c \<longrightarrow> ct_user c \<noteq> NULL) \<and>
     (\<forall>n\<ge>next_addr s. conts s n = None) \<and> user s = af_log A"

definition winner_pc :: "(nat \<Rightarrow> 'c fpc) \<Rightarrow> nat option \<Rightarrow> 'c fpc" where
  "winner_pc th w = (case w of None \<Rightarrow> F_idle | Some i \<Rightarrow> th i)"

definition fut_conf_rel ::
  "('t \<Rightarrow> addr list) \<Rightarrow> ('t \<Rightarrow> bool) \<Rightarrow> ('n \<Rightarrow> int) \<Rightarrow> ('n \<Rightarrow> bool) \<Rightarrow> addr \<Rightarrow>
   (('c contfn \<times> ptr \<times> 'c UfsrvFutureResult option) list, 'c, 'q, 't, 'n, 'z) fut_conf \<Rightarrow> 'c afut \<Rightarrow> bool" where
  "fut_conf_rel nodes closed refs claimed f C A \<longleftrightarrow>
     af_thr A = hide \<circ> fc_thr C \<and>
     (\<exists>v a b ta tb. sys_at nodes closed refs claimed f (winner_pc (fc_thr C) (af_win A)) (fc_sys C) A v a b ta tb)"

lemma won_hide [simp]: "won (hide pc) = won pc"
  by (cases pc) auto

lemma winner_pc_other: "w \<noteq> Some i \<Longrightarrow> winner_pc (th(i := pc)) w = winner_pc th w"
  by (auto simp: winner_pc_def split: option.split)

text \<open>What a step has to show: a thread that has not won leaves the winner's position alone.\<close>

lemma fut_conf_relI:
  assumes "fut_conf_rel nodes closed refs claimed f C A" and "fut_inv A" and "\<not> won (fc_thr C i)" and "af_win A' = af_win A"
    and "af_thr A' = (af_thr A)(i := hide pc)"
    and "sys_at nodes closed refs claimed f (winner_pc (fc_thr C) (af_win A)) s A' v a b ta tb"
  shows "fut_conf_rel nodes closed refs claimed f \<lparr>fc_sys = s, fc_thr = (fc_thr C)(i := pc)\<rparr> A'"
proof -
  have "won (af_thr A i) = won (fc_thr C i)" using assms(1) by (simp add: fut_conf_rel_def)
  then have "af_win A \<noteq> Some i" using assms(2,3) by (auto simp: fut_inv_def win_inv_def)
  then have "winner_pc ((fc_thr C)(i := pc)) (af_win A') = winner_pc (fc_thr C) (af_win A)" using assms(4) by (simp add: winner_pc_other)
  moreover have "af_thr A' = hide \<circ> (fc_thr C)(i := pc)" using assms(1,5) by (auto simp: fut_conf_rel_def fun_eq_iff)
  ultimately show ?thesis using assms(6) by (simp add: fut_conf_rel_def) blast
qed

lemma fut_conf_rel_winnerI:
  assumes "fut_conf_rel nodes closed refs claimed f C A" and "af_win A' = Some i" and "af_thr A' = (af_thr A)(i := hide pc)"
    and "sys_at nodes closed refs claimed f pc s A' v a b ta tb"
  shows "fut_conf_rel nodes closed refs claimed f \<lparr>fc_sys = s, fc_thr = (fc_thr C)(i := pc)\<rparr> A'"
proof -
  have "af_thr A' = hide \<circ> (fc_thr C)(i := pc)" using assms(1,3) by (auto simp: fut_conf_rel_def fun_eq_iff)
  then show ?thesis using assms(2,4) by (simp add: fut_conf_rel_def winner_pc_def) blast
qed

section \<open>Effects of the segments\<close>

lemma release_view:
  assumes T: "treiber_laws (env_ts E) nodes closed refs claimed" and c: "conts s n = Some c"
  shows "\<exists>M. sNodeRelease E n s = Inr ((), s\<lparr>conts := M\<rparr>) \<and> node_view refs claimed M = drop_ref n (node_view refs claimed (conts s)) \<and>
    (\<forall>m. M m = None \<longleftrightarrow> conts s m = None \<or> m = n \<and> refs (ct_base c) = 1) \<and> (\<forall>m d. M m = Some d \<longrightarrow> (\<exists>d'. conts s m = Some d' \<and> ct_user d = ct_user d'))"
proof -
  note L = treiber_lawsD [OF T]
  let ?M = "if refs (ct_base c) = 1 then (conts s)(n := None)
    else (conts s)(n \<mapsto> c\<lparr>ct_base := snd (tn_release (env_ts E) (ct_base c))\<rparr>)"
  have "sNodeRelease E n s = Inr ((), s\<lparr>conts := ?M\<rparr>)"
    using c by (simp add: sNodeRelease_def cont_release_def L)
  moreover have "node_view refs claimed ?M = drop_ref n (node_view refs claimed (conts s))"
    using c by (auto simp: fun_eq_iff node_view_def drop_ref_def L)
  ultimately show ?thesis using c by (intro exI [of _ ?M]) (auto split: if_splits)
qed


lemma discard_view:
  assumes T: "treiber_laws (env_ts E) nodes closed refs claimed" and c: "conts s n = Some c" "refs (ct_base c) = 2"
  shows "sNodeDiscard E n s = Inr ((), s\<lparr>conts := (conts s)(n := None)\<rparr>)"
  using c by (simp add: sNodeDiscard_def sNodeRelease_def cont_release_def bindm_assoc treiber_lawsD [OF T])

lemma view_upd:
  "node_view refs claimed (M(n := None)) = (node_view refs claimed M)(n := None)"
  "node_view refs claimed (M(n \<mapsto> c)) = (node_view refs claimed M)(n \<mapsto>
     (case ct_user c of Some i \<Rightarrow> i | None \<Rightarrow> 0, ct_fn c, refs (ct_base c), claimed (ct_base c)))"
  by (auto simp: node_view_def fun_eq_iff)

text \<open>A node of the machine is a node of the heap.\<close>

lemma node_at:
  assumes "sys_at nodes closed refs claimed f pc s A v a b ta tb" and "af_node A n = Some (i, k, rc, cl)"
  obtains c where "conts s n = Some c" "ct_user c = Some i" "ct_fn c = k" "refs (ct_base c) = rc" "claimed (ct_base c) = cl"
proof -
  have view: "node_view refs claimed (conts s) n = Some (i, k, rc, cl)" and users: "\<And>c. conts s n = Some c \<Longrightarrow> ct_user c \<noteq> NULL"
    using assms unfolding sys_at_def by auto
  from view obtain c where c: "conts s n = Some c" by (auto simp: node_view_def)
  show thesis by (rule that [OF c]) (use view users [OF c] c in \<open>auto simp: node_view_def\<close>)
qed

section \<open>Simulation of the registering threads\<close>

definition fut_sim ::
  "('t \<Rightarrow> addr list) \<Rightarrow> ('t \<Rightarrow> bool) \<Rightarrow> ('n \<Rightarrow> int) \<Rightarrow> ('n \<Rightarrow> bool) \<Rightarrow> addr \<Rightarrow>
   fault + (('c contfn \<times> ptr \<times> 'c UfsrvFutureResult option) list, 'c, 'q, 't, 'n, 'z) fut_conf \<Rightarrow> 'c afut \<Rightarrow> bool" where
  "fut_sim nodes closed refs claimed f res A \<longleftrightarrow>
     (\<exists>C' A'. res = Inr C' \<and> (f_step A A' \<or> A' = A) \<and> fut_conf_rel nodes closed refs claimed f C' A')"

lemma fut_simI:
  assumes "fut_conf_rel nodes closed refs claimed f C A" and "fut_inv A"
    and "f_step A (goto i (hide pc) A')" and "\<not> won (fc_thr C i)" and "af_win A' = af_win A" and "af_thr A' = af_thr A"
    and "sys_at nodes closed refs claimed f (winner_pc (fc_thr C) (af_win A)) s A' v a b ta tb"
  shows "fut_sim nodes closed refs claimed f (Inr \<lparr>fc_sys = s, fc_thr = (fc_thr C)(i := pc)\<rparr>) A"
proof -
  have "fut_conf_rel nodes closed refs claimed f \<lparr>fc_sys = s, fc_thr = (fc_thr C)(i := pc)\<rparr> (goto i (hide pc) A')"
    by (rule fut_conf_relI [OF assms(1,2,4), of _ _ _ v a b ta tb]) (use assms in \<open>simp_all add: sys_at_def\<close>)
  with assms(3) show ?thesis unfolding fut_sim_def by blast
qed

text \<open>Unfolds the relation at a configuration: the position of thread \<open>i\<close> and the state of the future.\<close>

lemma fut_conf_relE:
  assumes "fut_conf_rel nodes closed refs claimed f C A"
  obtains v a b ta tb where "sys_at nodes closed refs claimed f (winner_pc (fc_thr C) (af_win A)) (fc_sys C) A v a b ta tb"
    and "af_thr A i = hide (fc_thr C i)"
  using assms by (auto simp: fut_conf_rel_def)

lemma sim_then:
  assumes rel: "fut_conf_rel nodes closed refs claimed f C A" and inv: "fut_inv A"
  shows "fut_sim nodes closed refs claimed f (fut_perform E call f (A_then i k) C) A"
proof (cases "fc_thr C i = F_idle")
  case True
  obtain v a b ta tb where S: "sys_at nodes closed refs claimed f (winner_pc (fc_thr C) (af_win A)) (fc_sys C) A v a b ta tb"
    and th: "af_thr A i = hide (fc_thr C i)" by (rule fut_conf_relE [OF rel])
  let ?pc = "if af_ready A then T_run k else T_alloc k"
  have run: "fut_perform E call f (A_then i k) C = Inr \<lparr>fc_sys = fc_sys C, fc_thr = (fc_thr C)(i := ?pc)\<rparr>"
    using True S by (simp add: advance_def then_check_def sys_at_def)
  have "hide ?pc = ?pc" by simp
  with f_then [of A i k] th True have "f_step A (goto i (hide ?pc) A)" by simp
  then show ?thesis unfolding run by (rule fut_simI [OF rel inv _ _ _ _ S]) (use True in simp_all)
next
  case False
  then show ?thesis using rel by (auto simp: fut_sim_def)
qed

lemma sim_run:
  assumes rel: "fut_conf_rel nodes closed refs claimed f C A" and inv: "fut_inv A" and pc: "fc_thr C i = T_run k \<or> fc_thr C i = T_closed k n"
  shows "fut_sim nodes closed refs claimed f (fut_perform E (observing_call record_delivery cv) f (A_step i) C) A"
proof -
  obtain v a b ta tb where S: "sys_at nodes closed refs claimed f (winner_pc (fc_thr C) (af_win A)) (fc_sys C) A v a b ta tb"
    and th: "af_thr A i = hide (fc_thr C i)" by (rule fut_conf_relE [OF rel])
  let ?pc = "if fc_thr C i = T_run k then T_done True else T_discard n"
  let ?log = "af_log A @ [(k, Some i, Some (af_res A))]"
  have run: "fut_perform E (observing_call record_delivery cv) f (A_step i) C =
      Inr \<lparr>fc_sys = (fc_sys C)\<lparr>user := ?log\<rparr>, fc_thr = (fc_thr C)(i := ?pc)\<rparr>"
    using pc S by (auto simp: advance_def record_delivery_def sys_at_def)
  have "f_step A (goto i (hide ?pc) (A\<lparr>af_log := ?log\<rparr>))" using f_run [of A i k] f_run_closed [of A i k n] th pc by auto
  then show ?thesis unfolding run
    by (rule fut_simI [OF rel inv, where v = v and a = a and b = b and ta = ta and tb = tb]) (use pc S in \<open>auto simp: sys_at_def\<close>)
qed

lemma sim_alloc:
  assumes T: "treiber_laws (env_ts E) nodes closed refs claimed" and rel: "fut_conf_rel nodes closed refs claimed f C A" and inv: "fut_inv A"
    and pc: "fc_thr C i = T_alloc k"
  shows "fut_sim nodes closed refs claimed f (fut_perform E call f (A_step i) C) A"
proof -
  obtain v a b ta tb where S: "sys_at nodes closed refs claimed f (winner_pc (fc_thr C) (af_win A)) (fc_sys C) A v a b ta tb"
    and th: "af_thr A i = hide (fc_thr C i)" by (rule fut_conf_relE [OF rel])
  let ?n = "next_addr (fc_sys C)"
  show ?thesis
  proof (cases "sys_ok (fc_sys C) ?n")
    case True
    let ?c = "\<lparr>ct_base = tn_init (env_ts E), ct_fn = k, ct_user = Some i\<rparr>"
    let ?s = "(fc_sys C)\<lparr>next_addr := Suc ?n, conts := (conts (fc_sys C))(?n \<mapsto> ?c)\<rparr>"
    have run: "fut_perform E call f (A_step i) C = Inr \<lparr>fc_sys = ?s, fc_thr = (fc_thr C)(i := T_push k ?n)\<rparr>"
      using True pc by (simp add: advance_def then_alloc_def malloc_def)
    have "af_node A ?n = None" using S by (simp add: sys_at_def node_view_def)
    with f_alloc [of A i k ?n] th pc have "f_step A (goto i (hide (T_push k ?n)) (A\<lparr>af_node := (af_node A)(?n \<mapsto> (i, k, 2, False))\<rparr>))" by simp
    then show ?thesis unfolding run
      by (rule fut_simI [OF rel inv, where v = v and a = a and b = b and ta = ta and tb = tb])
        (use pc S in \<open>auto simp: sys_at_def view_upd treiber_lawsD [OF T]\<close>)
  next
    case False
    let ?s = "(fc_sys C)\<lparr>next_addr := Suc ?n\<rparr>"
    have run: "fut_perform E call f (A_step i) C = Inr \<lparr>fc_sys = ?s, fc_thr = (fc_thr C)(i := T_done False)\<rparr>"
      using False pc by (simp add: advance_def then_alloc_def malloc_def)
    from f_oom [of A i k] th pc have "f_step A (goto i (hide (T_done False)) A)" by simp
    then show ?thesis unfolding run
      by (rule fut_simI [OF rel inv, where v = v and a = a and b = b and ta = ta and tb = tb]) (use pc S in \<open>auto simp: sys_at_def\<close>)
  qed
qed

lemma sim_push:
  assumes T: "treiber_laws (env_ts E) nodes closed refs claimed" and rel: "fut_conf_rel nodes closed refs claimed f C A" and inv: "fut_inv A"
    and pc: "fc_thr C i = T_push k n"
  shows "fut_sim nodes closed refs claimed f (fut_perform E call f (A_step i) C) A"
proof -
  obtain v a b ta tb where S: "sys_at nodes closed refs claimed f (winner_pc (fc_thr C) (af_win A)) (fc_sys C) A v a b ta tb"
    and th: "af_thr A i = hide (fc_thr C i)" by (rule fut_conf_relE [OF rel])
  note L = treiber_lawsD [OF T]
  let ?t = "snd (ts_push (env_ts E) n ta)" and ?pc = "if closed ta then T_closed k n else T_release n"
  let ?s = "(fc_sys C)\<lparr>stacks := (stacks (fc_sys C))(a \<mapsto> ?t)\<rparr>"
  let ?A = "if closed ta then A else A\<lparr>af_todo := n # af_todo A\<rparr>"
  have run: "fut_perform E call f (A_step i) C = Inr \<lparr>fc_sys = ?s, fc_thr = (fc_thr C)(i := ?pc)\<rparr>"
    using pc S by (simp add: advance_def sPushContinuation_def stack_push_def L sys_at_def)
  have "f_step A (goto i (hide ?pc) ?A)" using f_push [of A i k n] f_refused [of A i k n] th pc S by (simp add: sys_at_def)
  then show ?thesis unfolding run
    by (rule fut_simI [OF rel inv, where v = v and a = a and b = b and ta = ?t and tb = tb]) (use pc S in \<open>auto simp: sys_at_def L\<close>)
qed

lemma sim_drop:
  assumes T: "treiber_laws (env_ts E) nodes closed refs claimed" and rel: "fut_conf_rel nodes closed refs claimed f C A" and inv: "fut_inv A"
    and pc: "fc_thr C i = T_discard n \<or> fc_thr C i = T_release n"
  shows "fut_sim nodes closed refs claimed f (fut_perform E call f (A_step i) C) A"
proof -
  obtain v a b ta tb where S: "sys_at nodes closed refs claimed f (winner_pc (fc_thr C) (af_win A)) (fc_sys C) A v a b ta tb"
    and th: "af_thr A i = hide (fc_thr C i)" by (rule fut_conf_relE [OF rel])
  let ?s = "fc_sys C"
  from node_of [of A i n] inv th pc obtain k rc cl where n: "af_node A n = Some (i, k, rc, cl)"
    "fc_thr C i = T_discard n \<Longrightarrow> rc = 2" by (auto simp: fut_inv_def)
  obtain c where c: "conts ?s n = Some c" "refs (ct_base c) = rc" by (rule node_at [OF S n(1)])
  have "\<exists>M N. fut_perform E call f (A_step i) C = Inr \<lparr>fc_sys = ?s\<lparr>conts := M\<rparr>, fc_thr = (fc_thr C)(i := T_done True)\<rparr> \<and>
      f_step A (goto i (T_done True) (A\<lparr>af_node := N\<rparr>)) \<and> N = node_view refs claimed M \<and>
      (\<forall>m. conts ?s m = None \<longrightarrow> M m = None) \<and> (\<forall>m d. M m = Some d \<longrightarrow> ct_user d \<noteq> NULL)"
  proof (cases "fc_thr C i = T_discard n")
    case True
    with discard_view [OF T c(1)] c(2) n(2) f_discard [of A i n] th S show ?thesis
      by (intro exI [of _ "(conts ?s)(n := None)"] exI [of _ "(af_node A)(n := None)"])
        (auto simp: advance_def sys_at_def view_upd)
  next
    case False
    from release_view [OF T c(1)] obtain M where run: "sNodeRelease E n ?s = Inr ((), ?s\<lparr>conts := M\<rparr>)"
        and M: "node_view refs claimed M = drop_ref n (af_node A)" "\<And>m. conts ?s m = None \<Longrightarrow> M m = None"
          "\<And>m d. M m = Some d \<Longrightarrow> \<exists>d'. conts ?s m = Some d' \<and> ct_user d = ct_user d'"
      using S by (auto simp: sys_at_def)
    from S have "\<forall>n c. conts ?s n = Some c \<longrightarrow> ct_user c \<noteq> NULL" unfolding sys_at_def by blast
    with M(3) have "\<forall>m d. M m = Some d \<longrightarrow> ct_user d \<noteq> NULL" by metis
    moreover from False pc have pc': "fc_thr C i = T_release n" by simp
    moreover have "fut_perform E call f (A_step i) C = Inr \<lparr>fc_sys = ?s\<lparr>conts := M\<rparr>, fc_thr = (fc_thr C)(i := T_done True)\<rparr>"
      using run by (simp add: advance_def pc')
    moreover have "f_step A (goto i (T_done True) (A\<lparr>af_node := drop_ref n (af_node A)\<rparr>))" by (rule f_release) (simp add: th pc')
    ultimately show ?thesis using M(1) [symmetric] M(2) by blast
  qed
  then obtain M where run: "fut_perform E call f (A_step i) C = Inr \<lparr>fc_sys = ?s\<lparr>conts := M\<rparr>, fc_thr = (fc_thr C)(i := T_done True)\<rparr>"
      and st: "f_step A (goto i (T_done True) (A\<lparr>af_node := node_view refs claimed M\<rparr>))"
      and M: "\<forall>m. conts ?s m = None \<longrightarrow> M m = None" "\<forall>m d. M m = Some d \<longrightarrow> ct_user d \<noteq> NULL" by blast
  show ?thesis unfolding run
    by (rule fut_simI [OF rel inv, where v = v and a = a and b = b and ta = ta and tb = tb and A' = "A\<lparr>af_node := node_view refs claimed M\<rparr>"])
      (use pc S st M in \<open>auto simp: sys_at_def\<close>)
qed


section \<open>Simulation of the completing threads\<close>

lemma winner_simI:
  assumes "fut_conf_rel nodes closed refs claimed f C A" and "f_step A (goto i (hide pc) A')" and "af_win A' = Some i" and "af_thr A' = af_thr A"
    and "sys_at nodes closed refs claimed f pc s A' v a b ta tb"
  shows "fut_sim nodes closed refs claimed f (Inr \<lparr>fc_sys = s, fc_thr = (fc_thr C)(i := pc)\<rparr>) A"
proof -
  have "fut_conf_rel nodes closed refs claimed f \<lparr>fc_sys = s, fc_thr = (fc_thr C)(i := pc)\<rparr> (goto i (hide pc) A')"
    by (rule fut_conf_rel_winnerI [OF assms(1), of _ _ _ _ v a b ta tb]) (use assms in \<open>simp_all add: sys_at_def\<close>)
  with assms(2) show ?thesis unfolding fut_sim_def by blast
qed

lemma sim_complete:
  assumes rel: "fut_conf_rel nodes closed refs claimed f C A" and inv: "fut_inv A"
  shows "fut_sim nodes closed refs claimed f (fut_perform E call f (A_complete i r) C) A"
proof (cases "fc_thr C i = F_idle")
  case True
  obtain v a b ta tb where S: "sys_at nodes closed refs claimed f (winner_pc (fc_thr C) (af_win A)) (fc_sys C) A v a b ta tb"
    and th: "af_thr A i = hide (fc_thr C i)" by (rule fut_conf_relE [OF rel])
  let ?v = "v\<lparr>fu_is_completed := True\<rparr>"
  let ?s = "(fc_sys C)\<lparr>futures := (futures (fc_sys C))(f \<mapsto> ?v)\<rparr>"
  show ?thesis
  proof (cases "af_win A")
    case None
    have run: "fut_perform E call f (A_complete i r) C = Inr \<lparr>fc_sys = ?s, fc_thr = (fc_thr C)(i := C_store r)\<rparr>"
      using True S None by (simp add: advance_def complete_exchange_def bindm_assoc sys_at_def)
    have "f_step A (goto i (hide (C_store r)) (A\<lparr>af_win := Some i\<rparr>))" using f_win [of A i r] th True None by simp
    then show ?thesis unfolding run
      by (rule winner_simI [OF rel, where v = ?v and a = a and b = b and ta = ta and tb = tb])
        (use S None in \<open>auto simp: sys_at_def winner_pc_def\<close>)
  next
    case (Some w)
    have run: "fut_perform E call f (A_complete i r) C = Inr \<lparr>fc_sys = ?s, fc_thr = (fc_thr C)(i := C_done False)\<rparr>"
      using True S Some by (simp add: advance_def complete_exchange_def bindm_assoc sys_at_def)
    have "f_step A (goto i (hide (C_done False)) A)" using f_lose [of A i] th True Some by simp
    then show ?thesis unfolding run
      by (rule fut_simI [OF rel inv, where v = ?v and a = a and b = b and ta = ta and tb = tb])
        (use True S Some in \<open>auto simp: sys_at_def\<close>)
  qed
next
  case False
  then show ?thesis using rel by (auto simp: fut_sim_def)
qed

text \<open>The winner up to the theft of the continuations.\<close>

lemma sim_publish:
  assumes T: "treiber_laws (env_ts E) nodes closed refs claimed" and rel: "fut_conf_rel nodes closed refs claimed f C A"
    and w: "af_win A = Some i" and pc: "fc_thr C i \<in> {C_store r, C_publish, C_handle, C_waiters, C_steal}"
  shows "fut_sim nodes closed refs claimed f (fut_perform E call f (A_step i) C) A"
proof -
  obtain v a b ta tb where S: "sys_at nodes closed refs claimed f (winner_pc (fc_thr C) (af_win A)) (fc_sys C) A v a b ta tb"
    and th: "af_thr A i = hide (fc_thr C i)" by (rule fut_conf_relE [OF rel])
  note SD = S [unfolded sys_at_def winner_pc_def w option.case]
  note L = treiber_lawsD [OF T]
  let ?F = "\<lambda>v'. (fc_sys C)\<lparr>futures := (futures (fc_sys C))(f \<mapsto> v')\<rparr>"
  let ?K = "\<lambda>c t. (fc_sys C)\<lparr>stacks := (stacks (fc_sys C))(c \<mapsto> snd (ts_steal (env_ts E) t))\<rparr>"
  from pc consider "fc_thr C i = C_store r" | "fc_thr C i = C_publish" | "fc_thr C i = C_handle" | "fc_thr C i = C_waiters" | "fc_thr C i = C_steal"
    by auto
  then show ?thesis
  proof cases
    case 1
    have run: "fut_perform E call f (A_step i) C = Inr \<lparr>fc_sys = ?F (v\<lparr>fu_result := r\<rparr>), fc_thr = (fc_thr C)(i := C_publish)\<rparr>"
      using SD 1 by (simp add: advance_def complete_store_def)
    show ?thesis unfolding run
      by (rule winner_simI [OF rel, where A' = "A\<lparr>af_res := r\<rparr>" and v = "v\<lparr>fu_result := r\<rparr>" and a = a and b = b and ta = ta and tb = tb])
        (use SD 1 w th f_store [of A i r] in \<open>auto simp: sys_at_def\<close>)
  next
    case 2
    have run: "fut_perform E call f (A_step i) C = Inr \<lparr>fc_sys = ?F (v\<lparr>fu_state := UFSRV_FUTURE_READY\<rparr>), fc_thr = (fc_thr C)(i := C_handle)\<rparr>"
      using SD 2 by (simp add: advance_def complete_publish_def)
    show ?thesis unfolding run
      by (rule winner_simI [OF rel, where A' = "A\<lparr>af_ready := True\<rparr>" and v = "v\<lparr>fu_state := UFSRV_FUTURE_READY\<rparr>" and a = a and b = b and ta = ta and tb = tb])
        (use SD 2 w th f_publish [of A i] in \<open>auto simp: sys_at_def\<close>)
  next
    case 3
    have run: "fut_perform E call f (A_step i) C = Inr \<lparr>fc_sys = ?F (v\<lparr>fu_cancel_handle := NULL\<rparr>), fc_thr = (fc_thr C)(i := C_waiters)\<rparr>"
      using SD 3 by (simp add: advance_def bindm_assoc complete_handle_def)
    show ?thesis unfolding run
      by (rule winner_simI [OF rel, where A' = A and v = "v\<lparr>fu_cancel_handle := NULL\<rparr>" and a = a and b = b and ta = ta and tb = tb])
        (use SD 3 w th f_handle [of A i] in \<open>auto simp: sys_at_def\<close>)
  next
    case 4
    have run: "fut_perform E call f (A_step i) C = Inr \<lparr>fc_sys = ?K b tb, fc_thr = (fc_thr C)(i := C_steal)\<rparr>"
      using SD 4 by (simp add: advance_def bindm_assoc sDrainWaiters_def stack_steal_all_and_close_def L)
    show ?thesis unfolding run
      by (rule winner_simI [OF rel, where A' = A and v = v and a = a and b = b and ta = ta and tb = "snd (ts_steal (env_ts E) tb)"])
        (use SD 4 w th f_waiters [of A i] in \<open>auto simp: sys_at_def L\<close>)
  next
    case 5
    have run: "fut_perform E call f (A_step i) C = Inr \<lparr>fc_sys = ?K a ta, fc_thr = (fc_thr C)(i := C_drain (nodes ta))\<rparr>"
      using SD 5 by (simp add: advance_def bindm_assoc steal_continuations_def stack_steal_all_and_close_def L)
    show ?thesis unfolding run
      by (rule winner_simI [OF rel, where A' = "A\<lparr>af_closed := True\<rparr>" and v = v and a = a and b = b and ta = "snd (ts_steal (env_ts E) ta)" and tb = tb])
        (use SD 5 w th f_steal [of A i] in \<open>auto simp: sys_at_def L\<close>)
  qed
qed


text \<open>The winner runs and releases the stolen nodes.\<close>

lemma sim_drain:
  assumes T: "treiber_laws (env_ts E) nodes closed refs claimed" and rel: "fut_conf_rel nodes closed refs claimed f C A" and inv: "fut_inv A"
    and w: "af_win A = Some i" and pc: "fc_thr C i = C_drain ns"
  shows "fut_sim nodes closed refs claimed f (fut_perform E (observing_call record_delivery cv) f (A_step i) C) A"
proof -
  obtain v a b ta tb where S: "sys_at nodes closed refs claimed f (winner_pc (fc_thr C) (af_win A)) (fc_sys C) A v a b ta tb"
    and th: "af_thr A i = hide (fc_thr C i)" by (rule fut_conf_relE [OF rel])
  note SD = S [unfolded sys_at_def winner_pc_def w option.case]
  have "af_closed A" using winnerD(3) [of A i] inv w th pc by (simp add: fut_inv_def)
  then have nil: "nodes ta = []" using SD by simp
  show ?thesis
  proof (cases ns)
    case Nil
    have run: "fut_perform E (observing_call record_delivery cv) f (A_step i) C = Inr \<lparr>fc_sys = fc_sys C, fc_thr = (fc_thr C)(i := C_done True)\<rparr>"
      using pc Nil by (simp add: advance_def)
    show ?thesis unfolding run
      by (rule winner_simI [OF rel, where A' = A and v = v and a = a and b = b and ta = ta and tb = tb])
        (use SD w th f_end [of A i] pc Nil nil in \<open>auto simp: sys_at_def\<close>)
  next
    case (Cons n ms)
    have todo: "af_todo A = n # ms" "af_doing A = []" using SD pc Cons nil by auto
    have "af_node A n \<noteq> None" using todo_alloc [of A n] inv todo by (simp add: fut_inv_def)
    then obtain j k rc cl where n: "af_node A n = Some (j, k, rc, cl)" by (cases "af_node A n") auto
    have "\<not> cl" using node_owned [OF _ n] inv todo by (cases "af_thr A j") (auto simp: fut_inv_def)
    obtain c where c: "conts (fc_sys C) n = Some c" "ct_user c = Some j" "ct_fn c = k" "refs (ct_base c) = rc" "claimed (ct_base c) = cl"
      by (rule node_at [OF S n])
    let ?c = "c\<lparr>ct_base := snd (tn_claim (env_ts E) (ct_base c))\<rparr>" and ?log = "af_log A @ [(k, Some j, Some (af_res A))]"
    let ?s = "(fc_sys C)\<lparr>conts := (conts (fc_sys C))(n \<mapsto> ?c), user := ?log\<rparr>"
    have run: "fut_perform E (observing_call record_delivery cv) f (A_step i) C = Inr \<lparr>fc_sys = ?s, fc_thr = (fc_thr C)(i := C_free n ms)\<rparr>"
      using pc Cons c SD \<open>\<not> cl\<close>
      by (simp add: advance_def sRunContinuation_def cont_claim_def bindm_assoc record_delivery_def treiber_lawsD [OF T])
    have lt: "n < next_addr (fc_sys C)" using c(1) SD by (metis linorder_not_less option.distinct(1))
    show ?thesis unfolding run
      by (rule winner_simI [OF rel, where A' = "A\<lparr>af_node := (af_node A)(n \<mapsto> (j, k, rc, True)), af_todo := ms, af_doing := [n], af_log := ?log\<rparr>"
            and v = v and a = a and b = b and ta = ta and tb = tb])
        (use SD w th pc f_deliver [OF _ todo, of i j k rc] n \<open>\<not> cl\<close> nil c lt in \<open>auto simp: sys_at_def view_upd treiber_lawsD [OF T]\<close>)
  qed
qed

lemma sim_free:
  assumes T: "treiber_laws (env_ts E) nodes closed refs claimed" and rel: "fut_conf_rel nodes closed refs claimed f C A" and inv: "fut_inv A"
    and w: "af_win A = Some i" and pc: "fc_thr C i = C_free n ns"
  shows "fut_sim nodes closed refs claimed f (fut_perform E call f (A_step i) C) A"
proof -
  obtain v a b ta tb where S: "sys_at nodes closed refs claimed f (winner_pc (fc_thr C) (af_win A)) (fc_sys C) A v a b ta tb"
    and th: "af_thr A i = hide (fc_thr C i)" by (rule fut_conf_relE [OF rel])
  note SD = S [unfolded sys_at_def winner_pc_def w option.case]
  have doing: "af_doing A = [n]" using SD pc by simp
  have "af_node A n \<noteq> None" using todo_alloc [of A n] inv doing by (simp add: fut_inv_def)
  then obtain j k rc cl where n: "af_node A n = Some (j, k, rc, cl)" by (cases "af_node A n") auto
  obtain c where c: "conts (fc_sys C) n = Some c" by (rule node_at [OF S n])
  from release_view [OF T c] obtain M where rl: "sNodeRelease E n (fc_sys C) = Inr ((), (fc_sys C)\<lparr>conts := M\<rparr>)"
      and M: "node_view refs claimed M = drop_ref n (node_view refs claimed (conts (fc_sys C)))" "\<And>m. conts (fc_sys C) m = None \<Longrightarrow> M m = None"
        "\<And>m d. M m = Some d \<Longrightarrow> \<exists>d'. conts (fc_sys C) m = Some d' \<and> ct_user d = ct_user d'"
    by auto
  from S have "\<forall>n c. conts (fc_sys C) n = Some c \<longrightarrow> ct_user c \<noteq> NULL" unfolding sys_at_def by blast
  with M(3) have users: "\<forall>m d. M m = Some d \<longrightarrow> ct_user d \<noteq> NULL" by metis
  have run: "fut_perform E call f (A_step i) C = Inr \<lparr>fc_sys = (fc_sys C)\<lparr>conts := M\<rparr>, fc_thr = (fc_thr C)(i := C_drain ns)\<rparr>"
    using pc rl by (simp add: advance_def)
  show ?thesis unfolding run
    by (rule winner_simI [OF rel, where A' = "A\<lparr>af_node := drop_ref n (af_node A), af_doing := []\<rparr>" and v = v and a = a and b = b and ta = ta and tb = tb])
      (use SD w th pc f_free [of A i n] doing M(1,2) users in \<open>auto simp: sys_at_def\<close>)
qed

lemma sim_step:
  assumes T: "treiber_laws (env_ts E) nodes closed refs claimed" and rel: "fut_conf_rel nodes closed refs claimed f C A" and inv: "fut_inv A"
  shows "fut_sim nodes closed refs claimed f (fut_perform E (observing_call record_delivery cv) f (A_step i) C) A"
proof -
  have win: "af_win A = Some i" if "won (fc_thr C i)"
    using winnerD(1) [of A i] rel inv that by (auto simp: fut_conf_rel_def fut_inv_def)
  have "advance i (ret (fc_thr C i)) C = Inr C" by (cases C) (simp add: advance_def)
  then have stay: "fut_sim nodes closed refs claimed f (advance i (ret (fc_thr C i)) C) A"
    using rel unfolding fut_sim_def by auto
  show ?thesis
  proof (cases "fc_thr C i")
    case (T_run k)
    then show ?thesis by (rule sim_run [OF rel inv disjI1])
  next
    case (T_alloc k)
    then show ?thesis by (rule sim_alloc [OF T rel inv])
  next
    case (T_push k n)
    then show ?thesis by (rule sim_push [OF T rel inv])
  next
    case (T_closed k n)
    then show ?thesis by (rule sim_run [OF rel inv disjI2])
  next
    case (T_discard n)
    then show ?thesis by (rule sim_drop [OF T rel inv disjI1])
  next
    case (T_release n)
    then show ?thesis by (rule sim_drop [OF T rel inv disjI2])
  next
    case (C_drain ns)
    then show ?thesis using win by (intro sim_drain [OF T rel inv]) simp_all
  next
    case (C_free n ns)
    then show ?thesis using win by (intro sim_free [OF T rel inv]) simp_all
  next
    case (C_store r)
    then show ?thesis using win by (intro sim_publish [OF T rel, where r = r]) simp_all
  qed (use stay win sim_publish [OF T rel, of i] in simp_all)
qed

interpretation fs: simulation "fut_perform E (observing_call record_delivery cv) f" f_step
    "\<lambda>C A. treiber_laws (env_ts E) nodes closed refs claimed \<and> fut_conf_rel nodes closed refs claimed f C A" fut_inv
  for E :: "(('c contfn \<times> ptr \<times> 'c UfsrvFutureResult option) list, 'c, 'q, 't, 'n, 'z) fenv" and cv f nodes closed refs claimed
proof
  fix C :: "(('c contfn \<times> ptr \<times> 'c UfsrvFutureResult option) list, 'c, 'q, 't, 'n, 'z) fut_conf" and A and act :: "'c fut_act"
  assume rel: "treiber_laws (env_ts E) nodes closed refs claimed \<and> fut_conf_rel nodes closed refs claimed f C A" and inv: "fut_inv A"
  note R = conjunct1 [OF rel] conjunct2 [OF rel]
  have "fut_sim nodes closed refs claimed f (fut_perform E (observing_call record_delivery cv) f act C) A"
    by (cases act) (simp_all only: sim_step [OF R inv] sim_then [OF R(2) inv] sim_complete [OF R(2) inv])
  with R(1) show "\<exists>C' A'. fut_perform E (observing_call record_delivery cv) f act C = Inr C' \<and> (f_step A A' \<or> A' = A) \<and>
      treiber_laws (env_ts E) nodes closed refs claimed \<and> fut_conf_rel nodes closed refs claimed f C' A'"
    unfolding fut_sim_def by blast
qed (rule fut_inv_step)

end
