(* ===== verification/Future_Conc_Spec.thy ===== *)
theory Future_Conc_Spec
  imports Future_Conc_Sim
begin

text \<open>
  What the race between registering and completing threads guarantees, in every interleaving:
  one winner, every continuation at most once and with the winner's result, none lost and no node
  leaked once the threads have returned, and no thread ever waits for another.
\<close>

section \<open>The initial configuration\<close>

definition fut_start ::
  "('u, 'c, 'q, 't, 'n, 'z) future_sys_scheme \<Rightarrow> ('u, 'c, 'q, 't, 'n, 'z) fut_conf" where
  "fut_start s = \<lparr>fc_sys = s, fc_thr = (\<lambda>_. F_idle)\<rparr>"

definition afut_start :: "'c UfsrvFutureResult \<Rightarrow> 'c afut" where
  "afut_start r = \<lparr>af_thr = (\<lambda>_. F_idle), af_node = Map.empty, af_todo = [], af_doing = [], af_closed = False,
     af_win = None, af_res = r, af_ready = False, af_log = []\<rparr>"

lemma afut_start_inv: "fut_inv (afut_start r)"
  by (simp add: afut_start_def fut_inv_def win_inv_def node_inv_def log_inv_def)

text \<open>A pending future that nobody has registered with, in a process without other continuations.\<close>

definition race_ready ::
  "('t \<Rightarrow> addr list) \<Rightarrow> ('t \<Rightarrow> bool) \<Rightarrow>
   (('c contfn \<times> ptr \<times> 'c UfsrvFutureResult option) list, 'c, 'q, 't, 'n, 'z) future_sys_scheme \<Rightarrow> addr \<Rightarrow> bool" where
  "race_ready nodes closed s f \<longleftrightarrow>
     (\<exists>v. pending_future nodes closed s f v [] [] \<and> fu_cancel_handle v = NULL) \<and> conts s = Map.empty \<and> user s = []"

lemma race_start:
  assumes "race_ready nodes closed s f"
  obtains r where "fut_conf_rel nodes closed refs claimed f (fut_start s) (afut_start r)"
proof -
  from assms obtain v where v: "pending_future nodes closed s f v [] []" "fu_cancel_handle v = NULL" "conts s = Map.empty" "user s = []"
    by (auto simp: race_ready_def)
  then obtain a b ta tb where "fu_continuations v = Some a" "fu_waiters v = Some b" "a \<noteq> b" "stacks s a = Some ta" "stacks s b = Some tb"
      "nodes ta = []" "nodes tb = []" "\<not> closed ta" "futures s f = Some v" "\<not> fu_is_completed v" "fu_state v = UFSRV_FUTURE_PENDING"
    by (auto simp: pending_future_def)
  with v have "sys_at nodes closed refs claimed f F_idle s (afut_start (fu_result v)) v a b ta tb"
    by (simp add: sys_at_def afut_start_def node_view_def fun_eq_iff)
  then have "fut_conf_rel nodes closed refs claimed f (fut_start s) (afut_start (fu_result v))"
    unfolding fut_conf_rel_def by (intro conjI exI) (simp_all add: fut_start_def winner_pc_def afut_start_def fun_eq_iff)
  then show thesis by (rule that)
qed

text \<open>Every interleaving runs without a fault and stays related to the machine.\<close>

lemma race_run:
  assumes "treiber_laws (env_ts E) nodes closed refs claimed" and "race_ready nodes closed s f"
  obtains C A where "run_actions (fut_perform E (observing_call record_delivery cv) f) as (fut_start s) = Inr C"
    and "fut_conf_rel nodes closed refs claimed f C A" and "fut_inv A"
proof -
  obtain r where "fut_conf_rel nodes closed refs claimed f (fut_start s) (afut_start r)" by (rule race_start [OF assms(2)])
  from fs.run_sim [OF conjI [OF assms(1) this] afut_start_inv, of cv as] that show thesis by blast
qed

lemma expected_le: "expected pc w \<le> 1"
  by (cases pc) auto

lemma demo_race_ready: "race_ready fst snd demo_pending 16"
proof -
  have "conts demo_pending = Map.empty" "user demo_pending = []" by (simp_all add: demo_pending_def created_def Let_def future_init_defs)
  moreover have "pending_future fst snd demo_pending 16 (new_future 18 19) [] []"
    using created_pending [of base_env fst snd fst snd "future_init [] (\<lambda>_. True)"] list_stack_laws by (simp add: demo_pending_def future_init_defs)
  ultimately show ?thesis unfolding race_ready_def by force
qed

text \<open>Thread 0 registers while thread 1 completes the future, thread 2 registers afterwards.\<close>

definition demo_race :: "string fut_act list" where
  "demo_race = [A_then 0 (K_user ''a''), A_complete 1 (error_result 7), A_step 0, A_step 0, A_step 1, A_step 1, A_then 2 (K_user ''b''),
     A_step 1, A_step 1, A_step 1, A_step 1, A_step 0, A_step 1, A_step 2, A_step 1]"

text \<open>
C2: in every interleaving of any number of threads that register continuations and threads that
complete the future, no atomic action faults (no node is used after it was freed), at most one
completion wins, every continuation runs at most once, and only with the result that the future
holds, after it was published.
\<close>

theorem future_race_safe:
  assumes "treiber_laws (env_ts E) nodes closed refs claimed" and "race_ready nodes closed s f"
  shows "\<exists>C v. run_actions (fut_perform E (observing_call record_delivery cv) f) as (fut_start s) = Inr C \<and>
    futures (fc_sys C) f = Some v \<and> (\<forall>i j. won (fc_thr C i) \<and> won (fc_thr C j) \<longrightarrow> i = j) \<and>
    (\<forall>i. deliveries (user (fc_sys C)) i \<le> 1) \<and>
    (\<forall>(k, x, r)\<in>set (user (fc_sys C)). r = Some (fu_result v) \<and> fu_state v = UFSRV_FUTURE_READY)"
proof -
  obtain C A where run: "run_actions (fut_perform E (observing_call record_delivery cv) f) as (fut_start s) = Inr C"
    and rel: "fut_conf_rel nodes closed refs claimed f C A" and inv: "fut_inv A" by (rule race_run [OF assms])
  from rel obtain v a b ta tb where S: "sys_at nodes closed refs claimed f (winner_pc (fc_thr C) (af_win A)) (fc_sys C) A v a b ta tb"
    and th: "af_thr A = hide \<circ> fc_thr C" by (auto simp: fut_conf_rel_def)
  have v: "futures (fc_sys C) f = Some v" "fu_result v = af_res A" "(fu_state v = UFSRV_FUTURE_READY) = af_ready A" "user (fc_sys C) = af_log A"
    using S by (simp_all add: sys_at_def)
  have w: "won (fc_thr C i) \<longleftrightarrow> af_win A = Some i" for i using inv th by (simp add: fut_inv_def win_inv_def)
  have d: "deliveries (af_log A) i \<le> 1" for i using inv expected_le by (simp add: fut_inv_def log_inv_def)
  have l: "\<forall>(k, x, r)\<in>set (af_log A). r = Some (af_res A) \<and> af_ready A" using inv by (auto simp: fut_inv_def win_inv_def)
  show ?thesis by (rule exI [of _ C], rule exI [of _ v]) (use run v w d l in auto)
qed

theorem future_race_safe_witness:
  "\<exists>C v. run_actions (fut_perform base_env (observing_call record_delivery (\<lambda>_ _ u. u)) 16) demo_race (fut_start demo_pending) = Inr C \<and>
    futures (fc_sys C) 16 = Some v \<and> (\<forall>i. deliveries (user (fc_sys C)) i \<le> 1)"
  using future_race_safe [of base_env fst snd fst snd demo_pending 16 "\<lambda>_ _ u. u" demo_race] demo_race_ready list_stack_laws by auto

fun returned :: "'c fpc \<Rightarrow> bool" where
  "returned F_idle = True" | "returned (T_done b) = True" | "returned (C_done b) = True" | "returned pc = False"

text \<open>
C3: no continuation is lost: once every thread has returned and one of them has completed the
future, the continuation of each thread whose registration answered true has run exactly once,
the others never, and every node has been freed, whichever thread released it last.
\<close>

theorem future_race_delivers:
  assumes "treiber_laws (env_ts E) nodes closed refs claimed" and "race_ready nodes closed s f"
    and "run_actions (fut_perform E (observing_call record_delivery cv) f) as (fut_start s) = Inr C"
    and "\<And>i. returned (fc_thr C i)" and "fc_thr C w = C_done True"
  shows "(\<forall>i. deliveries (user (fc_sys C)) i = (if fc_thr C i = T_done True then 1 else 0)) \<and> conts (fc_sys C) = Map.empty"
proof -
  obtain A where rel: "fut_conf_rel nodes closed refs claimed f C A" and inv: "fut_inv A"
    using race_run [OF assms(1,2), of cv as] assms(3) by (metis Inr_inject)
  from rel obtain v a b ta tb where S: "sys_at nodes closed refs claimed f (winner_pc (fc_thr C) (af_win A)) (fc_sys C) A v a b ta tb"
    and th: "af_thr A = hide \<circ> fc_thr C" by (auto simp: fut_conf_rel_def)
  have D: "af_win A = Some w" "af_closed A" using winnerD [of A w] inv th assms(5) by (simp_all add: fut_inv_def)
  have empty: "af_todo A = []" "af_doing A = []" using S D assms(5) by (auto simp: sys_at_def winner_pc_def)
  have pcs: "af_thr A i = fc_thr C i" for i using th assms(4) [of i] by (cases "fc_thr C i") auto
  have "deliveries (af_log A) i = (if fc_thr C i = T_done True then 1 else 0)" for i
    using inv empty pcs assms(4) [of i] by (cases "fc_thr C i") (auto simp: fut_inv_def log_inv_def waiting_def)
  moreover have "af_node A n = None" for n
  proof (cases "af_node A n")
    case (Some p)
    obtain i k rc cl where p: "p = (i, k, rc, cl)" by (cases p)
    from node_owned [of A n i k rc cl] inv Some p empty pcs [of i] assms(4) [of i] show ?thesis
      by (cases "fc_thr C i") (auto simp: fut_inv_def)
  qed
  ultimately show ?thesis using S by (auto simp: sys_at_def node_view_def fun_eq_iff)
qed


lemma demo_race_run:
  "\<exists>C. run_actions (fut_perform base_env (observing_call record_delivery (\<lambda>_ _ u. u)) 16) demo_race (fut_start demo_pending) = Inr C \<and>
    fc_thr C 0 = T_done True \<and> fc_thr C 1 = C_done True \<and> fc_thr C 2 = T_done True \<and> (\<forall>i. returned (fc_thr C i))"
  by (simp add: demo_race_def fut_start_def demo_pending_def created_def Let_def future_init_defs advance_def then_check_def then_alloc_def
      complete_exchange_def complete_store_def complete_publish_def complete_handle_def steal_continuations_def sPushContinuation_def
      stack_push_def stack_steal_all_and_close_def sDrainWaiters_def sRunContinuation_def cont_claim_def sNodeRelease_def cont_release_def
      malloc_def list_stack_def bindm_assoc)

theorem future_race_delivers_witness:
  "\<exists>C. run_actions (fut_perform base_env (observing_call record_delivery (\<lambda>_ _ u. u)) 16) demo_race (fut_start demo_pending) = Inr C \<and>
    deliveries (user (fc_sys C)) 0 = 1 \<and> deliveries (user (fc_sys C)) 2 = 1 \<and> deliveries (user (fc_sys C)) 1 = 0 \<and> conts (fc_sys C) = Map.empty"
proof -
  from demo_race_run obtain C where run: "run_actions (fut_perform base_env (observing_call record_delivery (\<lambda>_ _ u. u)) 16) demo_race
      (fut_start demo_pending) = Inr C" and th: "fc_thr C 0 = T_done True" "fc_thr C 1 = C_done True" "fc_thr C 2 = T_done True" "\<And>i. returned (fc_thr C i)"
    by blast
  have "treiber_laws (env_ts base_env) fst snd fst snd" using list_stack_laws by simp
  from future_race_delivers [OF this demo_race_ready run th(4,2)] run th show ?thesis by simp
qed

section \<open>Wait-freedom\<close>

text \<open>The atomic actions a thread has left, when \<open>n\<close> continuations are to be run.\<close>

fun actions_left :: "nat \<Rightarrow> 'c fpc \<Rightarrow> nat" where
  "actions_left n (T_run k) = 1" | "actions_left n (T_alloc k) = 4" | "actions_left n (T_push k m) = 3" | "actions_left n (T_closed k m) = 2"
| "actions_left n (T_discard m) = 1" | "actions_left n (T_release m) = 1"
| "actions_left n (C_store r) = 2 * n + 6" | "actions_left n C_publish = 2 * n + 5" | "actions_left n C_handle = 2 * n + 4"
| "actions_left n C_waiters = 2 * n + 3" | "actions_left n C_steal = 2 * n + 2" | "actions_left n (C_drain ns) = 2 * n + 1"
| "actions_left n (C_free m ns) = 2 * n + 2" | "actions_left n pc = 0"

lemma actions_left_hide [simp]: "actions_left n (hide pc) = actions_left n pc" "returned (hide pc) = returned pc"
  by (cases pc; simp)+

lemma f_step_left:
  "f_step A B \<Longrightarrow> \<exists>i. (\<forall>j. j \<noteq> i \<longrightarrow> af_thr B j = af_thr A j) \<and> af_thr B i \<noteq> af_thr A i \<and>
     (\<not> returned (af_thr A i) \<longrightarrow> actions_left (length (af_todo B)) (af_thr B i) < actions_left (length (af_todo A)) (af_thr A i))"
  by (induction rule: f_step.induct) (rule exI, auto split: if_splits)+

lemma step_moves:
  assumes "fut_perform E call f (A_step i) C = Inr D"
  shows "\<forall>j. j \<noteq> i \<longrightarrow> fc_thr D j = fc_thr C j" and "\<not> returned (fc_thr C i) \<Longrightarrow> hide (fc_thr D i) \<noteq> hide (fc_thr C i)"
proof -
  from assms obtain pc s where step: "fpc_step E call f i (fc_thr C i) (fc_sys C) = Inr (pc, s)" and D: "D = \<lparr>fc_sys = s, fc_thr = (fc_thr C)(i := pc)\<rparr>"
    by (auto simp: advance_def split: sum.splits)
  from D show "\<forall>j. j \<noteq> i \<longrightarrow> fc_thr D j = fc_thr C j" by simp
  show "hide (fc_thr D i) \<noteq> hide (fc_thr C i)" if "\<not> returned (fc_thr C i)"
    using step that by (cases "(E, call, f, i, fc_thr C i)" rule: fpc_step.cases) (auto simp: D bindm_eq_Inr_iff split: option.splits if_splits dest!: sym [of "T_done _"] sym [of "C_done _"])
qed

lemma step_progress:
  assumes T: "treiber_laws (env_ts E) nodes closed refs claimed" and rel: "fut_conf_rel nodes closed refs claimed f C A" and inv: "fut_inv A"
    and "\<not> returned (fc_thr C i)"
  shows "\<exists>D B. fut_perform E (observing_call record_delivery cv) f (A_step i) C = Inr D \<and> fut_conf_rel nodes closed refs claimed f D B \<and> fut_inv B \<and>
    actions_left (length (af_todo B)) (fc_thr D i) < actions_left (length (af_todo A)) (fc_thr C i)"
proof -
  from fs.sim [OF conjI [OF T rel] inv, of cv "A_step i"] obtain D B where
    D: "fut_perform E (observing_call record_delivery cv) f (A_step i) C = Inr D" "f_step A B \<or> B = A" "fut_conf_rel nodes closed refs claimed f D B" by blast
  have th: "af_thr A j = hide (fc_thr C j)" "af_thr B j = hide (fc_thr D j)" for j using rel D(3) by (simp_all add: fut_conf_rel_def)
  have ne: "af_thr B i \<noteq> af_thr A i" using step_moves(2) [OF D(1) assms(4)] th by simp
  with D(2) have step: "f_step A B" by auto
  from f_step_left [OF step] obtain l where l: "\<forall>j. j \<noteq> l \<longrightarrow> af_thr B j = af_thr A j"
    "\<not> returned (af_thr A l) \<longrightarrow> actions_left (length (af_todo B)) (af_thr B l) < actions_left (length (af_todo A)) (af_thr A l)" by blast
  with ne have "l = i" by metis
  with l(2) th assms(4) D(1,3) fut_inv_step [OF step inv] show ?thesis by auto
qed

lemma run_alone:
  assumes T: "treiber_laws (env_ts E) nodes closed refs claimed"
  shows "fut_conf_rel nodes closed refs claimed f C A \<Longrightarrow> fut_inv A \<Longrightarrow> actions_left (length (af_todo A)) (fc_thr C i) \<le> m \<Longrightarrow>
    \<exists>l\<le>m. \<exists>D. run_actions (fut_perform E (observing_call record_delivery cv) f) (replicate l (A_step i)) C = Inr D \<and> returned (fc_thr D i)"
proof (induction m arbitrary: C A)
  case 0
  then have "returned (fc_thr C i)" by (cases "fc_thr C i") auto
  then show ?case by (intro exI [of _ 0]) auto
next
  case (Suc m)
  show ?case
  proof (cases "returned (fc_thr C i)")
    case True
    then show ?thesis by (intro exI [of _ 0]) auto
  next
    case False
    from step_progress [OF T Suc.prems(1,2) False, of cv] obtain D B where
      D: "fut_perform E (observing_call record_delivery cv) f (A_step i) C = Inr D" "fut_conf_rel nodes closed refs claimed f D B" "fut_inv B"
        "actions_left (length (af_todo B)) (fc_thr D i) < actions_left (length (af_todo A)) (fc_thr C i)" by blast
    from Suc.IH [OF D(2,3)] D(4) Suc.prems(3) obtain l D' where l: "l \<le> m"
      "run_actions (fut_perform E (observing_call record_delivery cv) f) (replicate l (A_step i)) D = Inr D'" "returned (fc_thr D' i)" by auto
    with D(1) show ?thesis by (intro exI [of _ "Suc l"]) auto
  qed
qed

lemma todo_bound:
  assumes "fut_conf_rel nodes closed refs claimed f C A" and "fut_inv A"
  shows "length (af_todo A) \<le> card (dom (conts (fc_sys C)))"
proof -
  from assms(1) have view: "af_node A = node_view refs claimed (conts (fc_sys C))" and fresh: "\<forall>n\<ge>next_addr (fc_sys C). conts (fc_sys C) n = None"
    by (auto simp: fut_conf_rel_def sys_at_def)
  have "dom (conts (fc_sys C)) \<subseteq> {..<next_addr (fc_sys C)}" using fresh by (auto simp: not_less [symmetric])
  then have fin: "finite (dom (conts (fc_sys C)))" by (rule finite_subset) simp
  have sub: "set (af_todo A) \<subseteq> dom (conts (fc_sys C))" and dist: "distinct (af_todo A)"
    using assms(2) todo_alloc [of A] view by (auto simp: fut_inv_def node_inv_def node_view_def)
  from card_mono [OF fin sub] distinct_card [OF dist] show ?thesis by simp
qed

text \<open>
C4: registering and completing are wait-free: wherever the interleaving has left a thread, its
own next actions alone bring it back from its call, at most six and two for every allocated node,
whatever the other threads were doing when they stopped.
\<close>

theorem future_race_wait_free:
  assumes T: "treiber_laws (env_ts E) nodes closed refs claimed" and s: "race_ready nodes closed s f"
  shows "\<exists>C l D. run_actions (fut_perform E (observing_call record_delivery cv) f) as (fut_start s) = Inr C \<and>
    l \<le> 2 * card (dom (conts (fc_sys C))) + 6 \<and>
    run_actions (fut_perform E (observing_call record_delivery cv) f) (as @ replicate l (A_step i)) (fut_start s) = Inr D \<and>
    returned (fc_thr D i)"
proof -
  obtain C A where run: "run_actions (fut_perform E (observing_call record_delivery cv) f) as (fut_start s) = Inr C"
    and rel: "fut_conf_rel nodes closed refs claimed f C A" and inv: "fut_inv A" by (rule race_run [OF T s])
  have "actions_left (length (af_todo A)) (fc_thr C i) \<le> 2 * card (dom (conts (fc_sys C))) + 6"
    using todo_bound [OF rel inv] by (cases "fc_thr C i") auto
  from run_alone [OF T rel inv this, of cv] run show ?thesis by (auto simp: run_actions_append)
qed

theorem future_race_wait_free_witness:
  "\<exists>l D. run_actions (fut_perform base_env (observing_call record_delivery (\<lambda>_ _ u. u)) 16)
      ([A_then 0 (K_user ''a''), A_step 0, A_complete 1 (error_result 7)] @ replicate l (A_step 1)) (fut_start demo_pending) = Inr D \<and> returned (fc_thr D 1)"
proof -
  have "treiber_laws (env_ts base_env) fst snd fst snd" using list_stack_laws by simp
  from future_race_wait_free [OF this demo_race_ready] show ?thesis by blast
qed

end
