(* ===== verification/Future_Properties.thy ===== *)
theory Future_Properties
  imports Future_Refinement
begin

text \<open>
  Promises, values and waiting: a promise is created completely or not at all, a result that
  comes too late is freed, an abandoned promise fails its future, a value is freed exactly once
  with the last reference, and a thread blocked in \<open>get\<close> is woken by the completion.
\<close>

section \<open>Promises\<close>

text \<open>
C15: creating a promise either succeeds completely, with a pending future without continuations
and waiters that is referenced by the promise and the caller, or every object allocated on the
way has been freed again.
\<close>

theorem promise_create_all_or_nothing:
  assumes "treiber_laws (env_ts E) nodes closed refs claimed" and "fresh_heaps s"
  shows "(\<exists>p f v s'. UfsrvPromiseCreate E True s = Inr (Some (p, f), s') \<and> pending_future nodes closed s' f v [] [] \<and>
      fu_refcount v = 2 \<and> promises s' p = Some \<lparr>pr_future = Some f, pr_is_fulfilled = False\<rparr> \<and>
      futures s f = None \<and> promises s p = None \<and> fresh_heaps s') \<or>
    (\<exists>k. UfsrvPromiseCreate E True s = Inr (None, s\<lparr>next_addr := k\<rparr>))"
proof (cases "\<forall>i<4. sys_ok s (next_addr s + i)")
  case True
  let ?n = "next_addr s"
  have "UfsrvPromiseCreate E True s = Inr (Some (?n + 1, ?n), created E s)"
    by (rule promise_create_ok)
      (use True [rule_format, of 0] True [rule_format, of 1] True [rule_format, of 2] True [rule_format, of 3] in simp_all)
  moreover have "fresh_heaps (created E s)" using assms(2) by (simp add: fresh_heaps_def)
  moreover have "futures s ?n = None" "promises s (?n + 1) = None" using assms(2) by (simp_all add: fresh_heaps_def)
  ultimately show ?thesis using created_pending [OF assms(1), of s]
    by (intro disjI1 exI [of _ "?n + 1"] exI [of _ "?n"] exI [of _ "new_future (?n + 2) (?n + 3)"] exI [of _ "created E s"]) simp
next
  case False
  from promise_create_oom [OF assms(2) this] show ?thesis by blast
qed

theorem promise_create_all_or_nothing_witness:
  "\<exists>k. UfsrvPromiseCreate base_env True (future_init () (\<lambda>n. n < 18) :: (unit, string, addr list, addr list \<times> bool, int \<times> bool) future_sys)
     = Inr (None, (future_init () (\<lambda>n. n < 18))\<lparr>next_addr := k\<rparr>)"
proof -
  let ?s = "future_init () (\<lambda>n. n < 18) :: (unit, string, addr list, addr list \<times> bool, int \<times> bool) future_sys"
  have "fresh_heaps ?s" by (simp add: fresh_heaps_def future_init_defs)
  moreover have "UfsrvPromiseCreate base_env True ?s \<noteq> Inr (Some pf, s')" for pf s'
    by (simp add: UfsrvPromiseCreate_def stack_create_def stack_destroy_def future_init_defs malloc_def bindm_def)
  ultimately show ?thesis
    using promise_create_all_or_nothing [of base_env fst snd fst snd ?s] list_stack_laws by auto
qed

text \<open>
C13: a promise completes its future at most once.  A result set on a promise that was already
fulfilled, or whose future was already completed by a cancellation, is dropped: its destructor
runs exactly once and nothing else changes.
\<close>

theorem late_result_dropped:
  assumes "promises s p = Some q"
    and "pr_is_fulfilled q \<or> (\<exists>f v. pr_future q = Some f \<and> futures s f = Some v \<and> fu_is_completed v)"
  shows "UfsrvPromiseSetResult E (observing_call cu cv) (Some p) r s =
    Inr ((), s\<lparr>promises := (promises s)(p \<mapsto> q\<lparr>pr_is_fulfilled := True\<rparr>), user := drop_user cv r (user s)\<rparr>)"
proof (cases "pr_is_fulfilled q")
  case True
  then show ?thesis using assms(1) by (simp add: UfsrvPromiseSetResult_def)
next
  case False
  with assms(2) obtain f v where f: "pr_future q = Some f" "futures s f = Some v" "fu_is_completed v" by blast
  have "sFutureComplete E (observing_call cu cv) f r (s\<lparr>promises := (promises s)(p \<mapsto> q\<lparr>pr_is_fulfilled := True\<rparr>)\<rparr>) =
      Inr (False, s\<lparr>promises := (promises s)(p \<mapsto> q\<lparr>pr_is_fulfilled := True\<rparr>)\<rparr>)"
    by (rule complete_again [OF _ f(3)]) (simp add: f(2))
  then show ?thesis using assms(1) False f(1) by (simp add: UfsrvPromiseSetResult_def)
qed

theorem late_result_dropped_witness:
  "\<exists>s'. UfsrvPromiseSetResult base_env (observing_call (\<lambda>_ _ _ u. u) (\<lambda>f x u. u @ [(f, x)])) (Some 17)
      \<lparr>res_error = 0, res_value = Some 5, res_free_value = Some F_free\<rparr>
      ((created base_env (future_init [] (\<lambda>_. True)))\<lparr>promises := [17 \<mapsto> \<lparr>pr_future = Some 16, pr_is_fulfilled = True\<rparr>]\<rparr>
        :: (((string fnp \<times> ptr) list, string, addr list, addr list \<times> bool, int \<times> bool) future_sys)) = Inr ((), s') \<and>
    user s' = [(F_free, Some 5)]"
  by (subst late_result_dropped [where q = "\<lparr>pr_future = Some 16, pr_is_fulfilled = True\<rparr>"])
    (simp_all add: drop_user_def future_init_defs)

text \<open>
C14: destroying a promise that was never fulfilled completes its future with \<open>EPIPE\<close>: every
continuation runs once with that error, every blocked thread is woken, the promise is freed and
its reference to the future dropped.
\<close>

theorem abandoned_promise_epipe:
  assumes T: "treiber_laws (env_ts E) nodes closed refs claimed"
    and pend: "pending_future nodes closed s f v cs (map fst ws)" and v: "fu_cancel_handle v = NULL" "fu_refcount v \<noteq> 1"
    and cs: "distinct cs" "\<forall>n\<in>set cs. cont_ready refs claimed s n"
    and ws: "distinct (map fst ws)" "distinct (map snd ws)" "\<forall>(w, fd)\<in>set ws. blocked_waiter refs claimed s w fd"
    and p: "promises s p = Some \<lparr>pr_future = Some f, pr_is_fulfilled = False\<rparr>"
  shows "\<exists>s'. UfsrvPromiseDestroy E (observing_call cu cv) (Some p) s = Inr ((), s') \<and>
    futures s' = (futures s)(f \<mapsto> settled (error_result EPIPE) v) \<and> promises s' = (promises s)(p := None) \<and>
    user s' = deliver cu (error_result EPIPE) (map (cont_entry s) cs) (user s) \<and> conts s' = drop_keys cs (conts s) \<and>
    (\<forall>(w, fd)\<in>set ws. eventfds s' fd = map_option Suc (eventfds s fd))"
proof -
  let ?s1 = "s\<lparr>promises := (promises s)(p \<mapsto> \<lparr>pr_future = Some f, pr_is_fulfilled = True\<rparr>)\<rparr>"
  let ?r = "error_result EPIPE"
  have pend1: "pending_future nodes closed ?s1 f v cs (map fst ws)" using pend by (simp add: pending_future_def)
  have same: "cont_ready refs claimed ?s1 = cont_ready refs claimed s" "cont_entry ?s1 = cont_entry s"
    "blocked_waiter refs claimed ?s1 = blocked_waiter refs claimed s"
    by (simp_all add: cont_ready_def cont_entry_def blocked_waiter_def fun_eq_iff)
  from complete_effect [OF T pend1 v(1) cs(1) _ ws(1,2), of cu cv ?r] cs(2) ws(3) obtain S W F where
    c: "sFutureComplete E (observing_call cu cv) f ?r ?s1 =
      Inr (True, ?s1\<lparr>futures := (futures s)(f \<mapsto> completed ?r v), waiters := W, eventfds := F, stacks := S,
        user := deliver cu ?r (map (cont_entry s) cs) (user s), conts := drop_keys cs (conts s)\<rparr>)"
    and F: "\<forall>(w, fd)\<in>set ws. F fd = map_option Suc (eventfds s fd)"
    unfolding same by (simp add: case_prod_beta del: fun_upd_apply) blast
  let ?s2 = "s\<lparr>waiters := W, eventfds := F, stacks := S, user := deliver cu ?r (map (cont_entry s) cs) (user s),
      conts := drop_keys cs (conts s), futures := (futures s)(f \<mapsto> settled ?r v), promises := (promises s)(p := None)\<rparr>"
  have "UfsrvPromiseDestroy E (observing_call cu cv) (Some p) s = Inr ((), ?s2)"
    using p c v(2) by (simp add: UfsrvPromiseDestroy_def release_not_last settled_def)
  with F show ?thesis by (intro exI [of _ ?s2]) simp
qed

text \<open>A pending future with one continuation (node 20).\<close>

definition demo_then ::
  "((string contfn \<times> ptr \<times> string UfsrvFutureResult option) list, string, addr list, addr list \<times> bool, int \<times> bool) future_sys" where
  "demo_then = demo_pending\<lparr>next_addr := 21, stacks := [18 \<mapsto> ([20], False), 19 \<mapsto> ([], False)],
     conts := [20 \<mapsto> \<lparr>ct_base = (1, False), ct_fn = K_user ''a'', ct_user = Some 3\<rparr>]\<rparr>"

lemma demo_then_facts:
  "pending_future fst snd demo_then 16 (new_future 18 19) [20] (map fst [])" "cont_ready fst snd demo_then 20"
  "promises demo_then 17 = Some \<lparr>pr_future = Some 16, pr_is_fulfilled = False\<rparr>" "user demo_then = []"
  "cont_entry demo_then 20 = (K_user ''a'', Some 3)" "next_addr demo_then = 21" "sys_ok demo_then n"
  "t_current_scheduler demo_then k = NULL" "t_worker_scheduler demo_then k = NULL"
proof -
  show "pending_future fst snd demo_then 16 (new_future 18 19) [20] (map fst [])"
    by (auto simp: demo_then_def demo_pending_def pending_future_def future_init_defs created_def Let_def)
qed (simp_all add: demo_then_def demo_pending_def cont_ready_def cont_entry_def future_init_defs created_def Let_def)

theorem abandoned_promise_epipe_witness:
  "\<exists>s'. UfsrvPromiseDestroy base_env (observing_call record_delivery (\<lambda>_ _ u. u)) (Some 17) demo_then = Inr ((), s') \<and>
     user s' = [(K_user ''a'', Some 3, Some (error_result EPIPE))] \<and> promises s' 17 = None"
  using abandoned_promise_epipe [of base_env fst snd fst snd demo_then 16 "new_future 18 19" "[20]" "[]" 17 record_delivery "\<lambda>_ _ u. u"]
    list_stack_laws demo_then_facts by (auto simp: deliver_record)

section \<open>Values\<close>

text \<open>
A future made from a value is ready at once, \<open>get\<close> returns exactly that value without
blocking, and releasing it runs the value's destructor exactly once and frees every object the
future was made of.
\<close>

lemma from_value_get_release:
  assumes T: "treiber_laws (env_ts E) nodes closed refs claimed" and fresh: "fresh_heaps s"
    and ok: "\<forall>i<4. sys_ok s (next_addr s + i)"
  shows "\<exists>s1 s2. UfsrvFutureFromValue E (observing_call cu cv) x fr s = Inr (Some (next_addr s), s1) \<and>
    UfsrvFutureIsReady (Some (next_addr s)) s1 = Inr (True, s1) \<and>
    UfsrvFutureGet E (Some (next_addr s)) s1 = Inr (\<lparr>res_error = 0, res_value = x, res_free_value = fr\<rparr>, s1) \<and>
    UfsrvFutureRelease E (observing_call cu cv) (Some (next_addr s)) s1 = Inr ((), s2) \<and>
    futures s2 = futures s \<and> promises s2 = promises s \<and> stacks s2 = stacks s \<and>
    user s2 = drop_user cv \<lparr>res_error = 0, res_value = x, res_free_value = fr\<rparr> (user s)"
proof -
  let ?n = "next_addr s"
  let ?r = "\<lparr>res_error = 0, res_value = x, res_free_value = fr\<rparr>"
  let ?v = "new_future (?n + 2) (?n + 3) :: _ UfsrvFuture"
  note L = treiber_lawsD [OF T]
  have create: "UfsrvPromiseCreate E True s = Inr (Some (?n + 1, ?n), created E s)"
    by (rule promise_create_ok)
      (use ok [rule_format, of 0] ok [rule_format, of 1] ok [rule_format, of 2] ok [rule_format, of 3] in simp_all)
  let ?s1 = "(created E s)\<lparr>stacks := drain_stacks E ?v (stacks (created E s)), futures := (futures (created E s))(?n \<mapsto> settled ?r ?v),
      promises := (promises (created E s))(?n + 1 := None)\<rparr>"
  have ful: "fulfil_result E (observing_call cu cv) (Some (?n + 1)) ?r (created E s) = Inr ((), ?s1)"
    by (rule fulfil_quiet [OF T created_pending [OF T]]) simp_all
  have from_value: "UfsrvFutureFromValue E (observing_call cu cv) x fr s = Inr (Some ?n, ?s1)"
  proof -
    have "UfsrvFutureFromValue E (observing_call cu cv) x fr s =
        bindm (fulfil_result E (observing_call cu cv) (Some (?n + 1)) ?r) (\<lambda>_. ret (Some ?n)) (created E s)"
      by (simp add: UfsrvFutureFromValue_def create fulfil_result_def UfsrvPromiseSetValue_def bindm_assoc del: created_simps)
    then show ?thesis using ful by simp
  qed
  have f1: "futures ?s1 ?n = Some (settled ?r ?v)" by simp
  have ready: "UfsrvFutureIsReady (Some ?n) ?s1 = Inr (True, ?s1)" "UfsrvFutureGet E (Some ?n) ?s1 = Inr (?r, ?s1)"
    by (simp_all add: UfsrvFutureIsReady_def UfsrvFutureGet_def)
  let ?s2 = "?s1\<lparr>user := drop_user cv ?r (user s), stacks := (stacks ?s1)(?n + 2 := None, ?n + 3 := None), futures := (futures ?s1)(?n := None)\<rparr>"
  have rel: "UfsrvFutureRelease E (observing_call cu cv) (Some ?n) ?s1 = Inr ((), ?s2)"
    using release_last [OF T f1, where a = "?n + 2" and b = "?n + 3" and cu = cu and cv = cv] L by (simp add: drain_stacks_def)
  have "futures s ?n = None" "promises s (?n + 1) = None" "stacks s (?n + 2) = None" "stacks s (?n + 3) = None"
    using fresh by (simp_all add: fresh_heaps_def)
  then have "futures ?s2 = futures s" "promises ?s2 = promises s" "stacks ?s2 = stacks s" "user ?s2 = drop_user cv ?r (user s)"
    by (auto simp: drain_stacks_def fun_eq_iff)
  with from_value ready rel show ?thesis by blast
qed

section \<open>Waiting\<close>

text \<open>
C12: completing a future wakes every blocked thread exactly once (its eventfd is written once and
its waiter survives with the thread's own reference), runs every continuation once with the
result, most recent first, frees the continuations and closes both lists.
\<close>

theorem completion_wakes_and_delivers:
  assumes "treiber_laws (env_ts E) nodes closed refs claimed"
    and "pending_future nodes closed s f v cs (map fst ws)" and "fu_cancel_handle v = NULL"
    and "distinct cs" and "\<forall>n\<in>set cs. cont_ready refs claimed s n"
    and "distinct (map fst ws)" and "distinct (map snd ws)" and "\<forall>(w, fd)\<in>set ws. blocked_waiter refs claimed s w fd"
  shows "\<exists>s'. sFutureComplete E (observing_call cu cv) f r s = Inr (True, s') \<and> futures s' = (futures s)(f \<mapsto> completed r v) \<and>
    user s' = deliver cu r (map (cont_entry s) cs) (user s) \<and> conts s' = drop_keys cs (conts s) \<and>
    (\<forall>(w, fd)\<in>set ws. eventfds s' fd = map_option Suc (eventfds s fd) \<and> woken_waiter refs claimed s' w fd) \<and>
    (\<forall>a. Some a = fu_continuations v \<or> Some a = fu_waiters v \<longrightarrow> (\<exists>t. stacks s' a = Some t \<and> closed t \<and> nodes t = []))"
proof -
  from complete_effect [OF assms, of cu cv r] obtain S W F where
    run: "sFutureComplete E (observing_call cu cv) f r s = Inr (True, s\<lparr>futures := (futures s)(f \<mapsto> completed r v), waiters := W,
        eventfds := F, stacks := S, user := deliver cu r (map (cont_entry s) cs) (user s), conts := drop_keys cs (conts s)\<rparr>)"
    and S: "\<forall>a. Some a = fu_continuations v \<or> Some a = fu_waiters v \<longrightarrow> (\<exists>t. S a = Some t \<and> closed t \<and> nodes t = [])"
    and F: "\<forall>(w, fd)\<in>set ws. F fd = map_option Suc (eventfds s fd) \<and> woken_waiter refs claimed (s\<lparr>waiters := W, eventfds := F\<rparr>) w fd"
    by blast
  let ?s = "s\<lparr>futures := (futures s)(f \<mapsto> completed r v), waiters := W, eventfds := F, stacks := S,
      user := deliver cu r (map (cont_entry s) cs) (user s), conts := drop_keys cs (conts s)\<rparr>"
  have "woken_waiter refs claimed ?s = woken_waiter refs claimed (s\<lparr>waiters := W, eventfds := F\<rparr>)"
    by (simp add: woken_waiter_def fun_eq_iff)
  then have "\<forall>(w, fd)\<in>set ws. eventfds ?s fd = map_option Suc (eventfds s fd) \<and> woken_waiter refs claimed ?s w fd"
    using F by simp
  with run S show ?thesis by (intro exI [of _ ?s]) simp
qed

theorem completion_wakes_and_delivers_witness:
  "\<exists>s'. sFutureComplete base_env (observing_call record_delivery (\<lambda>_ _ u. u)) 16 (error_result 7)
      (demo_then\<lparr>waiters := [30 \<mapsto> \<lparr>wt_base = (2, False), wt_coroutine = NULL, wt_scheduler = NULL, wt_block_fd = 31, wt_cancel_handle = NULL\<rparr>],
         eventfds := [31 \<mapsto> 0], stacks := [18 \<mapsto> ([20], False), 19 \<mapsto> ([30], False)]\<rparr>) = Inr (True, s') \<and>
    user s' = [(K_user ''a'', Some 3, Some (error_result 7))] \<and> eventfds s' 31 = Some 1"
proof -
  let ?s = "demo_then\<lparr>waiters := [30 \<mapsto> \<lparr>wt_base = (2, False), wt_coroutine = NULL, wt_scheduler = NULL, wt_block_fd = 31, wt_cancel_handle = NULL\<rparr>],
         eventfds := [31 \<mapsto> 0], stacks := [18 \<mapsto> ([20], False), 19 \<mapsto> ([30], False)]\<rparr>"
  have "pending_future fst snd ?s 16 (new_future 18 19) [20] (map fst [(30, 31)])" "blocked_waiter fst snd ?s 30 31"
    "cont_ready fst snd ?s 20" "cont_entry ?s 20 = (K_user ''a'', Some 3)" "user ?s = []"
    using demo_then_facts by (auto simp: pending_future_def blocked_waiter_def cont_ready_def cont_entry_def)
  then show ?thesis
    using completion_wakes_and_delivers [of base_env fst snd fst snd ?s 16 "new_future 18 19" "[20]" "[(30, 31)]"
        record_delivery "\<lambda>_ _ u. u" "error_result 7"] list_stack_laws
    by (auto simp: deliver_record)
qed

text \<open>
\<open>get\<close> on a plain thread blocks on a pending future until another thread sets the promise,
then returns exactly that result; its waiter is freed and its eventfd closed.
\<close>

lemma get_blocks_until_set:
  assumes T: "treiber_laws (env_ts E) nodes closed refs claimed"
    and pend: "pending_future nodes closed s f v cs []" and v: "fu_cancel_handle v = NULL"
    and cs: "distinct cs" "\<forall>n\<in>set cs. cont_ready refs claimed s n"
    and p: "promises s p = Some \<lparr>pr_future = Some f, pr_is_fulfilled = False\<rparr>"
    and plain: "t_current_scheduler s (cur_thread s) = NULL" "t_worker_scheduler s (cur_thread s) = NULL"
    and ok: "sys_ok s (next_addr s)" "sys_ok s (Suc (next_addr s))" and fuel: "env_fuel E = Suc fuel"
  shows "\<exists>s'. UfsrvFutureGet (E\<lparr>env_wait := bindm (UfsrvPromiseSetResult E (observing_call cu cv) (Some p) r) (\<lambda>_. ret False)\<rparr>)
      (Some f) s = Inr (r, s') \<and> futures s' f = Some (completed r v) \<and>
    user s' = deliver cu r (map (cont_entry s) cs) (user s) \<and>
    waiters s' (next_addr s) = None \<and> eventfds s' (int (Suc (next_addr s))) = None"
proof -
  let ?n = "next_addr s" and ?fd = "int (Suc (next_addr s))"
  let ?E = "E\<lparr>env_wait := bindm (UfsrvPromiseSetResult E (observing_call cu cv) (Some p) r) (\<lambda>_. ret False)\<rparr>"
  note L = treiber_lawsD [OF T]
  from pend obtain a b ta tb where st: "futures s f = Some v" "\<not> fu_is_completed v" "fu_state v = UFSRV_FUTURE_PENDING"
      "fu_continuations v = Some a" "fu_waiters v = Some b" "a \<noteq> b" "stacks s a = Some ta" "stacks s b = Some tb"
      "\<not> closed ta" "\<not> closed tb" "nodes ta = cs" "nodes tb = []"
    by (auto simp: pending_future_def)
  let ?w = "\<lparr>wt_base = tn_init (env_ts E), wt_coroutine = NULL, wt_scheduler = NULL, wt_block_fd = ?fd, wt_cancel_handle = NULL\<rparr>"
  let ?s1 = "s\<lparr>next_addr := Suc (Suc ?n), eventfds := (eventfds s)(?fd \<mapsto> 0), waiters := (waiters s)(?n \<mapsto> ?w),
      stacks := (stacks s)(b \<mapsto> snd (ts_push (env_ts E) ?n tb)), promises := (promises s)(p \<mapsto> \<lparr>pr_future = Some f, pr_is_fulfilled = True\<rparr>)\<rparr>"
  have pend1: "pending_future nodes closed ?s1 f v cs (map fst [(?n, ?fd)])" using st L by (simp add: pending_future_def)
  have bw: "\<forall>(w, fd)\<in>set [(?n, ?fd)]. blocked_waiter refs claimed ?s1 w fd" using L by (simp add: blocked_waiter_def)
  have ready: "\<forall>m\<in>set cs. cont_ready refs claimed ?s1 m" "cont_entry ?s1 = cont_entry s"
    using cs(2) by (auto simp: cont_ready_def cont_entry_def fun_eq_iff)
  from complete_effect [OF T pend1 v cs(1) ready(1) _ _ bw, of cu cv r] obtain S W F where
    c: "sFutureComplete E (observing_call cu cv) f r ?s1 =
      Inr (True, ?s1\<lparr>futures := (futures ?s1)(f \<mapsto> completed r v), waiters := W, eventfds := F, stacks := S,
        user := deliver cu r (map (cont_entry ?s1) cs) (user ?s1), conts := drop_keys cs (conts ?s1)\<rparr>)"
    and F: "F ?fd = Some 1" and W: "woken_waiter refs claimed (?s1\<lparr>waiters := W, eventfds := F\<rparr>) ?n ?fd"
    by (auto simp del: fun_upd_apply) (auto simp: fun_upd_apply)
  from W obtain c' where c': "W ?n = Some c'" "wt_block_fd c' = ?fd" "refs (wt_base c') = 1" by (auto simp: woken_waiter_def)
  let ?u = "deliver cu r (map (cont_entry s) cs) (user s)"
  let ?s2 = "?s1\<lparr>futures := (futures s)(f \<mapsto> completed r v), stacks := S, user := ?u, conts := drop_keys cs (conts s),
      eventfds := (F(?fd \<mapsto> 0))(?fd := None), waiters := (W(?n \<mapsto> c'\<lparr>wt_base := snd (tn_release (env_ts E) (wt_base c'))\<rparr>))(?n := None)\<rparr>"
  have "UfsrvFutureGet ?E (Some f) s = sFutureGetBlocking ?E f s"
    using st plain by (simp add: UfsrvFutureGet_def UfsrvCoroutineCurrentScheduler_def UfsrvSchedulerIsOnWorkerThread_def)
  also have "\<dots> = Inr (r, ?s2)"
    using st ok p fuel c F c' L(3,14) ready(2)
    by (simp add: sFutureGetBlocking_def eventfd_def push_waiter_def stack_push_def UfsrvPromiseSetResult_def
        eventfd_close_def waiter_release_def read_result_def)
  finally show ?thesis by (intro exI [of _ ?s2]) simp
qed

end
