(* ===== verification/Future_Wait_Conc.thy ===== *)
theory Future_Wait_Conc
  imports Future_Conc Future_Properties
begin

text \<open>
  Blocking and completing under concurrency: any number of plain threads in
  \<^verbatim>\<open>UfsrvFutureGet\<close> and any number of threads that complete the future, interleaved at their
  atomic actions.  A getting thread allocates a waiter with an eventfd, pushes it and sleeps in
  \<^verbatim>\<open>read\<close>; the completing thread steals the waiters, claims, wakes and releases each of them.
  Both own references to the waiter, and the last one frees it.
\<close>

section \<open>Segments of the code\<close>

definition wait_alloc :: "('u, 'c, 'q, 't, 'n, 'z) fenv \<Rightarrow> ('u, 'c, 'q, 't, 'n, 'z, (addr \<times> int) option) fprog" where
  "wait_alloc E =
     bindm malloc (\<lambda>wp.
     case wp of
       None \<Rightarrow> ret None
     | Some w \<Rightarrow>
         bindm eventfd (\<lambda>fd.
         if fd < 0 then ret None
         else
           bindm (new_obj waiters waiters_update w
             \<lparr>wt_base = tn_init (env_ts E), wt_coroutine = NULL, wt_scheduler = NULL, wt_block_fd = fd,
              wt_cancel_handle = NULL\<rparr>) (\<lambda>_.
           ret (Some (w, fd)))))"

text \<open>A \<^verbatim>\<open>read\<close> of the eventfd: whether it returns now.\<close>

definition try_read :: "int \<Rightarrow> ('u, 'c, 'q, 't, 'n, 'z, bool) fprog" where
  "try_read fd =
     bindm (gets (\<lambda>s. eventfds s fd)) (\<lambda>v.
     case v of
       None \<Rightarrow> ret True
     | Some k \<Rightarrow>
         if k = 0 then ret False
         else bindm (modify (\<lambda>s. s\<lparr>eventfds := (eventfds s)(fd \<mapsto> 0)\<rparr>)) (\<lambda>_. ret True))"

definition wait_close :: "addr \<Rightarrow> ('u, 'c, 'q, 't, 'n, 'z, unit) fprog" where
  "wait_close w = bindm (waiter_at w) (\<lambda>c. eventfd_close (wt_block_fd c))"

definition wait_release :: "('u, 'c, 'q, 't, 'n, 'z) fenv \<Rightarrow> addr \<Rightarrow> ('u, 'c, 'q, 't, 'n, 'z, unit) fprog" where
  "wait_release E w = bindm (waiter_release E w) (\<lambda>last. if last then free_waiter w else ret ())"

definition steal_waiters :: "('u, 'c, 'q, 't, 'n, 'z) fenv \<Rightarrow> addr \<Rightarrow> ('u, 'c, 'q, 't, 'n, 'z, addr list) fprog" where
  "steal_waiters E f = bindm (future_at f) (\<lambda>v. stack_steal_all_and_close E (fu_waiters v))"

text \<open>The functions are the segments, one after the other.\<close>

lemma read_eventfd_segments:
  "read_eventfd E (Suc n) fd =
     bindm (env_wait E) (\<lambda>interrupted.
     if interrupted then read_eventfd E n fd
     else bindm (try_read fd) (\<lambda>woken. if woken then ret () else fail Deadlock))"
  by (rule ext) (auto simp: try_read_def bindm_def split: sum.split prod.split option.split)

lemma sFutureGetBlocking_segments:
  "sFutureGetBlocking E f =
     bindm (wait_alloc E) (\<lambda>p.
     case p of
       None \<Rightarrow> ret (error_result (- 1))
     | Some (w, fd) \<Rightarrow>
         bindm (push_waiter E f w) (\<lambda>pushed.
         if \<not> pushed then
           bindm (eventfd_close fd) (\<lambda>_. bindm (sWaiterDiscard E w) (\<lambda>_. read_result f))
         else
           bindm (read_eventfd E (env_fuel E) fd) (\<lambda>_.
           bindm (wait_close w) (\<lambda>_. bindm (wait_release E w) (\<lambda>_. read_result f)))))"
  by (rule ext) (simp add: sFutureGetBlocking_def wait_alloc_def wait_close_def wait_release_def bindm_assoc bindm_branch
      cong: if_cong option.case_cong)

lemma UfsrvFutureGet_segments:
  assumes "t_current_scheduler s (cur_thread s) = NULL" and "UfsrvSchedulerIsOnWorkerThread s = Inr (False, s)"
  shows "UfsrvFutureGet E (Some f) s = bindm (then_check f) (\<lambda>ready. if ready then read_result f else sFutureGetBlocking E f) s"
  using assms by (cases "futures s f") (simp_all add: UfsrvFutureGet_def then_check_def read_result_def UfsrvCoroutineCurrentScheduler_def)

lemma drain_waiters_loop_segments:
  "drain_waiters_loop E (w # ws) =
     bindm (waiter_claim E w) (\<lambda>won.
     bindm (if won then wake_waiter E w else ret ()) (\<lambda>_. bindm (wait_release E w) (\<lambda>_. drain_waiters_loop E ws)))"
  by (rule ext) (simp add: wait_release_def bindm_def split: sum.split prod.split)

lemma sDrainWaiters_segments: "sDrainWaiters E f = bindm (steal_waiters E f) (drain_waiters_loop E)"
  by (simp add: sDrainWaiters_def steal_waiters_def bindm_assoc)

section \<open>Interleaving the code\<close>

text \<open>
  Where a thread is in \<open>UfsrvFutureGet\<close> (about to allocate, to push, to close the eventfd and
  discard the waiter after a refused push, asleep in \<^verbatim>\<open>read\<close>, about to close the eventfd, to
  release the waiter, to read the result, returned) or in \<open>sFutureComplete\<close> (about to store, to
  publish, to take the cancellation handle, to steal the waiters, to claim, wake and release the
  next one, to drain the continuations, returned).
\<close>

datatype 'c wpc =
    W_idle
  | W_alloc | W_push addr int | W_close addr int | W_discard addr
  | W_sleep addr int | W_awake addr int | W_release addr | W_result | W_done "'c UfsrvFutureResult"
  | D_store "'c UfsrvFutureResult" | D_publish | D_handle | D_steal
  | D_drain "addr list" | D_wake addr "addr list" | D_free addr "addr list" | D_conts | D_done bool

type_synonym ('u, 'c, 'q, 't, 'n, 'z) wait_conf = "(('u, 'c, 'q, 't, 'n, 'z) future_sys_scheme, 'c wpc) conf"

datatype 'c wait_act = A_get nat | A_fulfil nat "'c UfsrvFutureResult" | A_move nat

fun wpc_step ::
  "('u, 'c, 'q, 't, 'n, 'z) fenv \<Rightarrow> ('u, 'c, 'q, 't, 'n, 'z) fcall \<Rightarrow> addr \<Rightarrow> 'c wpc \<Rightarrow>
   ('u, 'c, 'q, 't, 'n, 'z, 'c wpc) fprog" where
  "wpc_step E call f W_alloc =
     bindm (wait_alloc E) (\<lambda>p. ret (case p of None \<Rightarrow> W_done (error_result (- 1)) | Some (w, fd) \<Rightarrow> W_push w fd))"
| "wpc_step E call f (W_push w fd) =
     bindm (push_waiter E f w) (\<lambda>pushed. ret (if pushed then W_sleep w fd else W_close w fd))"
| "wpc_step E call f (W_close w fd) = bindm (eventfd_close fd) (\<lambda>_. ret (W_discard w))"
| "wpc_step E call f (W_discard w) = bindm (sWaiterDiscard E w) (\<lambda>_. ret W_result)"
| "wpc_step E call f (W_sleep w fd) = bindm (try_read fd) (\<lambda>woken. ret (if woken then W_awake w fd else W_sleep w fd))"
| "wpc_step E call f (W_awake w fd) = bindm (wait_close w) (\<lambda>_. ret (W_release w))"
| "wpc_step E call f (W_release w) = bindm (wait_release E w) (\<lambda>_. ret W_result)"
| "wpc_step E call f W_result = bindm (read_result f) (\<lambda>r. ret (W_done r))"
| "wpc_step E call f (D_store r) = bindm (complete_store f r) (\<lambda>_. ret D_publish)"
| "wpc_step E call f D_publish = bindm (complete_publish f) (\<lambda>_. ret D_handle)"
| "wpc_step E call f D_handle = bindm (complete_handle E call f) (\<lambda>_. ret D_steal)"
| "wpc_step E call f D_steal = bindm (steal_waiters E f) (\<lambda>ws. ret (D_drain ws))"
| "wpc_step E call f (D_drain []) = ret D_conts"
| "wpc_step E call f (D_drain (w # ws)) = bindm (waiter_claim E w) (\<lambda>won. ret (if won then D_wake w ws else D_free w ws))"
| "wpc_step E call f (D_wake w ws) = bindm (wake_waiter E w) (\<lambda>_. ret (D_free w ws))"
| "wpc_step E call f (D_free w ws) = bindm (wait_release E w) (\<lambda>_. ret (D_drain ws))"
| "wpc_step E call f D_conts = bindm (sDrainContinuations E call f) (\<lambda>_. ret (D_done True))"
| "wpc_step E call f pc = ret pc"

fun wait_perform ::
  "('u, 'c, 'q, 't, 'n, 'z) fenv \<Rightarrow> ('u, 'c, 'q, 't, 'n, 'z) fcall \<Rightarrow> addr \<Rightarrow> 'c wait_act \<Rightarrow>
   ('u, 'c, 'q, 't, 'n, 'z) wait_conf \<Rightarrow> fault + ('u, 'c, 'q, 't, 'n, 'z) wait_conf" where
  "wait_perform E call f (A_get i) C =
     (if fc_thr C i = W_idle
      then advance i (bindm (then_check f) (\<lambda>ready. ret (if ready then W_result else W_alloc))) C
      else Inr C)"
| "wait_perform E call f (A_fulfil i r) C =
     (if fc_thr C i = W_idle
      then advance i (bindm (complete_exchange f) (\<lambda>won. ret (if won then D_store r else D_done False))) C
      else Inr C)"
| "wait_perform E call f (A_move i) C = advance i (wpc_step E call f (fc_thr C i)) C"

section \<open>The abstract machine\<close>

text \<open>
  For every waiter its owner, its eventfd, its reference count and whether it was claimed; for
  every eventfd its owner and its counter; the stack; who won the completion; whether an
  allocation has failed.
\<close>

record 'c await =
  aw_thr :: "nat \<Rightarrow> 'c wpc"
  aw_node :: "addr \<rightharpoonup> nat \<times> int \<times> int \<times> bool"
  aw_fd :: "int \<rightharpoonup> nat \<times> nat"
  aw_stack :: "addr list"
  aw_closed :: bool
  aw_win :: "nat option"
  aw_res :: "'c UfsrvFutureResult"
  aw_ready :: bool
  aw_oom :: bool

abbreviation wgo :: "nat \<Rightarrow> 'c wpc \<Rightarrow> 'c await \<Rightarrow> 'c await" where
  "wgo i pc A \<equiv> A\<lparr>aw_thr := (aw_thr A)(i := pc)\<rparr>"

definition drop_waiter :: "addr \<Rightarrow> (addr \<rightharpoonup> nat \<times> int \<times> int \<times> bool) \<Rightarrow> (addr \<rightharpoonup> nat \<times> int \<times> int \<times> bool)" where
  "drop_waiter n N =
     (case N n of None \<Rightarrow> N | Some (i, x, rc, b) \<Rightarrow> N(n := if rc = 1 then None else Some (i, x, rc - 1, b)))"

inductive w_step :: "'c await \<Rightarrow> 'c await \<Rightarrow> bool" where
  w_get: "aw_thr A i = W_idle \<Longrightarrow> w_step A (wgo i (if aw_ready A then W_result else W_alloc) A)"
| w_alloc: "aw_thr A i = W_alloc \<Longrightarrow> aw_node A n = None \<Longrightarrow> aw_fd A x = None \<Longrightarrow> 0 \<le> x \<Longrightarrow>
    w_step A (wgo i (W_push n x) (A\<lparr>aw_node := (aw_node A)(n \<mapsto> (i, x, 2, False)), aw_fd := (aw_fd A)(x \<mapsto> (i, 0))\<rparr>))"
| w_nomem: "aw_thr A i = W_alloc \<Longrightarrow> w_step A (wgo i (W_done (error_result (- 1))) (A\<lparr>aw_oom := True\<rparr>))"
| w_push: "aw_thr A i = W_push n x \<Longrightarrow> \<not> aw_closed A \<Longrightarrow> w_step A (wgo i (W_sleep n x) (A\<lparr>aw_stack := n # aw_stack A\<rparr>))"
| w_refused: "aw_thr A i = W_push n x \<Longrightarrow> aw_closed A \<Longrightarrow> w_step A (wgo i (W_close n x) A)"
| w_close: "aw_thr A i = W_close n x \<Longrightarrow> w_step A (wgo i (W_discard n) (A\<lparr>aw_fd := (aw_fd A)(x := None)\<rparr>))"
| w_discard: "aw_thr A i = W_discard n \<Longrightarrow> w_step A (wgo i W_result (A\<lparr>aw_node := (aw_node A)(n := None)\<rparr>))"
| w_read: "aw_thr A i = W_sleep n x \<Longrightarrow> aw_fd A x = Some (j, Suc c) \<Longrightarrow>
    w_step A (wgo i (W_awake n x) (A\<lparr>aw_fd := (aw_fd A)(x \<mapsto> (j, 0))\<rparr>))"
| w_awake: "aw_thr A i = W_awake n x \<Longrightarrow> w_step A (wgo i (W_release n) (A\<lparr>aw_fd := (aw_fd A)(x := None)\<rparr>))"
| w_release: "aw_thr A i = W_release n \<Longrightarrow> w_step A (wgo i W_result (A\<lparr>aw_node := drop_waiter n (aw_node A)\<rparr>))"
| w_result: "aw_thr A i = W_result \<Longrightarrow> w_step A (wgo i (W_done (aw_res A)) A)"
| w_win: "aw_thr A i = W_idle \<Longrightarrow> aw_win A = None \<Longrightarrow> w_step A (wgo i (D_store r) (A\<lparr>aw_win := Some i\<rparr>))"
| w_lose: "aw_thr A i = W_idle \<Longrightarrow> aw_win A \<noteq> None \<Longrightarrow> w_step A (wgo i (D_done False) A)"
| w_store: "aw_thr A i = D_store r \<Longrightarrow> w_step A (wgo i D_publish (A\<lparr>aw_res := r\<rparr>))"
| w_publish: "aw_thr A i = D_publish \<Longrightarrow> w_step A (wgo i D_handle (A\<lparr>aw_ready := True\<rparr>))"
| w_handle: "aw_thr A i = D_handle \<Longrightarrow> w_step A (wgo i D_steal A)"
| w_steal: "aw_thr A i = D_steal \<Longrightarrow> w_step A (wgo i (D_drain (aw_stack A)) (A\<lparr>aw_closed := True, aw_stack := []\<rparr>))"
| w_drained: "aw_thr A i = D_drain [] \<Longrightarrow> w_step A (wgo i D_conts A)"
| w_claim: "aw_thr A i = D_drain (n # ns) \<Longrightarrow> aw_node A n = Some (j, x, rc, False) \<Longrightarrow>
    w_step A (wgo i (D_wake n ns) (A\<lparr>aw_node := (aw_node A)(n \<mapsto> (j, x, rc, True))\<rparr>))"
| w_wake: "aw_thr A i = D_wake n ns \<Longrightarrow> aw_node A n = Some (j, x, rc, b) \<Longrightarrow> aw_fd A x = Some (l, c) \<Longrightarrow>
    w_step A (wgo i (D_free n ns) (A\<lparr>aw_fd := (aw_fd A)(x \<mapsto> (l, Suc c))\<rparr>))"
| w_free: "aw_thr A i = D_free n ns \<Longrightarrow> w_step A (wgo i (D_drain ns) (A\<lparr>aw_node := drop_waiter n (aw_node A)\<rparr>))"
| w_conts: "aw_thr A i = D_conts \<Longrightarrow> w_step A (wgo i (D_done True) A)"

section \<open>One winner\<close>

fun w_won :: "'c wpc \<Rightarrow> bool" where
  "w_won (D_store r) = True" | "w_won D_publish = True" | "w_won D_handle = True" | "w_won D_steal = True" | "w_won (D_drain ns) = True"
| "w_won (D_wake n ns) = True" | "w_won (D_free n ns) = True" | "w_won D_conts = True" | "w_won (D_done b) = b" | "w_won pc = False"

fun w_stolen :: "'c wpc \<Rightarrow> bool" where
  "w_stolen (D_drain ns) = True" | "w_stolen (D_wake n ns) = True" | "w_stolen (D_free n ns) = True" | "w_stolen D_conts = True"
| "w_stolen (D_done b) = b" | "w_stolen pc = False"

definition w_published :: "'c wpc \<Rightarrow> bool" where
  "w_published pc \<longleftrightarrow> pc = D_handle \<or> pc = D_steal \<or> w_stolen pc"

lemma w_published_simps [simp]: "w_stolen pc \<Longrightarrow> w_published pc" "w_published D_handle" "w_published D_steal" "\<not> w_published W_idle"
    "\<not> w_published (D_store r)" "\<not> w_published D_publish"
  by (auto simp: w_published_def)

text \<open>Where the winner is, and the waiters that are linked, still asleep and still unclaimed.\<close>

definition wpos :: "'c await \<Rightarrow> 'c wpc" where
  "wpos A = (case aw_win A of None \<Rightarrow> W_idle | Some i \<Rightarrow> aw_thr A i)"

fun linked_pc :: "'c wpc \<Rightarrow> addr list" where
  "linked_pc (D_drain ns) = ns" | "linked_pc (D_wake n ns) = n # ns" | "linked_pc (D_free n ns) = n # ns" | "linked_pc pc = []"

fun asleep_pc :: "'c wpc \<Rightarrow> addr list" where
  "asleep_pc (D_drain ns) = ns" | "asleep_pc (D_wake n ns) = n # ns" | "asleep_pc (D_free n ns) = ns" | "asleep_pc pc = []"

fun unclaimed_pc :: "'c wpc \<Rightarrow> addr list" where
  "unclaimed_pc (D_drain ns) = ns" | "unclaimed_pc (D_wake n ns) = ns" | "unclaimed_pc (D_free n ns) = ns" | "unclaimed_pc pc = []"

definition linked :: "'c await \<Rightarrow> addr set" where "linked A = set (aw_stack A @ linked_pc (wpos A))"
definition asleep :: "'c await \<Rightarrow> addr set" where "asleep A = set (aw_stack A @ asleep_pc (wpos A))"
definition unclaimed :: "'c await \<Rightarrow> addr set" where "unclaimed A = set (aw_stack A @ unclaimed_pc (wpos A))"

lemma asleep_linked: "n \<in> asleep A \<Longrightarrow> n \<in> linked A"
  by (cases "wpos A") (auto simp: asleep_def linked_def)

definition w_win_inv :: "'c await \<Rightarrow> bool" where
  "w_win_inv A \<longleftrightarrow>
     (\<forall>i. w_won (aw_thr A i) \<longleftrightarrow> aw_win A = Some i) \<and> (aw_ready A \<longleftrightarrow> w_published (wpos A)) \<and>
     (aw_closed A \<longleftrightarrow> w_stolen (wpos A)) \<and> (aw_closed A \<longrightarrow> aw_stack A = [])"

lemma wpos_upd [simp]:
  "wpos (A\<lparr>aw_node := N\<rparr>) = wpos A" "wpos (A\<lparr>aw_fd := F\<rparr>) = wpos A" "wpos (A\<lparr>aw_stack := ns\<rparr>) = wpos A"
  "wpos (A\<lparr>aw_closed := b\<rparr>) = wpos A" "wpos (A\<lparr>aw_res := r\<rparr>) = wpos A" "wpos (A\<lparr>aw_ready := b\<rparr>) = wpos A" "wpos (A\<lparr>aw_oom := b\<rparr>) = wpos A"
  by (simp_all add: wpos_def split: option.split)

lemma wpos_winner: "aw_win A = Some i \<Longrightarrow> wpos A = aw_thr A i"
  by (simp add: wpos_def)

lemma wpos_other: "aw_win A \<noteq> Some i \<Longrightarrow> wpos (wgo i pc A) = wpos A"
  by (auto simp: wpos_def split: option.split)

lemma w_win_other:
  assumes "w_win_inv A" and "\<not> w_won (aw_thr A i)" and "\<not> w_won pc"
    and B: "aw_thr B = (aw_thr A)(i := pc)" "aw_win B = aw_win A" "aw_ready B = aw_ready A" "aw_closed B = aw_closed A" "aw_stack B = aw_stack A \<or> \<not> aw_closed A"
  shows "w_win_inv B" "wpos B = wpos A"
proof -
  have ne: "aw_win A \<noteq> Some i" using assms(1,2) by (auto simp: w_win_inv_def)
  then show *: "wpos B = wpos A" using B by (auto simp: wpos_def split: option.split)
  have "aw_closed A \<longrightarrow> aw_stack B = []" using assms(1) B(5) by (auto simp: w_win_inv_def)
  with assms(1,3) ne B(1-4) show "w_win_inv B" unfolding w_win_inv_def * by simp
qed

lemma w_win_winner:
  assumes "w_win_inv A" and "aw_win A = Some i" and "w_won pc" and B: "aw_thr B = (aw_thr A)(i := pc)" "aw_win B = aw_win A"
    "aw_ready B = w_published pc" "aw_closed B = w_stolen pc" "w_stolen pc \<longrightarrow> aw_stack B = []"
  shows "w_win_inv B" "wpos B = pc"
proof -
  show *: "wpos B = pc" using assms(2) B by (simp add: wpos_def)
  show "w_win_inv B" using assms B unfolding w_win_inv_def * by auto
qed

lemma w_winnerD:
  assumes "w_win_inv A" and "w_won (aw_thr A i)"
  shows "aw_win A = Some i" "wpos A = aw_thr A i" "aw_ready A = w_published (aw_thr A i)" "aw_closed A = w_stolen (aw_thr A i)"
    "w_stolen (aw_thr A i) \<longrightarrow> aw_stack A = []"
  using assms by (auto simp: w_win_inv_def wpos_winner)

lemma w_win_step: "w_step A B \<Longrightarrow> w_win_inv A \<Longrightarrow> w_win_inv B"
proof (induction rule: w_step.induct)
  case (w_win A i r)
  then have "wpos A = W_idle" "\<And>j. \<not> w_won (aw_thr A j)" by (auto simp: w_win_inv_def wpos_def)
  with w_win show ?case by (auto simp: w_win_inv_def wpos_def)
next
  case (w_store A i r)
  then show ?case using w_winnerD [of A i] by - (rule w_win_winner [of A i D_publish], simp_all)
next
  case (w_publish A i)
  then show ?case using w_winnerD [of A i] by - (rule w_win_winner [of A i D_handle], simp_all)
next
  case (w_handle A i)
  then show ?case using w_winnerD [of A i] by - (rule w_win_winner [of A i D_steal], simp_all)
next
  case (w_steal A i)
  then show ?case using w_winnerD [of A i] by - (rule w_win_winner [of A i "D_drain (aw_stack A)"], simp_all)
next
  case (w_drained A i)
  then show ?case using w_winnerD [of A i] by - (rule w_win_winner [of A i D_conts], simp_all)
next
  case (w_claim A i n ns j x rc)
  then show ?case using w_winnerD [of A i] by - (rule w_win_winner [of A i "D_wake n ns"], simp_all)
next
  case (w_wake A i n ns j x rc b l c)
  then show ?case using w_winnerD [of A i] by - (rule w_win_winner [of A i "D_free n ns"], simp_all)
next
  case (w_free A i n ns)
  then show ?case using w_winnerD [of A i] by - (rule w_win_winner [of A i "D_drain ns"], simp_all)
next
  case (w_conts A i)
  then show ?case using w_winnerD [of A i] by - (rule w_win_winner [of A i "D_done True"], simp_all)
qed (erule w_win_other; simp)+

section \<open>Waiters and eventfds\<close>

fun w_held :: "'c wpc \<Rightarrow> addr option" where
  "w_held (W_push n x) = Some n" | "w_held (W_close n x) = Some n" | "w_held (W_discard n) = Some n"
| "w_held (W_sleep n x) = Some n" | "w_held (W_awake n x) = Some n" | "w_held (W_release n) = Some n" | "w_held pc = None"

fun fd_of :: "'c wpc \<Rightarrow> int option" where
  "fd_of (W_push n x) = Some x" | "fd_of (W_close n x) = Some x" | "fd_of (W_sleep n x) = Some x" | "fd_of (W_awake n x) = Some x"
| "fd_of pc = None"

text \<open>
  What thread \<open>i\<close> knows at each position.  A private waiter has two references, a pushed one has
  one for its owner and one while it is linked; the eventfd of a sleeping thread was written
  exactly when its waiter is no longer to be woken, and then the result is published.
\<close>

fun thr_ok :: "'c await \<Rightarrow> nat \<Rightarrow> 'c wpc \<Rightarrow> bool" where
  "thr_ok A i (W_push n x) \<longleftrightarrow> aw_node A n = Some (i, x, 2, False) \<and> n \<notin> linked A \<and> aw_fd A x = Some (i, 0)"
| "thr_ok A i (W_close n x) \<longleftrightarrow> (\<exists>b. aw_node A n = Some (i, x, 2, b)) \<and> n \<notin> linked A \<and> aw_fd A x = Some (i, 0) \<and> aw_ready A"
| "thr_ok A i (W_discard n) \<longleftrightarrow> (\<exists>x b. aw_node A n = Some (i, x, 2, b)) \<and> n \<notin> linked A \<and> aw_ready A"
| "thr_ok A i (W_sleep n x) \<longleftrightarrow> (\<exists>b. aw_node A n = Some (i, x, if n \<in> linked A then 2 else 1, b)) \<and>
     aw_fd A x = Some (i, if n \<in> asleep A then 0 else 1) \<and> (n \<notin> asleep A \<longrightarrow> aw_ready A)"
| "thr_ok A i (W_awake n x) \<longleftrightarrow> (\<exists>b. aw_node A n = Some (i, x, if n \<in> linked A then 2 else 1, b)) \<and>
     aw_fd A x = Some (i, 0) \<and> n \<notin> asleep A \<and> aw_ready A"
| "thr_ok A i (W_release n) \<longleftrightarrow> (\<exists>x b. aw_node A n = Some (i, x, if n \<in> linked A then 2 else 1, b)) \<and> n \<notin> asleep A \<and> aw_ready A"
| "thr_ok A i W_result \<longleftrightarrow> aw_ready A"
| "thr_ok A i (W_done r) \<longleftrightarrow> aw_ready A \<and> r = aw_res A \<or> aw_oom A \<and> r = error_result (- 1)"
| "thr_ok A i pc \<longleftrightarrow> True"

definition wnode_ok :: "'c await \<Rightarrow> addr \<Rightarrow> nat \<times> int \<times> int \<times> bool \<Rightarrow> bool" where
  "wnode_ok A n = (\<lambda>(i, x, rc, b).
     (w_held (aw_thr A i) = Some n \<or> n \<in> linked A \<and> rc = 1 \<and> n \<notin> asleep A) \<and> (n \<in> unclaimed A \<longrightarrow> \<not> b) \<and> 0 \<le> x)"

definition wait_inv :: "'c await \<Rightarrow> bool" where
  "wait_inv A \<longleftrightarrow>
     (\<forall>i. thr_ok A i (aw_thr A i)) \<and> (\<forall>n t. aw_node A n = Some t \<longrightarrow> wnode_ok A n t) \<and>
     (\<forall>x i c. aw_fd A x = Some (i, c) \<longrightarrow> fd_of (aw_thr A i) = Some x) \<and>
     distinct (aw_stack A @ linked_pc (wpos A)) \<and> (\<forall>n\<in>linked A. aw_node A n \<noteq> None)"

text \<open>A thread's knowledge depends on its own waiter and eventfd only.\<close>

lemma held_owned: "thr_ok A i pc \<Longrightarrow> w_held pc = Some n \<Longrightarrow> \<exists>t. aw_node A n = Some (i, t)"
  by (cases pc) auto

lemma fd_owned: "thr_ok A i pc \<Longrightarrow> fd_of pc = Some x \<Longrightarrow> \<exists>c. aw_fd A x = Some (i, c)"
  by (cases pc) auto

lemma thr_ok_frame:
  assumes "thr_ok A i pc"
    and "\<And>n. w_held pc = Some n \<Longrightarrow> aw_node B n = aw_node A n \<and> (n \<in> linked B \<longleftrightarrow> n \<in> linked A) \<and> (n \<in> asleep B \<longleftrightarrow> n \<in> asleep A)"
    and "\<And>x. fd_of pc = Some x \<Longrightarrow> aw_fd B x = aw_fd A x"
    and "aw_ready A \<Longrightarrow> aw_ready B \<and> aw_res B = aw_res A" and "aw_oom A \<Longrightarrow> aw_oom B"
  shows "thr_ok B i pc"
  using assms by (cases pc) auto

text \<open>
  A step that concerns the waiter \<open>n\<close> and the eventfds \<open>X\<close> of thread \<open>j\<close>, taken by that thread or
  by the winner.
\<close>

lemma wait_inv_update:
  assumes inv: "wait_inv A"
    and own: "\<And>i t. aw_node A n = Some (i, t) \<Longrightarrow> i = j" "\<And>y i c. y \<in> X \<Longrightarrow> aw_fd A y = Some (i, c) \<Longrightarrow> i = j"
      "\<And>m. w_held (aw_thr A j) = Some m \<Longrightarrow> m = n \<or> aw_thr B j = aw_thr A j"
      "\<And>y. fd_of (aw_thr A j) = Some y \<Longrightarrow> y \<in> X \<or> aw_thr B j = aw_thr A j"
    and other: "\<And>l. l \<noteq> j \<Longrightarrow> aw_thr B l = aw_thr A l \<or>
      w_held (aw_thr A l) = None \<and> fd_of (aw_thr A l) = None \<and> w_held (aw_thr B l) = None \<and> fd_of (aw_thr B l) = None \<and> thr_ok B l (aw_thr B l)"
    and nodes: "\<And>m. m \<noteq> n \<Longrightarrow> aw_node B m = aw_node A m \<and> (m \<in> linked B \<longleftrightarrow> m \<in> linked A) \<and> (m \<in> asleep B \<longleftrightarrow> m \<in> asleep A) \<and>
      (m \<in> unclaimed B \<longleftrightarrow> m \<in> unclaimed A)"
    and fds: "\<And>y. y \<notin> X \<Longrightarrow> aw_fd B y = aw_fd A y"
    and mono: "aw_ready A \<Longrightarrow> aw_ready B \<and> aw_res B = aw_res A" "aw_oom A \<Longrightarrow> aw_oom B"
    and thr: "thr_ok B j (aw_thr B j)"
    and node: "aw_node B n = None \<and> n \<notin> linked B \<or> (\<exists>t. aw_node B n = Some (j, t) \<and> wnode_ok B n (j, t))"
    and fd: "\<And>y i c. y \<in> X \<Longrightarrow> aw_fd B y = Some (i, c) \<Longrightarrow> i = j \<and> fd_of (aw_thr B j) = Some y"
    and dist: "distinct (aw_stack B @ linked_pc (wpos B))"
  shows "wait_inv B"
proof -
  have T: "thr_ok A l (aw_thr A l)" for l using inv by (simp add: wait_inv_def)
  have held: "m \<noteq> n" if "l \<noteq> j" "w_held (aw_thr A l) = Some m" for l m
    using held_owned [OF T that(2)] own(1) that(1) by auto
  have fdn: "y \<notin> X" if "l \<noteq> j" "fd_of (aw_thr A l) = Some y" for l y
    using fd_owned [OF T that(2)] own(2) that(1) by auto
  have same: "w_held (aw_thr B l) = w_held (aw_thr A l)" "fd_of (aw_thr B l) = fd_of (aw_thr A l)" if "l \<noteq> j" for l
    using other [OF that] by auto
  have 1: "thr_ok B l (aw_thr B l)" for l
  proof (cases "l = j \<or> aw_thr B l \<noteq> aw_thr A l")
    case True
    then show ?thesis using thr other [of l] by auto
  next
    case False
    then show ?thesis using T [of l] held [of l] fdn [of l] nodes fds mono by simp (rule thr_ok_frame [of A l], blast+)
  qed
  have 2: "wnode_ok B m t" if "aw_node B m = Some t" for m t
  proof (cases "m = n")
    case True
    then show ?thesis using node that by auto
  next
    case False
    obtain i y rc b where t: "t = (i, y, rc, b)" by (cases t)
    have "wnode_ok A m t" using inv that nodes [OF False] by (simp add: wait_inv_def t)
    moreover have "w_held (aw_thr B i) = w_held (aw_thr A i) \<or> w_held (aw_thr A i) \<noteq> Some m" using same(1) own(3) False by metis
    ultimately show ?thesis using nodes [OF False] by (auto simp: wnode_ok_def t)
  qed
  have 3: "fd_of (aw_thr B i) = Some y" if "aw_fd B y = Some (i, c)" for y i c
  proof (cases "y \<in> X")
    case True
    then show ?thesis using fd that by auto
  next
    case False
    then have *: "fd_of (aw_thr A i) = Some y" using inv that fds by (auto simp: wait_inv_def)
    with own(4) [of y] False same(2) [of i] show ?thesis by (cases "i = j") auto
  qed
  have 4: "aw_node B m \<noteq> None" if "m \<in> linked B" for m
    using that node nodes [of m] inv by (cases "m = n") (auto simp: wait_inv_def)
  show ?thesis unfolding wait_inv_def using 1 2 3 4 dist by blast
qed

text \<open>A step of a thread that holds neither before nor afterwards.\<close>

lemma wait_inv_other:
  assumes inv: "wait_inv A" and free: "w_held (aw_thr A i) = None" "fd_of (aw_thr A i) = None" "w_held pc = None" "fd_of pc = None"
    and B: "aw_thr B = (aw_thr A)(i := pc)" "aw_node B = aw_node A" "aw_fd B = aw_fd A" "linked B = linked A" "asleep B = asleep A"
      "unclaimed B = unclaimed A"
    and mono: "aw_ready A \<Longrightarrow> aw_ready B \<and> aw_res B = aw_res A" "aw_oom A \<Longrightarrow> aw_oom B"
    and thr: "thr_ok B i pc" and dist: "distinct (aw_stack B @ linked_pc (wpos B))"
  shows "wait_inv B"
proof -
  have "thr_ok B l (aw_thr B l)" for l
  proof (cases "l = i")
    case False
    from inv have "thr_ok A l (aw_thr A l)" by (simp add: wait_inv_def)
    then have "thr_ok B l (aw_thr A l)" by (rule thr_ok_frame) (use B mono in simp_all)
    then show ?thesis using False B(1) by simp
  qed (use thr B(1) in simp)
  moreover have "w_held (aw_thr B l) = w_held (aw_thr A l)" "fd_of (aw_thr B l) = fd_of (aw_thr A l)" for l
    using free B(1) by auto
  then have "wnode_ok B n t = wnode_ok A n t" for n t by (cases t) (simp add: wnode_ok_def B)
  ultimately show ?thesis using inv dist \<open>\<And>l. fd_of (aw_thr B l) = fd_of (aw_thr A l)\<close> by (simp add: wait_inv_def B)
qed

lemma drop_waiter_other [simp]: "m \<noteq> n \<Longrightarrow> drop_waiter n N m = N m"
  by (auto simp: drop_waiter_def split: option.split)

lemma drop_waiter_at: "N n = Some (i, x, rc, b) \<Longrightarrow> drop_waiter n N n = (if rc = 1 then None else Some (i, x, rc - 1, b))"
  by (simp add: drop_waiter_def)

lemma thr_okD: "wait_inv A \<Longrightarrow> thr_ok A i (aw_thr A i)"
  by (simp add: wait_inv_def)

lemma wnode_okD: "wait_inv A \<Longrightarrow> aw_node A n = Some (i, x, rc, b) \<Longrightarrow>
    (w_held (aw_thr A i) = Some n \<or> n \<in> linked A \<and> rc = 1 \<and> n \<notin> asleep A) \<and> (n \<in> unclaimed A \<longrightarrow> \<not> b) \<and> 0 \<le> x"
  unfolding wait_inv_def wnode_ok_def by blast

text \<open>A waiter that is to be woken belongs to a sleeping thread.\<close>

lemma asleep_sleeps:
  assumes "wait_inv A" and "n \<in> asleep A" and "aw_node A n = Some (i, x, rc, b)"
  shows "aw_thr A i = W_sleep n x \<and> rc = 2 \<and> aw_fd A x = Some (i, 0)"
proof -
  from wnode_okD [OF assms(1,3)] assms(2) have h: "w_held (aw_thr A i) = Some n" by blast
  from thr_okD [OF assms(1), of i] assms(2,3) asleep_linked [OF assms(2)] h show ?thesis
    by (cases "aw_thr A i") auto
qed

text \<open>Steps of the winner and of the others, and what they leave of the sets.\<close>

lemma sets_eq:
  "wpos B = wpos A \<Longrightarrow> aw_stack B = aw_stack A \<Longrightarrow> linked B = linked A \<and> asleep B = asleep A \<and> unclaimed B = unclaimed A"
  by (simp add: linked_def asleep_def unclaimed_def)

lemma wpos_getter:
  "w_win_inv A \<Longrightarrow> \<not> w_won (aw_thr A i) \<Longrightarrow> aw_thr B = (aw_thr A)(i := pc) \<Longrightarrow> aw_win B = aw_win A \<Longrightarrow> wpos B = wpos A"
  by (auto simp: w_win_inv_def wpos_def split: option.split)

lemma wait_inv_linked: "wait_inv A \<Longrightarrow> aw_node A n = None \<Longrightarrow> n \<notin> linked A"
  unfolding wait_inv_def by blast

lemma wait_inv_distinct: "wait_inv A \<Longrightarrow> distinct (aw_stack A @ linked_pc (wpos A))"
  unfolding wait_inv_def by blast

text \<open>A step of the owner \<open>i\<close> that neither pushes nor completes.\<close>

lemma wait_inv_own:
  assumes inv: "wait_inv A" and win: "w_win_inv A" and "\<not> w_won (aw_thr A i)"
    and B: "aw_thr B = (aw_thr A)(i := pc)" "aw_win B = aw_win A" "aw_stack B = aw_stack A" "aw_ready B = aw_ready A" "aw_res B = aw_res A"
      "aw_oom B = aw_oom A"
    and held: "w_held (aw_thr A i) \<in> {None, Some n}" "set_option (fd_of (aw_thr A i)) \<subseteq> X"
    and own: "aw_node A n = None \<or> (\<exists>t. aw_node A n = Some (i, t))" "\<And>y. y \<in> X \<Longrightarrow> aw_fd A y = None \<or> (\<exists>c. aw_fd A y = Some (i, c))"
    and nodes: "\<And>m. m \<noteq> n \<Longrightarrow> aw_node B m = aw_node A m" and fds: "\<And>y. y \<notin> X \<Longrightarrow> aw_fd B y = aw_fd A y"
    and thr: "linked B = linked A \<Longrightarrow> asleep B = asleep A \<Longrightarrow> thr_ok B i pc"
    and node: "linked B = linked A \<Longrightarrow> asleep B = asleep A \<Longrightarrow> unclaimed B = unclaimed A \<Longrightarrow>
      aw_node B n = None \<and> n \<notin> linked A \<or> (\<exists>t. aw_node B n = Some (i, t) \<and> wnode_ok B n (i, t))"
    and fd: "\<And>y. y \<in> X \<Longrightarrow> aw_fd B y = None \<or> (\<exists>c. aw_fd B y = Some (i, c)) \<and> fd_of pc = Some y"
  shows "wait_inv B"
proof -
  have pos: "wpos B = wpos A" by (rule wpos_getter [OF win assms(3) B(1,2)])
  note S = sets_eq [OF pos B(3)]
  show ?thesis
  proof (rule wait_inv_update [OF inv, where n = n and j = i and X = X])
    show "w_held (aw_thr A i) = Some m \<Longrightarrow> m = n \<or> aw_thr B i = aw_thr A i" for m using held(1) by auto
    show "fd_of (aw_thr A i) = Some y \<Longrightarrow> y \<in> X \<or> aw_thr B i = aw_thr A i" for y using held(2) by auto
    show "y \<in> X \<Longrightarrow> aw_fd A y = Some (l, c) \<Longrightarrow> l = i" for y l c using own(2) [of y] by auto
    show "y \<in> X \<Longrightarrow> aw_fd B y = Some (l, c) \<Longrightarrow> l = i \<and> fd_of (aw_thr B i) = Some y" for y l c using fd [of y] B(1) by auto
  qed (use S B own(1) nodes fds thr node pos wait_inv_distinct [OF inv] in auto)
qed

text \<open>A step of the winner that leaves the waiters alone.\<close>

lemma wait_inv_winner:
  assumes inv: "wait_inv A" and "aw_win A = Some i" and "w_won (aw_thr A i)" and "w_won pc"
    and B: "aw_thr B = (aw_thr A)(i := pc)" "aw_win B = aw_win A" "aw_node B = aw_node A" "aw_fd B = aw_fd A" "aw_oom B = aw_oom A"
      "aw_stack B @ linked_pc pc = aw_stack A @ linked_pc (aw_thr A i)" "aw_stack B @ asleep_pc pc = aw_stack A @ asleep_pc (aw_thr A i)"
      "aw_stack B @ unclaimed_pc pc = aw_stack A @ unclaimed_pc (aw_thr A i)"
    and mono: "aw_ready A \<Longrightarrow> aw_ready B \<and> aw_res B = aw_res A"
  shows "wait_inv B"
proof -
  have pos: "wpos A = aw_thr A i" "wpos B = pc" using assms(2) B by (simp_all add: wpos_def)
  have none: "w_held q = None \<and> fd_of q = None \<and> thr_ok B i q" if "w_won q" for q using that by (cases q) auto
  have S: "linked B = linked A" "asleep B = asleep A" "unclaimed B = unclaimed A"
    unfolding linked_def asleep_def unclaimed_def pos B(6-8) by simp_all
  have dist: "distinct (aw_stack B @ linked_pc (wpos B))" unfolding pos(2) B(6) using wait_inv_distinct [OF inv] pos(1) by simp
  show ?thesis
    by (rule wait_inv_other [OF inv _ _ _ _ B(1,3,4) S mono _ _ dist]) (use none assms(3,4) B(5) in auto)
qed

lemma wait_inv_push:
  assumes inv: "wait_inv A" and win: "w_win_inv A" and pc: "aw_thr A i = W_push n x" and "\<not> aw_closed A"
  shows "wait_inv (wgo i (W_sleep n x) (A\<lparr>aw_stack := n # aw_stack A\<rparr>))" (is "wait_inv ?B")
proof -
  have pos: "wpos ?B = wpos A" by (rule wpos_getter [OF win, of i]) (use pc in simp_all)
  have S: "linked ?B = insert n (linked A)" "asleep ?B = insert n (asleep A)" "unclaimed ?B = insert n (unclaimed A)"
    unfolding linked_def asleep_def unclaimed_def pos by simp_all
  from thr_okD [OF inv, of i] pc have ok: "aw_node A n = Some (i, x, 2, False)" "n \<notin> linked A" "aw_fd A x = Some (i, 0)" by simp_all
  have dist: "distinct (aw_stack ?B @ linked_pc (wpos ?B))" using wait_inv_distinct [OF inv] ok(2) unfolding pos by (simp add: linked_def)
  show ?thesis
    by (rule wait_inv_update [OF inv, where n = n and j = i and X = "{x}"])
      (use S ok pc dist wnode_okD [OF inv ok(1)] in \<open>auto simp: wnode_ok_def\<close>)
qed

lemma wait_inv_claim:
  assumes inv: "wait_inv A" and win: "w_win_inv A" and pc: "aw_thr A i = D_drain (n # ns)" and n: "aw_node A n = Some (j, x, rc, False)"
  shows "wait_inv (wgo i (D_wake n ns) (A\<lparr>aw_node := (aw_node A)(n \<mapsto> (j, x, rc, True))\<rparr>))" (is "wait_inv ?B")
proof -
  note D = w_winnerD [OF win, of i, unfolded pc, simplified]
  have pos: "wpos ?B = D_wake n ns" using D(1) by (simp add: wpos_def)
  have S: "linked ?B = linked A" "asleep ?B = asleep A" "unclaimed ?B = set ns" "unclaimed A = insert n (set ns)" "n \<in> asleep A" "n \<in> linked A"
    unfolding linked_def asleep_def unclaimed_def pos D(2) using D(5) by simp_all
  have dist: "distinct (aw_stack ?B @ linked_pc (wpos ?B))" using wait_inv_distinct [OF inv] unfolding pos D(2) by simp
  have nns: "n \<notin> set ns" using wait_inv_distinct [OF inv] D(2) by simp
  from asleep_sleeps [OF inv S(5) n] have j: "aw_thr A j = W_sleep n x" "rc = 2" "aw_fd A x = Some (j, 0)" by simp_all
  then have ji: "j \<noteq> i" using pc by auto
  show ?thesis
    by (rule wait_inv_update [OF inv, where n = n and j = j and X = "{}"])
      (use S n nns pc dist j ji wnode_okD [OF inv n] in \<open>auto simp: wnode_ok_def\<close>)
qed

lemma wait_inv_wake:
  assumes inv: "wait_inv A" and win: "w_win_inv A" and pc: "aw_thr A i = D_wake n ns" and n: "aw_node A n = Some (j, x, rc, b)"
    and x: "aw_fd A x = Some (l, c)"
  shows "wait_inv (wgo i (D_free n ns) (A\<lparr>aw_fd := (aw_fd A)(x \<mapsto> (l, Suc c))\<rparr>))" (is "wait_inv ?B")
proof -
  note D = w_winnerD [OF win, of i, unfolded pc, simplified]
  have pos: "wpos ?B = D_free n ns" using D(1) by (simp add: wpos_def)
  have nns: "n \<notin> set ns" using wait_inv_distinct [OF inv] D(2) by simp
  have S: "linked ?B = linked A" "asleep ?B = set ns" "asleep A = insert n (set ns)" "unclaimed ?B = unclaimed A" "n \<in> linked A" "n \<notin> unclaimed A"
    unfolding linked_def asleep_def unclaimed_def pos D(2) using D(5) nns by simp_all
  have dist: "distinct (aw_stack ?B @ linked_pc (wpos ?B))" using wait_inv_distinct [OF inv] unfolding pos D(2) by simp
  from asleep_sleeps [OF inv _ n] S(3) have j: "aw_thr A j = W_sleep n x" "rc = 2" "l = j" "c = 0" using x by auto
  then have ji: "j \<noteq> i" using pc by auto
  show ?thesis
    by (rule wait_inv_update [OF inv, where n = n and j = j and X = "{x}"])
      (use S n nns pc dist j ji x D(3) wnode_okD [OF inv n] in \<open>auto simp: wnode_ok_def\<close>)
qed

lemma wait_inv_free:
  assumes inv: "wait_inv A" and win: "w_win_inv A" and pc: "aw_thr A i = D_free n ns"
  shows "wait_inv (wgo i (D_drain ns) (A\<lparr>aw_node := drop_waiter n (aw_node A)\<rparr>))" (is "wait_inv ?B")
proof -
  note D = w_winnerD [OF win, of i, unfolded pc, simplified]
  have pos: "wpos ?B = D_drain ns" using D(1) by (simp add: wpos_def)
  have nns: "n \<notin> set ns" using wait_inv_distinct [OF inv] D(2) by simp
  have S: "linked ?B = set ns" "linked A = insert n (set ns)" "asleep ?B = set ns" "asleep A = set ns" "unclaimed ?B = set ns" "unclaimed A = set ns"
    unfolding linked_def asleep_def unclaimed_def pos D(2) using D(5) nns by simp_all
  have dist: "distinct (aw_stack ?B @ linked_pc (wpos ?B))" using wait_inv_distinct [OF inv] unfolding pos D(2) by simp
  have "aw_node A n \<noteq> None" using inv S(2) by (simp add: wait_inv_def)
  then obtain j x rc b where n: "aw_node A n = Some (j, x, rc, b)" by (cases "aw_node A n") auto
  have cases: "w_held (aw_thr A j) = Some n \<and> rc = 2 \<and> j \<noteq> i \<or> w_held (aw_thr A j) \<noteq> Some n \<and> rc = 1"
    using thr_okD [OF inv, of j] wnode_okD [OF inv n] n S(2) nns pc by (cases "aw_thr A j") auto
  then have thr: "thr_ok ?B j (aw_thr ?B j)"
  proof
    assume "w_held (aw_thr A j) = Some n \<and> rc = 2 \<and> j \<noteq> i"
    then show ?thesis using thr_okD [OF inv, of j] n S nns by (cases "aw_thr A j") (auto simp: drop_waiter_at)
  next
    assume "w_held (aw_thr A j) \<noteq> Some n \<and> rc = 1"
    moreover from this have "thr_ok ?B j (aw_thr A j)"
      by - (rule thr_ok_frame [OF thr_okD [OF inv]], use S in auto)
    ultimately show ?thesis by auto
  qed
  show ?thesis
    by (rule wait_inv_update [OF inv, where n = n and j = j and X = "{}"])
      (use S n nns pc dist thr cases wnode_okD [OF inv n] in \<open>auto simp: wnode_ok_def drop_waiter_at\<close>)
qed

text \<open>A step of a thread that has not won and has no waiter.\<close>

lemma wait_inv_getter:
  assumes "wait_inv A" and win: "w_win_inv A" and won: "\<not> w_won (aw_thr A i)"
    and "w_held (aw_thr A i) = None" "fd_of (aw_thr A i) = None" "w_held pc = None" "fd_of pc = None"
    and B: "aw_thr B = (aw_thr A)(i := pc)" "aw_win B = aw_win A" "aw_stack B = aw_stack A" "aw_node B = aw_node A" "aw_fd B = aw_fd A"
      "aw_ready B = aw_ready A" "aw_res B = aw_res A" "aw_oom A \<Longrightarrow> aw_oom B" "thr_ok B i pc"
  shows "wait_inv B"
proof -
  have pos: "wpos B = wpos A" by (rule wpos_getter [OF win won B(1,2)])
  show ?thesis by (rule wait_inv_other [OF assms(1,4-7) B(1)])
      (use pos sets_eq [OF pos B(3)] B wait_inv_distinct [OF assms(1)] in simp_all)
qed

lemma wait_inv_step: "w_step A B \<Longrightarrow> w_win_inv A \<Longrightarrow> wait_inv A \<Longrightarrow> wait_inv B"
proof (induction rule: w_step.induct)
  case (w_alloc A i n x)
  then show ?case using wait_inv_linked [OF w_alloc(6,2)]
    by - (rule wait_inv_own [of A i, where n = n and X = "{x}"], auto simp: wnode_ok_def)
next
  case (w_refused A i n x)
  then have "aw_ready A" by (auto simp: w_win_inv_def)
  with w_refused thr_okD [OF w_refused(4), of i] show ?case
    by - (rule wait_inv_own [of A i, where n = n and X = "{x}"], auto simp: wnode_ok_def dest: wnode_okD)
next
  case (w_close A i n x)
  then show ?case using thr_okD [OF w_close(3), of i]
    by - (rule wait_inv_own [of A i, where n = n and X = "{x}"], auto simp: wnode_ok_def dest: wnode_okD)
next
  case (w_discard A i n)
  then show ?case using thr_okD [OF w_discard(3), of i]
    by - (rule wait_inv_own [of A i, where n = n and X = "{}"], auto simp: wnode_ok_def dest: wnode_okD)
next
  case (w_read A i n x j c)
  then show ?case using thr_okD [OF w_read(4), of i]
    by - (rule wait_inv_own [of A i, where n = n and X = "{x}"], auto simp: wnode_ok_def dest: wnode_okD split: if_splits)
next
  case (w_awake A i n x)
  then show ?case using thr_okD [OF w_awake(3), of i]
    by - (rule wait_inv_own [of A i, where n = n and X = "{x}"], auto simp: wnode_ok_def dest: wnode_okD)
next
  case (w_release A i n)
  then show ?case using thr_okD [OF w_release(3), of i]
    by - (rule wait_inv_own [of A i, where n = n and X = "{}"], auto simp: wnode_ok_def drop_waiter_at dest: wnode_okD split: if_splits)
next
  case (w_win A i r)
  let ?B = "wgo i (D_store r) (A\<lparr>aw_win := Some i\<rparr>)"
  have "wpos A = W_idle" "wpos ?B = D_store r" using w_win by (simp_all add: wpos_def)
  then have "linked ?B = linked A" "asleep ?B = asleep A" "unclaimed ?B = unclaimed A" "linked_pc (wpos A) = linked_pc (wpos ?B)"
    by (simp_all add: linked_def asleep_def unclaimed_def)
  then show ?case using w_win wait_inv_distinct [OF w_win(4)]
    by - (rule wait_inv_other [of A i "D_store r"], simp_all)
next
  case (w_get A i)
  then show ?case by - (rule wait_inv_getter [of A i "if aw_ready A then W_result else W_alloc"], simp_all)
next
  case (w_nomem A i)
  then show ?case by - (rule wait_inv_getter [of A i "W_done (error_result (- 1))"], simp_all)
next
  case (w_result A i)
  then show ?case using thr_okD [OF w_result(3), of i] by - (rule wait_inv_getter [of A i "W_done (aw_res A)"], simp_all)
next
  case (w_lose A i)
  then show ?case by - (rule wait_inv_getter [of A i "D_done False"], simp_all)
next
  case (w_store A i r)
  then show ?case using w_winnerD [of A i] by - (rule wait_inv_winner [of A i D_publish], simp_all)
next
  case (w_publish A i)
  then show ?case using w_winnerD [of A i] by - (rule wait_inv_winner [of A i D_handle], simp_all)
next
  case (w_handle A i)
  then show ?case using w_winnerD [of A i] by - (rule wait_inv_winner [of A i D_steal], simp_all)
next
  case (w_steal A i)
  then show ?case using w_winnerD [of A i] by - (rule wait_inv_winner [of A i "D_drain (aw_stack A)"], simp_all)
next
  case (w_drained A i)
  then show ?case using w_winnerD [of A i] by - (rule wait_inv_winner [of A i D_conts], simp_all)
next
  case (w_conts A i)
  then show ?case using w_winnerD [of A i] by - (rule wait_inv_winner [of A i "D_done True"], simp_all)
qed (rule wait_inv_push wait_inv_claim wait_inv_wake wait_inv_free; assumption)+

definition waits_inv :: "'c await \<Rightarrow> bool" where
  "waits_inv A \<longleftrightarrow> w_win_inv A \<and> wait_inv A"

lemma waits_inv_step: "w_step A B \<Longrightarrow> waits_inv A \<Longrightarrow> waits_inv B"
  by (simp add: waits_inv_def w_win_step wait_inv_step)

end
