(* ===== verification/Future_Wait_Sim.thy ===== *)
theory Future_Wait_Sim
  imports Future_Wait_Conc
begin

text \<open>
  The interleaved code of the blocking threads and the completing threads is simulated by the
  abstract machine of \<open>Future_Wait_Conc\<close>, whatever the Treiber stack of uflib is, as long as it
  keeps its laws.
\<close>

section \<open>The abstraction\<close>

definition wview :: "('n \<Rightarrow> int) \<Rightarrow> ('n \<Rightarrow> bool) \<Rightarrow> (addr \<rightharpoonup> 'n UfsrvWaiter) \<Rightarrow> addr \<Rightarrow> (int \<times> int \<times> bool) option" where
  "wview refs claimed M n = map_option (\<lambda>c. (wt_block_fd c, refs (wt_base c), claimed (wt_base c))) (M n)"

text \<open>The eventfds of the waiters beside those that were open before.\<close>

definition fd_view :: "(int \<rightharpoonup> nat) \<Rightarrow> (int \<rightharpoonup> nat \<times> nat) \<Rightarrow> int \<Rightarrow> nat option" where
  "fd_view F0 F x = (case F x of None \<Rightarrow> F0 x | Some (i, c) \<Rightarrow> Some c)"

lemma fd_view_upd: "fd_view F0 (F(x \<mapsto> (i, c))) = (fd_view F0 F)(x \<mapsto> c)"
  by (auto simp: fd_view_def fun_eq_iff)

lemma fd_view_del: "F0 x = None \<Longrightarrow> fd_view F0 (F(x := None)) = (fd_view F0 F)(x := None)"
  by (auto simp: fd_view_def fun_eq_iff)

lemma wview_upd:
  "wview refs claimed (M(n := None)) = (wview refs claimed M)(n := None)"
  "wview refs claimed (M(n \<mapsto> c)) = (wview refs claimed M)(n \<mapsto> (wt_block_fd c, refs (wt_base c), claimed (wt_base c)))"
  by (auto simp: wview_def fun_eq_iff)

definition wsys_at ::
  "('t \<Rightarrow> addr list) \<Rightarrow> ('t \<Rightarrow> bool) \<Rightarrow> ('n \<Rightarrow> int) \<Rightarrow> ('n \<Rightarrow> bool) \<Rightarrow> (int \<rightharpoonup> nat) \<Rightarrow> (nat \<Rightarrow> bool) \<Rightarrow> addr \<Rightarrow>
   ('u, 'c, 'q, 't, 'n, 'z) future_sys_scheme \<Rightarrow> 'c await \<Rightarrow> 'c UfsrvFuture \<Rightarrow> addr \<Rightarrow> addr \<Rightarrow> 't \<Rightarrow> 't \<Rightarrow> bool" where
  "wsys_at nodes closed refs claimed F0 K f s A v a b ta tb \<longleftrightarrow>
     futures s f = Some v \<and> fu_continuations v = Some a \<and> fu_waiters v = Some b \<and> a \<noteq> b \<and> fu_cancel_handle v = NULL \<and>
     stacks s a = Some ta \<and> stacks s b = Some tb \<and> nodes ta = [] \<and> nodes tb = aw_stack A \<and> closed tb = aw_closed A \<and>
     fu_is_completed v = (aw_win A \<noteq> None) \<and> fu_result v = aw_res A \<and> (fu_state v = UFSRV_FUTURE_READY) = aw_ready A \<and>
     (\<lambda>n. map_option snd (aw_node A n)) = wview refs claimed (waiters s) \<and>
     (\<forall>n c. waiters s n = Some c \<longrightarrow> wt_coroutine c = NULL) \<and> (\<forall>n\<ge>next_addr s. waiters s n = None) \<and>
     eventfds s = fd_view F0 (aw_fd A) \<and> (\<forall>x. aw_fd A x \<noteq> None \<longrightarrow> F0 x = None) \<and>
     (\<forall>x. eventfds s x \<noteq> None \<longrightarrow> x < int (next_addr s)) \<and> sys_ok s = K \<and> (aw_oom A \<longrightarrow> \<not> (\<forall>n. K n))"

definition wait_conf_rel ::
  "('t \<Rightarrow> addr list) \<Rightarrow> ('t \<Rightarrow> bool) \<Rightarrow> ('n \<Rightarrow> int) \<Rightarrow> ('n \<Rightarrow> bool) \<Rightarrow> (int \<rightharpoonup> nat) \<Rightarrow> (nat \<Rightarrow> bool) \<Rightarrow> addr \<Rightarrow>
   ('u, 'c, 'q, 't, 'n, 'z) wait_conf \<Rightarrow> 'c await \<Rightarrow> bool" where
  "wait_conf_rel nodes closed refs claimed F0 K f C A \<longleftrightarrow>
     aw_thr A = fc_thr C \<and> (\<exists>v a b ta tb. wsys_at nodes closed refs claimed F0 K f (fc_sys C) A v a b ta tb)"

definition wait_sim ::
  "('t \<Rightarrow> addr list) \<Rightarrow> ('t \<Rightarrow> bool) \<Rightarrow> ('n \<Rightarrow> int) \<Rightarrow> ('n \<Rightarrow> bool) \<Rightarrow> (int \<rightharpoonup> nat) \<Rightarrow> (nat \<Rightarrow> bool) \<Rightarrow> addr \<Rightarrow>
   fault + ('u, 'c, 'q, 't, 'n, 'z) wait_conf \<Rightarrow> 'c await \<Rightarrow> bool" where
  "wait_sim nodes closed refs claimed F0 K f res A \<longleftrightarrow>
     (\<exists>C' A'. res = Inr C' \<and> (w_step A A' \<or> A' = A) \<and> wait_conf_rel nodes closed refs claimed F0 K f C' A')"

lemma wait_simI:
  assumes "aw_thr A = fc_thr C" and "w_step A (wgo i pc A')" and "aw_thr A' = aw_thr A"
    and "wsys_at nodes closed refs claimed F0 K f s A' v a b ta tb"
  shows "wait_sim nodes closed refs claimed F0 K f (Inr \<lparr>fc_sys = s, fc_thr = (fc_thr C)(i := pc)\<rparr>) A"
proof -
  have "wait_conf_rel nodes closed refs claimed F0 K f \<lparr>fc_sys = s, fc_thr = (fc_thr C)(i := pc)\<rparr> (wgo i pc A')"
    unfolding wait_conf_rel_def by (intro conjI exI [of _ v] exI [of _ a] exI [of _ b] exI [of _ ta] exI [of _ tb])
      (use assms in \<open>simp_all add: wsys_at_def\<close>)
  with assms(2) show ?thesis unfolding wait_sim_def by blast
qed

text \<open>A waiter of the machine is a waiter of the heap.\<close>

lemma waiter_of:
  assumes "wsys_at nodes closed refs claimed F0 K f s A v a b ta tb" and "aw_node A n = Some (i, x, rc, cl)"
  obtains c where "waiters s n = Some c" "wt_block_fd c = x" "refs (wt_base c) = rc" "claimed (wt_base c) = cl" "wt_coroutine c = NULL"
    "n < next_addr s"
proof -
  have view: "(\<lambda>n. map_option snd (aw_node A n)) = wview refs claimed (waiters s)" and co: "\<And>c. waiters s n = Some c \<Longrightarrow> wt_coroutine c = NULL"
    and bound: "\<And>m. m \<ge> next_addr s \<Longrightarrow> waiters s m = None" using assms(1) by (simp_all add: wsys_at_def)
  from fun_cong [OF view, of n] assms(2) obtain c where c: "waiters s n = Some c" "(x, rc, cl) = (wt_block_fd c, refs (wt_base c), claimed (wt_base c))"
    by (cases "waiters s n") (auto simp: wview_def)
  moreover have "n < next_addr s" using c(1) bound [of n] by (cases "n < next_addr s") auto
  ultimately show thesis by (intro that [of c]) (use co in auto)
qed

lemma fd_at:
  assumes "wsys_at nodes closed refs claimed F0 K f s A v a b ta tb" and "aw_fd A x = Some (i, c)"
  shows "eventfds s x = Some c" "F0 x = None" "x < int (next_addr s)"
proof -
  from assms show *: "eventfds s x = Some c" by (simp add: wsys_at_def fd_view_def)
  from assms show "F0 x = None" by (simp add: wsys_at_def)
  from assms(1) * show "x < int (next_addr s)" by (simp add: wsys_at_def)
qed

section \<open>Effects of the segments\<close>

lemma wait_release_view:
  assumes T: "treiber_laws (env_ts E) nodes closed refs claimed" and c: "waiters s n = Some c"
  shows "wait_release E n s = Inr ((), s\<lparr>waiters := if refs (wt_base c) = 1 then (waiters s)(n := None)
    else (waiters s)(n \<mapsto> c\<lparr>wt_base := snd (tn_release (env_ts E) (wt_base c))\<rparr>)\<rparr>)"
  using c by (simp add: wait_release_def waiter_release_def bindm_assoc treiber_lawsD [OF T])

lemma wait_discard_view:
  assumes T: "treiber_laws (env_ts E) nodes closed refs claimed" and c: "waiters s n = Some c" "refs (wt_base c) = 2"
  shows "sWaiterDiscard E n s = Inr ((), s\<lparr>waiters := (waiters s)(n := None)\<rparr>)"
  using c by (simp add: sWaiterDiscard_def waiter_release_def bindm_assoc treiber_lawsD [OF T])

lemma drop_waiter_view:
  assumes T: "treiber_laws (env_ts E) nodes closed refs claimed" and c: "M n = Some c"
    and N: "(\<lambda>n. map_option snd (N n)) = wview refs claimed M"
  shows "(\<lambda>m. map_option snd (drop_waiter n N m)) = wview refs claimed
    (if refs (wt_base c) = 1 then M(n := None) else M(n \<mapsto> c\<lparr>wt_base := snd (tn_release (env_ts E) (wt_base c))\<rparr>))"
proof
  fix m
  from fun_cong [OF N, of n] c obtain i where n: "N n = Some (i, wt_block_fd c, refs (wt_base c), claimed (wt_base c))"
    by (auto simp: wview_def)
  show "map_option snd (drop_waiter n N m) = wview refs claimed
    (if refs (wt_base c) = 1 then M(n := None) else M(n \<mapsto> c\<lparr>wt_base := snd (tn_release (env_ts E) (wt_base c))\<rparr>)) m"
    using fun_cong [OF N, of m] n by (cases "m = n") (simp_all add: drop_waiter_at wview_upd treiber_lawsD [OF T])
qed

section \<open>Simulation of the getting threads\<close>

lemma sim_get:
  assumes rel: "wait_conf_rel nodes closed refs claimed F0 K f C A"
  shows "wait_sim nodes closed refs claimed F0 K f (wait_perform E call f (A_get i) C) A"
proof (cases "fc_thr C i = W_idle")
  case True
  from rel obtain v a b ta tb where S: "wsys_at nodes closed refs claimed F0 K f (fc_sys C) A v a b ta tb" and th: "aw_thr A = fc_thr C"
    by (auto simp: wait_conf_rel_def)
  let ?pc = "if aw_ready A then W_result else W_alloc"
  have run: "wait_perform E call f (A_get i) C = Inr \<lparr>fc_sys = fc_sys C, fc_thr = (fc_thr C)(i := ?pc)\<rparr>"
    using True S by (simp add: advance_def then_check_def wsys_at_def)
  have "w_step A (wgo i ?pc A)" using w_get [of A i] th True by simp
  then show ?thesis unfolding run by (rule wait_simI [OF th _ refl S])
next
  case False
  then show ?thesis using rel by (auto simp: wait_sim_def)
qed

lemma sim_wait_alloc:
  assumes T: "treiber_laws (env_ts E) nodes closed refs claimed" and S: "wsys_at nodes closed refs claimed F0 K f (fc_sys C) A v a b ta tb"
    and th: "aw_thr A = fc_thr C" and pc: "fc_thr C i = W_alloc"
  shows "wait_sim nodes closed refs claimed F0 K f (wait_perform E call f (A_move i) C) A"
proof -
  let ?s = "fc_sys C" let ?n = "next_addr ?s"
  show ?thesis
  proof (cases "sys_ok ?s ?n \<and> sys_ok ?s (Suc ?n)")
    case True
    let ?w = "\<lparr>wt_base = tn_init (env_ts E), wt_coroutine = NULL, wt_scheduler = NULL, wt_block_fd = int (Suc ?n), wt_cancel_handle = NULL\<rparr>"
    let ?s' = "?s\<lparr>next_addr := Suc (Suc ?n), eventfds := (eventfds ?s)(int (Suc ?n) \<mapsto> 0), waiters := (waiters ?s)(?n \<mapsto> ?w)\<rparr>"
    let ?A = "A\<lparr>aw_node := (aw_node A)(?n \<mapsto> (i, int (Suc ?n), 2, False)), aw_fd := (aw_fd A)(int (Suc ?n) \<mapsto> (i, 0))\<rparr>"
    have run: "wait_perform E call f (A_move i) C = Inr \<lparr>fc_sys = ?s', fc_thr = (fc_thr C)(i := W_push ?n (int (Suc ?n)))\<rparr>"
      using True pc by (simp add: advance_def wait_alloc_def malloc_def eventfd_def bindm_assoc)
    have view: "(\<lambda>n. map_option snd (aw_node A n)) = wview refs claimed (waiters ?s)" and new: "waiters ?s ?n = None"
      and fds: "eventfds ?s = fd_view F0 (aw_fd A)" and lt: "\<forall>x. eventfds ?s x \<noteq> None \<longrightarrow> x < int ?n"
      using S by (simp_all add: wsys_at_def)
    from lt have bound: "\<forall>x. ((eventfds ?s)(int (Suc ?n) \<mapsto> 0)) x \<noteq> None \<longrightarrow> x < int (Suc (Suc ?n))" by fastforce
    from lt have closed: "eventfds ?s (int (Suc ?n)) = None" by fastforce
    have none: "aw_node A ?n = None" "aw_fd A (int (Suc ?n)) = None" "F0 (int (Suc ?n)) = None"
      using fun_cong [OF view, of ?n] new fds closed by (auto simp: wview_def fd_view_def split: option.splits)
    have view': "(\<lambda>n. map_option snd (aw_node ?A n)) = wview refs claimed ((waiters ?s)(?n \<mapsto> ?w))"
      using view treiber_lawsD [OF T] by (auto simp: wview_upd fun_eq_iff)
    have st: "w_step A (wgo i (W_push ?n (int (Suc ?n))) ?A)" by (rule w_alloc) (use none th pc in simp_all)
    show ?thesis unfolding run
      by (rule wait_simI [OF th st, where v = v and a = a and b = b and ta = ta and tb = tb])
        (use S none(3) view' bound in \<open>simp_all add: wsys_at_def fd_view_upd\<close>)
  next
    case False
    let ?m = "if sys_ok ?s ?n then Suc (Suc ?n) else Suc ?n"
    have run: "wait_perform E call f (A_move i) C = Inr \<lparr>fc_sys = ?s\<lparr>next_addr := ?m\<rparr>, fc_thr = (fc_thr C)(i := W_done (error_result (- 1)))\<rparr>"
      using False pc by (auto simp: advance_def wait_alloc_def malloc_def eventfd_def bindm_assoc)
    have lt: "\<forall>x. eventfds ?s x \<noteq> None \<longrightarrow> x < int ?n" using S by (simp add: wsys_at_def)
    have bound: "\<forall>x. eventfds ?s x \<noteq> None \<longrightarrow> x < int ?m" using lt by fastforce
    have st: "w_step A (wgo i (W_done (error_result (- 1))) (A\<lparr>aw_oom := True\<rparr>))" by (rule w_nomem) (use th pc in simp)
    show ?thesis unfolding run
      by (rule wait_simI [OF th st, where v = v and a = a and b = b and ta = ta and tb = tb])
        (use S False bound in \<open>simp_all add: wsys_at_def, blast\<close>)
  qed
qed

lemma sim_wait_push:
  assumes T: "treiber_laws (env_ts E) nodes closed refs claimed" and S: "wsys_at nodes closed refs claimed F0 K f (fc_sys C) A v a b ta tb"
    and th: "aw_thr A = fc_thr C" and pc: "fc_thr C i = W_push n x"
  shows "wait_sim nodes closed refs claimed F0 K f (wait_perform E call f (A_move i) C) A"
proof -
  note L = treiber_lawsD [OF T]
  let ?s = "(fc_sys C)\<lparr>stacks := (stacks (fc_sys C))(b \<mapsto> snd (ts_push (env_ts E) n tb))\<rparr>"
  let ?pc = "if aw_closed A then W_close n x else W_sleep n x" let ?A = "if aw_closed A then A else A\<lparr>aw_stack := n # aw_stack A\<rparr>"
  have run: "wait_perform E call f (A_move i) C = Inr \<lparr>fc_sys = ?s, fc_thr = (fc_thr C)(i := ?pc)\<rparr>"
    using S pc by (simp add: advance_def push_waiter_def stack_push_def wsys_at_def bindm_assoc L)
  have st: "w_step A (wgo i ?pc ?A)" using w_push [of A i n x] w_refused [of A i n x] th pc by auto
  show ?thesis unfolding run
    by (rule wait_simI [OF th st, where v = v and a = a and b = b and ta = ta and tb = "snd (ts_push (env_ts E) n tb)"])
      (use S in \<open>simp_all add: wsys_at_def L\<close>)
qed

lemma sim_wait_fd:
  assumes S: "wsys_at nodes closed refs claimed F0 K f (fc_sys C) A v a b ta tb" and inv: "waits_inv A" and th: "aw_thr A = fc_thr C"
    and pc: "fc_thr C i \<in> {W_close n x, W_sleep n x, W_awake n x}"
  shows "wait_sim nodes closed refs claimed F0 K f (wait_perform E call f (A_move i) C) A"
proof -
  have ok: "thr_ok A i (fc_thr C i)" using thr_okD [of A i] inv th by (simp add: waits_inv_def)
  from fd_owned [OF ok, of x] pc obtain c where x: "aw_fd A x = Some (i, c)" by auto
  have "\<exists>rc cl. aw_node A n = Some (i, x, rc, cl)" using ok pc by auto
  then obtain rc cl where n: "aw_node A n = Some (i, x, rc, cl)" by blast
  note F = fd_at [OF S x]
  obtain w where w: "waiters (fc_sys C) n = Some w" "wt_block_fd w = x" by (rule waiter_of [OF S n])
  let ?F = "\<lambda>F. (fc_sys C)\<lparr>eventfds := F\<rparr>"
  have close: "wsys_at nodes closed refs claimed F0 K f (?F ((eventfds (fc_sys C))(x := None))) (A\<lparr>aw_fd := (aw_fd A)(x := None)\<rparr>) v a b ta tb"
    using S F(2) by (simp add: wsys_at_def fd_view_del)
  from pc consider "fc_thr C i = W_close n x" | "fc_thr C i = W_sleep n x" "c = 0" | d where "fc_thr C i = W_sleep n x" "c = Suc d" | "fc_thr C i = W_awake n x"
    by (cases c) auto
  then show ?thesis
  proof cases
    case 1
    then have run: "wait_perform E call f (A_move i) C = Inr \<lparr>fc_sys = ?F ((eventfds (fc_sys C))(x := None)), fc_thr = (fc_thr C)(i := W_discard n)\<rparr>"
      by (simp add: advance_def eventfd_close_def)
    have "w_step A (wgo i (W_discard n) (A\<lparr>aw_fd := (aw_fd A)(x := None)\<rparr>))" by (rule w_close) (use th 1 in simp)
    then show ?thesis unfolding run by (rule wait_simI [OF th _ _ close]) simp
  next
    case 2
    then have "wait_perform E call f (A_move i) C = Inr C" using F(1) by (cases C) (auto simp: advance_def try_read_def bindm_assoc fun_upd_idem)
    then show ?thesis using S th unfolding wait_sim_def wait_conf_rel_def by blast
  next
    case (3 d)
    then have run: "wait_perform E call f (A_move i) C = Inr \<lparr>fc_sys = ?F ((eventfds (fc_sys C))(x \<mapsto> 0)), fc_thr = (fc_thr C)(i := W_awake n x)\<rparr>"
      using F(1) by (simp add: advance_def try_read_def bindm_assoc)
    have st: "w_step A (wgo i (W_awake n x) (A\<lparr>aw_fd := (aw_fd A)(x \<mapsto> (i, 0))\<rparr>))" by (rule w_read) (use th 3 x in auto)
    show ?thesis unfolding run
      by (rule wait_simI [OF th st, where v = v and a = a and b = b and ta = ta and tb = tb])
        (use S F in \<open>simp_all add: wsys_at_def fd_view_upd\<close>)
  next
    case 4
    then have run: "wait_perform E call f (A_move i) C = Inr \<lparr>fc_sys = ?F ((eventfds (fc_sys C))(x := None)), fc_thr = (fc_thr C)(i := W_release n)\<rparr>"
      using w by (simp add: advance_def wait_close_def eventfd_close_def)
    have "w_step A (wgo i (W_release n) (A\<lparr>aw_fd := (aw_fd A)(x := None)\<rparr>))" by (rule w_awake) (use th 4 in simp)
    then show ?thesis unfolding run by (rule wait_simI [OF th _ _ close]) simp
  qed
qed

lemma sim_wait_drop:
  assumes T: "treiber_laws (env_ts E) nodes closed refs claimed" and S: "wsys_at nodes closed refs claimed F0 K f (fc_sys C) A v a b ta tb"
    and inv: "waits_inv A" and th: "aw_thr A = fc_thr C" and pc: "fc_thr C i = W_discard n \<or> fc_thr C i = W_release n \<or> fc_thr C i = D_free n ns"
  shows "wait_sim nodes closed refs claimed F0 K f (wait_perform E call f (A_move i) C) A"
proof -
  let ?s = "fc_sys C"
  have ok: "thr_ok A i (fc_thr C i)" using thr_okD [of A i] inv th by (simp add: waits_inv_def)
  have "n \<in> linked A" if "fc_thr C i = D_free n ns" using w_winnerD(2) [of A i] inv th that by (simp add: waits_inv_def linked_def)
  then have "aw_node A n \<noteq> None" using pc ok wait_inv_linked [of A n] inv by (cases "aw_node A n") (auto simp: waits_inv_def)
  then obtain j x rc cl where n: "aw_node A n = Some (j, x, rc, cl)" by (cases "aw_node A n") auto
  obtain c where c: "waiters ?s n = Some c" "refs (wt_base c) = rc" "n < next_addr ?s" "wt_coroutine c = NULL" by (rule waiter_of [OF S n])
  have view: "(\<lambda>n. map_option snd (aw_node A n)) = wview refs claimed (waiters ?s)" using S by (simp add: wsys_at_def)
  show ?thesis
  proof (cases "fc_thr C i = W_discard n")
    case True
    then have "rc = 2" using ok n by auto
    with wait_discard_view [OF T c(1)] c(2) True have run: "wait_perform E call f (A_move i) C =
        Inr \<lparr>fc_sys = ?s\<lparr>waiters := (waiters ?s)(n := None)\<rparr>, fc_thr = (fc_thr C)(i := W_result)\<rparr>" by (simp add: advance_def)
    have st: "w_step A (wgo i W_result (A\<lparr>aw_node := (aw_node A)(n := None)\<rparr>))" by (rule w_discard) (use th True in simp)
    have "(\<lambda>m. map_option snd (((aw_node A)(n := None)) m)) = wview refs claimed ((waiters ?s)(n := None))"
      using view by (auto simp: wview_upd fun_eq_iff)
    then show ?thesis unfolding run
      by (intro wait_simI [OF th st, where v = v and a = a and b = b and ta = ta and tb = tb])
        (use S in \<open>simp_all add: wsys_at_def\<close>)
  next
    case False
    with pc have pc': "fc_thr C i = W_release n \<or> fc_thr C i = D_free n ns" by simp
    let ?pc = "if fc_thr C i = W_release n then W_result else D_drain ns"
    let ?M = "if refs (wt_base c) = 1 then (waiters ?s)(n := None)
      else (waiters ?s)(n \<mapsto> c\<lparr>wt_base := snd (tn_release (env_ts E) (wt_base c))\<rparr>)"
    have run: "wait_perform E call f (A_move i) C = Inr \<lparr>fc_sys = ?s\<lparr>waiters := ?M\<rparr>, fc_thr = (fc_thr C)(i := ?pc)\<rparr>"
      using pc' wait_release_view [OF T c(1)] by (elim disjE) (simp_all add: advance_def)
    have st: "w_step A (wgo i ?pc (A\<lparr>aw_node := drop_waiter n (aw_node A)\<rparr>))"
      using w_release [of A i n] w_free [of A i n ns] pc' th by (elim disjE) simp_all
    have "\<forall>m d. ?M m = Some d \<longrightarrow> wt_coroutine d = NULL" "\<forall>m\<ge>next_addr ?s. ?M m = None"
      using S c by (simp_all add: wsys_at_def)
    then show ?thesis unfolding run
      by (intro wait_simI [OF th st, where v = v and a = a and b = b and ta = ta and tb = tb])
        (use S drop_waiter_view [OF T c(1) view] in \<open>simp_all add: wsys_at_def\<close>)
  qed
qed

section \<open>Simulation of the completing threads\<close>

lemma sim_fulfil:
  assumes rel: "wait_conf_rel nodes closed refs claimed F0 K f C A"
  shows "wait_sim nodes closed refs claimed F0 K f (wait_perform E call f (A_fulfil i r) C) A"
proof (cases "fc_thr C i = W_idle")
  case True
  from rel obtain v a b ta tb where S: "wsys_at nodes closed refs claimed F0 K f (fc_sys C) A v a b ta tb" and th: "aw_thr A = fc_thr C"
    by (auto simp: wait_conf_rel_def)
  let ?v = "v\<lparr>fu_is_completed := True\<rparr>"
  let ?s = "(fc_sys C)\<lparr>futures := (futures (fc_sys C))(f \<mapsto> ?v)\<rparr>"
  let ?pc = "if aw_win A = None then D_store r else D_done False"
  let ?A = "if aw_win A = None then A\<lparr>aw_win := Some i\<rparr> else A"
  have run: "wait_perform E call f (A_fulfil i r) C = Inr \<lparr>fc_sys = ?s, fc_thr = (fc_thr C)(i := ?pc)\<rparr>"
    using True S by (simp add: advance_def complete_exchange_def bindm_assoc wsys_at_def)
  have st: "w_step A (wgo i ?pc ?A)" using w_win [of A i r] w_lose [of A i] th True by simp
  show ?thesis unfolding run
    by (rule wait_simI [OF th st, where v = ?v and a = a and b = b and ta = ta and tb = tb])
      (use S in \<open>simp_all add: wsys_at_def\<close>)
next
  case False
  then show ?thesis using rel by (auto simp: wait_sim_def)
qed

lemma sim_wait_publish:
  assumes T: "treiber_laws (env_ts E) nodes closed refs claimed" and S: "wsys_at nodes closed refs claimed F0 K f (fc_sys C) A v a b ta tb"
    and th: "aw_thr A = fc_thr C" and pc: "fc_thr C i \<in> {D_store r, D_publish, D_handle, D_steal, D_drain [], D_conts}"
  shows "wait_sim nodes closed refs claimed F0 K f (wait_perform E call f (A_move i) C) A"
proof -
  note L = treiber_lawsD [OF T]
  let ?F = "\<lambda>v'. (fc_sys C)\<lparr>futures := (futures (fc_sys C))(f \<mapsto> v')\<rparr>"
  let ?K = "\<lambda>c t. (fc_sys C)\<lparr>stacks := (stacks (fc_sys C))(c \<mapsto> snd (ts_steal (env_ts E) t))\<rparr>"
  note SD = S [unfolded wsys_at_def]
  from pc consider "fc_thr C i = D_store r" | "fc_thr C i = D_publish" | "fc_thr C i = D_handle" | "fc_thr C i = D_steal"
    | "fc_thr C i = D_drain []" | "fc_thr C i = D_conts" by auto
  then show ?thesis
  proof cases
    case 1
    then have run: "wait_perform E call f (A_move i) C = Inr \<lparr>fc_sys = ?F (v\<lparr>fu_result := r\<rparr>), fc_thr = (fc_thr C)(i := D_publish)\<rparr>"
      using SD by (simp add: advance_def complete_store_def)
    show ?thesis unfolding run
      by (rule wait_simI [OF th w_store [of A i r], where v = "v\<lparr>fu_result := r\<rparr>" and a = a and b = b and ta = ta and tb = tb])
        (use S 1 th in \<open>simp_all add: wsys_at_def\<close>)
  next
    case 2
    then have run: "wait_perform E call f (A_move i) C = Inr \<lparr>fc_sys = ?F (v\<lparr>fu_state := UFSRV_FUTURE_READY\<rparr>), fc_thr = (fc_thr C)(i := D_handle)\<rparr>"
      using SD by (simp add: advance_def complete_publish_def)
    show ?thesis unfolding run
      by (rule wait_simI [OF th w_publish [of A i], where v = "v\<lparr>fu_state := UFSRV_FUTURE_READY\<rparr>" and a = a and b = b and ta = ta and tb = tb])
        (use S 2 th in \<open>simp_all add: wsys_at_def\<close>)
  next
    case 3
    then have run: "wait_perform E call f (A_move i) C = Inr \<lparr>fc_sys = ?F (v\<lparr>fu_cancel_handle := NULL\<rparr>), fc_thr = (fc_thr C)(i := D_steal)\<rparr>"
      using SD by (simp add: advance_def bindm_assoc complete_handle_def)
    show ?thesis unfolding run
      by (rule wait_simI [OF th w_handle [of A i], where v = "v\<lparr>fu_cancel_handle := NULL\<rparr>" and a = a and b = b and ta = ta and tb = tb])
        (use S 3 th in \<open>simp_all add: wsys_at_def\<close>)
  next
    case 4
    then have run: "wait_perform E call f (A_move i) C = Inr \<lparr>fc_sys = ?K b tb, fc_thr = (fc_thr C)(i := D_drain (aw_stack A))\<rparr>"
      using SD by (simp add: advance_def bindm_assoc steal_waiters_def stack_steal_all_and_close_def L)
    show ?thesis unfolding run
      by (rule wait_simI [OF th w_steal [of A i], where v = v and a = a and b = b and ta = ta and tb = "snd (ts_steal (env_ts E) tb)"])
        (use S 4 th in \<open>simp_all add: wsys_at_def L\<close>)
  next
    case 5
    then have run: "wait_perform E call f (A_move i) C = Inr \<lparr>fc_sys = fc_sys C, fc_thr = (fc_thr C)(i := D_conts)\<rparr>" by (simp add: advance_def)
    show ?thesis unfolding run by (rule wait_simI [OF th w_drained [of A i] _ S]) (use 5 th in simp_all)
  next
    case 6
    then have run: "wait_perform E call f (A_move i) C = Inr \<lparr>fc_sys = ?K a ta, fc_thr = (fc_thr C)(i := D_done True)\<rparr>"
      using SD by (simp add: advance_def bindm_assoc sDrainContinuations_def stack_steal_all_and_close_def L)
    show ?thesis unfolding run
      by (rule wait_simI [OF th w_conts [of A i], where v = v and a = a and b = b and ta = "snd (ts_steal (env_ts E) ta)" and tb = tb])
        (use S 6 th in \<open>simp_all add: wsys_at_def L\<close>)
  qed
qed

lemma sim_wake:
  assumes T: "treiber_laws (env_ts E) nodes closed refs claimed" and S: "wsys_at nodes closed refs claimed F0 K f (fc_sys C) A v a b ta tb"
    and inv: "waits_inv A" and th: "aw_thr A = fc_thr C" and pc: "fc_thr C i = D_drain (n # ns) \<or> fc_thr C i = D_wake n ns"
  shows "wait_sim nodes closed refs claimed F0 K f (wait_perform E call f (A_move i) C) A"
proof -
  let ?s = "fc_sys C"
  from inv have inv1: "w_win_inv A" and inv2: "wait_inv A" by (simp_all add: waits_inv_def)
  have pos: "wpos A = fc_thr C i" using w_winnerD(2) [OF inv1, of i] th pc by auto
  then have n': "n \<in> asleep A" "fc_thr C i = D_drain (n # ns) \<Longrightarrow> n \<in> unclaimed A" using pc by (auto simp: asleep_def unclaimed_def)
  have "aw_node A n \<noteq> None" using wait_inv_linked [OF inv2, of n] asleep_linked [OF n'(1)] by blast
  then obtain j x rc cl where n: "aw_node A n = Some (j, x, rc, cl)" by (cases "aw_node A n") auto
  note W = wnode_okD [OF inv2 n]
  have x: "aw_fd A x = Some (j, 0)" using asleep_sleeps [OF inv2 n'(1) n] by simp
  obtain c where c: "waiters ?s n = Some c" "wt_block_fd c = x" "claimed (wt_base c) = cl" "refs (wt_base c) = rc" "wt_coroutine c = NULL" "n < next_addr ?s"
    by (rule waiter_of [OF S n])
  show ?thesis
  proof (cases "fc_thr C i = D_wake n ns")
    case True
    then have run: "wait_perform E call f (A_move i) C = Inr \<lparr>fc_sys = ?s\<lparr>eventfds := (eventfds ?s)(x \<mapsto> 1)\<rparr>, fc_thr = (fc_thr C)(i := D_free n ns)\<rparr>"
      using c W fd_at(1) [OF S x] by (simp add: advance_def wake_waiter_def eventfd_write_def bindm_assoc)
    have st: "w_step A (wgo i (D_free n ns) (A\<lparr>aw_fd := (aw_fd A)(x \<mapsto> (j, Suc 0))\<rparr>))" by (rule w_wake) (use th True n x in simp_all)
    show ?thesis unfolding run
      by (rule wait_simI [OF th st, where v = v and a = a and b = b and ta = ta and tb = tb])
        (use S fd_at [OF S x] in \<open>simp_all add: wsys_at_def fd_view_upd\<close>)
  next
    case False
    with pc have pc': "fc_thr C i = D_drain (n # ns)" by simp
    then have "\<not> cl" using W n'(2) by blast
    let ?c = "c\<lparr>wt_base := snd (tn_claim (env_ts E) (wt_base c))\<rparr>"
    have run: "wait_perform E call f (A_move i) C = Inr \<lparr>fc_sys = ?s\<lparr>waiters := (waiters ?s)(n \<mapsto> ?c)\<rparr>, fc_thr = (fc_thr C)(i := D_wake n ns)\<rparr>"
      using pc' c \<open>\<not> cl\<close> by (simp add: advance_def waiter_claim_def bindm_assoc treiber_lawsD [OF T])
    have st: "w_step A (wgo i (D_wake n ns) (A\<lparr>aw_node := (aw_node A)(n \<mapsto> (j, x, rc, True))\<rparr>))" by (rule w_claim) (use th pc' n \<open>\<not> cl\<close> in simp_all)
    have view: "(\<lambda>n. map_option snd (aw_node A n)) = wview refs claimed (waiters ?s)" using S by (simp add: wsys_at_def)
    have "(\<lambda>m. map_option snd (((aw_node A)(n \<mapsto> (j, x, rc, True))) m)) = wview refs claimed ((waiters ?s)(n \<mapsto> ?c))"
      using view c by (auto simp: wview_upd fun_eq_iff treiber_lawsD [OF T])
    then show ?thesis unfolding run
      by (intro wait_simI [OF th st, where v = v and a = a and b = b and ta = ta and tb = tb])
        (use S c in \<open>simp_all add: wsys_at_def\<close>)
  qed
qed

lemma sim_move:
  assumes T: "treiber_laws (env_ts E) nodes closed refs claimed" and rel: "wait_conf_rel nodes closed refs claimed F0 K f C A" and inv: "waits_inv A"
  shows "wait_sim nodes closed refs claimed F0 K f (wait_perform E call f (A_move i) C) A"
proof -
  from rel obtain v a b ta tb where S: "wsys_at nodes closed refs claimed F0 K f (fc_sys C) A v a b ta tb" and th: "aw_thr A = fc_thr C"
    by (auto simp: wait_conf_rel_def)
  have "advance i (ret (fc_thr C i)) C = Inr C" by (cases C) (simp add: advance_def)
  then have stay: "wait_sim nodes closed refs claimed F0 K f (advance i (ret (fc_thr C i)) C) A"
    using rel unfolding wait_sim_def by auto
  note result = w_result [of A i]
  show ?thesis
  proof (cases "fc_thr C i")
    case W_result
    then have run: "wait_perform E call f (A_move i) C = Inr \<lparr>fc_sys = fc_sys C, fc_thr = (fc_thr C)(i := W_done (aw_res A))\<rparr>"
      using S by (simp add: advance_def read_result_def bindm_assoc wsys_at_def)
    show ?thesis unfolding run by (rule wait_simI [OF th w_result [of A i] refl S]) (use W_result th in simp)
  next
    case (D_drain ns)
    then show ?thesis using sim_wait_publish [OF T S th, of i] sim_wake [OF T S inv th, of i] by (cases ns) auto
  next
    case (D_store r)
    then show ?thesis by (intro sim_wait_publish [OF T S th, where r = r]) simp
  qed (use stay sim_wait_alloc [OF T S th, of i] sim_wait_push [OF T S th, of i] sim_wait_fd [OF S inv th, of i] sim_wait_drop [OF T S inv th, of i]
      sim_wake [OF T S inv th, of i] sim_wait_publish [OF T S th, of i] in \<open>simp_all del: wait_perform.simps(3), simp_all\<close>)
qed

interpretation ws: simulation "wait_perform E call f" w_step
    "\<lambda>C A. treiber_laws (env_ts E) nodes closed refs claimed \<and> wait_conf_rel nodes closed refs claimed F0 K f C A" waits_inv
  for E :: "('u, 'c, 'q, 't, 'n, 'z) fenv" and call f nodes closed refs claimed F0 K
proof
  fix C :: "('u, 'c, 'q, 't, 'n, 'z) wait_conf" and A and act :: "'c wait_act"
  assume rel: "treiber_laws (env_ts E) nodes closed refs claimed \<and> wait_conf_rel nodes closed refs claimed F0 K f C A" and inv: "waits_inv A"
  note R = conjunct1 [OF rel] conjunct2 [OF rel]
  have "wait_sim nodes closed refs claimed F0 K f (wait_perform E call f act C) A"
    by (cases act) (simp_all only: sim_move [OF R inv] sim_get [OF R(2)] sim_fulfil [OF R(2)])
  with R(1) show "\<exists>C' A'. wait_perform E call f act C = Inr C' \<and> (w_step A A' \<or> A' = A) \<and>
      treiber_laws (env_ts E) nodes closed refs claimed \<and> wait_conf_rel nodes closed refs claimed F0 K f C' A'"
    unfolding wait_sim_def by blast
qed (rule waits_inv_step)

end
