(* ===== verification/Future_Wait_Spec.thy ===== *)
theory Future_Wait_Spec
  imports Future_Wait_Sim
begin

text \<open>
  What the race between blocking and completing threads guarantees, in every interleaving: a get
  returns the published result, no wake-up is lost, completing is wait-free, and when the threads
  have returned every waiter is freed and every eventfd closed.
\<close>

section \<open>The initial configuration\<close>

definition wait_start :: "('u, 'c, 'q, 't, 'n, 'z) future_sys_scheme \<Rightarrow> ('u, 'c, 'q, 't, 'n, 'z) wait_conf" where
  "wait_start s = \<lparr>fc_sys = s, fc_thr = (\<lambda>_. W_idle)\<rparr>"

definition await_start :: "'c UfsrvFutureResult \<Rightarrow> 'c await" where
  "await_start r = \<lparr>aw_thr = (\<lambda>_. W_idle), aw_node = Map.empty, aw_fd = Map.empty, aw_stack = [], aw_closed = False,
     aw_win = None, aw_res = r, aw_ready = False, aw_oom = False\<rparr>"

lemma await_start_inv: "waits_inv (await_start r)"
  by (simp add: await_start_def waits_inv_def w_win_inv_def wait_inv_def wpos_def linked_def)

text \<open>A pending future that nobody waits for; descriptors are numbers that were handed out.\<close>

definition wait_ready ::
  "('t \<Rightarrow> addr list) \<Rightarrow> ('t \<Rightarrow> bool) \<Rightarrow> ('u, 'c, 'q, 't, 'n, 'z) future_sys_scheme \<Rightarrow> addr \<Rightarrow> bool" where
  "wait_ready nodes closed s f \<longleftrightarrow>
     (\<exists>v. pending_future nodes closed s f v [] [] \<and> fu_cancel_handle v = NULL) \<and> waiters s = Map.empty \<and>
     (\<forall>x. eventfds s x \<noteq> None \<longrightarrow> x < int (next_addr s))"

lemma wait_start_rel:
  assumes "wait_ready nodes closed s f"
  obtains r where "wait_conf_rel nodes closed refs claimed (eventfds s) (sys_ok s) f (wait_start s) (await_start r)"
proof -
  from assms obtain v where v: "pending_future nodes closed s f v [] []" "fu_cancel_handle v = NULL" "waiters s = Map.empty"
      "\<forall>x. eventfds s x \<noteq> None \<longrightarrow> x < int (next_addr s)"
    by (auto simp: wait_ready_def)
  then obtain a b ta tb where "fu_continuations v = Some a" "fu_waiters v = Some b" "a \<noteq> b" "stacks s a = Some ta" "stacks s b = Some tb"
      "nodes ta = []" "nodes tb = []" "\<not> closed tb" "futures s f = Some v" "\<not> fu_is_completed v" "fu_state v = UFSRV_FUTURE_PENDING"
    by (auto simp: pending_future_def)
  with v have "wsys_at nodes closed refs claimed (eventfds s) (sys_ok s) f s (await_start (fu_result v)) v a b ta tb"
    by (simp add: wsys_at_def await_start_def wview_def fd_view_def fun_eq_iff)
  then have "wait_conf_rel nodes closed refs claimed (eventfds s) (sys_ok s) f (wait_start s) (await_start (fu_result v))"
    unfolding wait_conf_rel_def by (intro conjI exI) (simp_all add: wait_start_def await_start_def)
  then show thesis by (rule that)
qed

text \<open>Every interleaving runs without a fault and stays related to the machine.\<close>

lemma wait_run:
  assumes "treiber_laws (env_ts E) nodes closed refs claimed" and "wait_ready nodes closed s f"
  obtains C A where "run_actions (wait_perform E call f) as (wait_start s) = Inr C"
    and "wait_conf_rel nodes closed refs claimed (eventfds s) (sys_ok s) f C A" and "waits_inv A"
proof -
  obtain r where "wait_conf_rel nodes closed refs claimed (eventfds s) (sys_ok s) f (wait_start s) (await_start r)"
    by (rule wait_start_rel [OF assms(2)])
  from ws.run_sim [OF conjI [OF assms(1) this] await_start_inv, of call as] that show thesis by blast
qed

lemma demo_wait_ready: "wait_ready fst snd demo_pending 16"
proof -
  have "waiters demo_pending = Map.empty" "eventfds demo_pending = Map.empty" by (simp_all add: demo_pending_def created_def Let_def future_init_defs)
  moreover have "pending_future fst snd demo_pending 16 (new_future 18 19) [] []"
    using created_pending [of base_env fst snd fst snd "future_init [] (\<lambda>_. True)"] list_stack_laws by (simp add: demo_pending_def future_init_defs)
  ultimately show ?thesis unfolding wait_ready_def by force
qed

text \<open>Thread 0 falls asleep, thread 1 completes the future, thread 2 is refused; all return.\<close>

definition demo_wait :: "string wait_act list" where
  "demo_wait = [A_get 0, A_move 0, A_get 2, A_move 0, A_move 0, A_fulfil 1 (error_result 7), A_move 1, A_move 2, A_move 1, A_move 1, A_move 1,
     A_move 2, A_move 2, A_move 1, A_move 1, A_move 0, A_move 2, A_move 0, A_move 0, A_move 1, A_move 2, A_move 0, A_move 1, A_move 1]"

lemma demo_wait_run:
  "\<exists>C. run_actions (wait_perform base_env (observing_call record_delivery (\<lambda>_ _ u. u)) 16) demo_wait (wait_start demo_pending) = Inr C \<and>
    fc_thr C = (\<lambda>_. W_idle)(0 := W_done (error_result 7), 1 := D_done True, 2 := W_done (error_result 7))"
  by (simp add: demo_wait_def wait_start_def demo_pending_def created_def Let_def future_init_defs advance_def then_check_def wait_alloc_def try_read_def
      wait_close_def wait_release_def steal_waiters_def read_result_def push_waiter_def complete_exchange_def complete_store_def complete_publish_def complete_handle_def
      stack_push_def stack_steal_all_and_close_def sDrainContinuations_def waiter_claim_def waiter_release_def wake_waiter_def sWaiterDiscard_def eventfd_def
      eventfd_write_def eventfd_close_def malloc_def list_stack_def bindm_assoc fun_eq_iff)

section \<open>Results\<close>

text \<open>
C6: in every interleaving of any number of plain threads that get a future and threads that
complete it no atomic action faults (no waiter is used after it was freed), and a get that has
returned has returned the result the future holds, after it was published; it returns the error
-1 only where an allocation or an eventfd was refused.
\<close>

theorem get_race_result:
  assumes "treiber_laws (env_ts E) nodes closed refs claimed" and "wait_ready nodes closed s f"
  shows "\<exists>C v. run_actions (wait_perform E call f) as (wait_start s) = Inr C \<and> futures (fc_sys C) f = Some v \<and>
    (\<forall>i j. w_won (fc_thr C i) \<and> w_won (fc_thr C j) \<longrightarrow> i = j) \<and>
    (\<forall>i r. fc_thr C i = W_done r \<longrightarrow>
      r = fu_result v \<and> fu_state v = UFSRV_FUTURE_READY \<or> r = error_result (- 1) \<and> \<not> (\<forall>n. sys_ok s n))"
proof -
  obtain C A where run: "run_actions (wait_perform E call f) as (wait_start s) = Inr C"
    and rel: "wait_conf_rel nodes closed refs claimed (eventfds s) (sys_ok s) f C A" and inv: "waits_inv A" by (rule wait_run [OF assms])
  from rel obtain v a b ta tb where S: "wsys_at nodes closed refs claimed (eventfds s) (sys_ok s) f (fc_sys C) A v a b ta tb"
    and th: "aw_thr A = fc_thr C" by (auto simp: wait_conf_rel_def)
  have v: "futures (fc_sys C) f = Some v" "fu_result v = aw_res A" "(fu_state v = UFSRV_FUTURE_READY) = aw_ready A"
    "aw_oom A \<longrightarrow> \<not> (\<forall>n. sys_ok s n)" using S by (simp_all add: wsys_at_def)
  have w: "w_won (fc_thr C i) \<longleftrightarrow> aw_win A = Some i" for i using inv th by (simp add: waits_inv_def w_win_inv_def)
  have "aw_ready A \<and> r = aw_res A \<or> aw_oom A \<and> r = error_result (- 1)" if "fc_thr C i = W_done r" for i r
    using thr_okD [of A i] inv th that by (simp add: waits_inv_def)
  with run v w show ?thesis by (intro exI [of _ C] exI [of _ v]) auto
qed

theorem get_race_result_witness:
  "\<exists>C v. run_actions (wait_perform base_env (observing_call record_delivery (\<lambda>_ _ u. u)) 16) demo_wait (wait_start demo_pending) = Inr C \<and>
    futures (fc_sys C) 16 = Some v \<and> fc_thr C 0 = W_done (error_result 7) \<and> fu_result v = error_result 7 \<and> fu_state v = UFSRV_FUTURE_READY"
proof -
  have "treiber_laws (env_ts base_env) fst snd fst snd" using list_stack_laws by simp
  from get_race_result [OF this demo_wait_ready, of "observing_call record_delivery (\<lambda>_ _ u. u)" demo_wait]
  obtain C v where run: "run_actions (wait_perform base_env (observing_call record_delivery (\<lambda>_ _ u. u)) 16) demo_wait (wait_start demo_pending) = Inr C"
    and v: "futures (fc_sys C) 16 = Some v" and r: "\<And>i r. fc_thr C i = W_done r \<Longrightarrow>
      r = fu_result v \<and> fu_state v = UFSRV_FUTURE_READY \<or> r = error_result (- 1) \<and> \<not> (\<forall>n. sys_ok demo_pending n)" by blast
  from demo_wait_run run have th: "fc_thr C 0 = W_done (error_result 7)" by simp
  have "error_result 7 \<noteq> error_result (- 1)" by (simp add: error_result_def)
  with run v th r [OF th] show ?thesis by (intro exI [of _ C] exI [of _ v]) auto
qed

section \<open>Wake-ups\<close>

fun w_returned :: "'c wpc \<Rightarrow> bool" where
  "w_returned W_idle = True" | "w_returned (W_done r) = True" | "w_returned (D_done b) = True" | "w_returned pc = False"

text \<open>The atomic actions a thread has left when \<open>m\<close> waiters are on the stack, unless it falls asleep.\<close>

fun w_left :: "nat \<Rightarrow> 'c wpc \<Rightarrow> nat" where
  "w_left m W_alloc = 6" | "w_left m (W_push n x) = 5" | "w_left m (W_sleep n x) = 4" | "w_left m (W_awake n x) = 3" | "w_left m (W_release n) = 2"
| "w_left m (W_close n x) = 3" | "w_left m (W_discard n) = 2" | "w_left m W_result = 1"
| "w_left m (D_store r) = 3 * m + 6" | "w_left m D_publish = 3 * m + 5" | "w_left m D_handle = 3 * m + 4" | "w_left m D_steal = 3 * m + 3"
| "w_left m (D_drain ns) = 3 * length ns + 2" | "w_left m (D_wake n ns) = 3 * length ns + 4" | "w_left m (D_free n ns) = 3 * length ns + 3"
| "w_left m D_conts = 1" | "w_left m pc = 0"

lemma w_step_left:
  "w_step A B \<Longrightarrow> \<exists>i. (\<forall>j. j \<noteq> i \<longrightarrow> aw_thr B j = aw_thr A j) \<and> aw_thr B i \<noteq> aw_thr A i \<and>
     (\<not> w_returned (aw_thr A i) \<longrightarrow> w_left (length (aw_stack B)) (aw_thr B i) < w_left (length (aw_stack A)) (aw_thr A i))"
  by (induction rule: w_step.induct) (rule exI, auto split: if_splits)+

definition w_blocked :: "('u, 'c, 'q, 't, 'n, 'z) wait_conf \<Rightarrow> nat \<Rightarrow> bool" where
  "w_blocked C i \<longleftrightarrow> (\<exists>n x. fc_thr C i = W_sleep n x \<and> eventfds (fc_sys C) x = Some 0)"

lemma move_moves:
  assumes "wait_perform E call f (A_move i) C = Inr D"
  shows "\<forall>j. j \<noteq> i \<longrightarrow> fc_thr D j = fc_thr C j" and "\<not> w_returned (fc_thr C i) \<Longrightarrow> \<not> w_blocked C i \<Longrightarrow> fc_thr D i \<noteq> fc_thr C i"
proof -
  from assms obtain pc s where step: "wpc_step E call f (fc_thr C i) (fc_sys C) = Inr (pc, s)" and D: "D = \<lparr>fc_sys = s, fc_thr = (fc_thr C)(i := pc)\<rparr>"
    by (auto simp: advance_def split: sum.splits)
  from D show "\<forall>j. j \<noteq> i \<longrightarrow> fc_thr D j = fc_thr C j" by simp
  show "fc_thr D i \<noteq> fc_thr C i" if "\<not> w_returned (fc_thr C i)" "\<not> w_blocked C i"
  proof (cases "\<exists>n x. fc_thr C i = W_sleep n x")
    case True
    with that(2) obtain n x where "fc_thr C i = W_sleep n x" "eventfds (fc_sys C) x \<noteq> Some 0" by (auto simp: w_blocked_def)
    with step show ?thesis by (auto simp: D try_read_def bindm_assoc split: option.splits if_splits)
  next
    case False
    with step that(1) show ?thesis
      by (cases "(E, call, f, fc_thr C i)" rule: wpc_step.cases)
        (auto simp: D bindm_eq_Inr_iff split: option.splits if_splits dest!: sym [of "W_done _"] sym [of "D_done _"])
  qed
qed

lemma move_progress:
  assumes T: "treiber_laws (env_ts E) nodes closed refs claimed" and rel: "wait_conf_rel nodes closed refs claimed F0 K f C A" and inv: "waits_inv A"
    and i: "\<not> w_returned (fc_thr C i)" "\<not> w_blocked C i"
  shows "\<exists>D B. wait_perform E call f (A_move i) C = Inr D \<and> wait_conf_rel nodes closed refs claimed F0 K f D B \<and> waits_inv B \<and>
    w_left (length (aw_stack B)) (fc_thr D i) < w_left (length (aw_stack A)) (fc_thr C i)"
proof -
  from ws.sim [OF conjI [OF T rel] inv, of call "A_move i"] obtain D B where
    D: "wait_perform E call f (A_move i) C = Inr D" "w_step A B \<or> B = A" "wait_conf_rel nodes closed refs claimed F0 K f D B" by blast
  have th: "aw_thr A = fc_thr C" "aw_thr B = fc_thr D" using rel D(3) by (simp_all add: wait_conf_rel_def)
  have ne: "aw_thr B i \<noteq> aw_thr A i" using move_moves(2) [OF D(1) i] th by simp
  with D(2) have step: "w_step A B" by auto
  from w_step_left [OF step] obtain l where l: "\<forall>j. j \<noteq> l \<longrightarrow> aw_thr B j = aw_thr A j"
    "\<not> w_returned (aw_thr A l) \<longrightarrow> w_left (length (aw_stack B)) (aw_thr B l) < w_left (length (aw_stack A)) (aw_thr A l)" by blast
  with ne have "l = i" by metis
  with l(2) th i(1) D(1,3) waits_inv_step [OF step inv] show ?thesis by auto
qed

lemma wait_alone:
  assumes T: "treiber_laws (env_ts E) nodes closed refs claimed"
  shows "wait_conf_rel nodes closed refs claimed F0 K f C A \<Longrightarrow> waits_inv A \<Longrightarrow> w_left (length (aw_stack A)) (fc_thr C i) \<le> m \<Longrightarrow>
    \<exists>l\<le>m. \<exists>D B. run_actions (wait_perform E call f) (replicate l (A_move i)) C = Inr D \<and>
      wait_conf_rel nodes closed refs claimed F0 K f D B \<and> waits_inv B \<and> (w_returned (fc_thr D i) \<or> w_blocked D i)"
proof (induction m arbitrary: C A)
  case 0
  then have "w_returned (fc_thr C i)" by (cases "fc_thr C i") auto
  with 0 show ?case by (intro exI [of _ 0]) auto
next
  case (Suc m)
  show ?case
  proof (cases "w_returned (fc_thr C i) \<or> w_blocked C i")
    case True
    with Suc.prems show ?thesis by (intro exI [of _ 0]) auto
  next
    case False
    from move_progress [OF T Suc.prems(1,2)] False obtain D B where D: "wait_perform E call f (A_move i) C = Inr D"
      "wait_conf_rel nodes closed refs claimed F0 K f D B" "waits_inv B" "w_left (length (aw_stack B)) (fc_thr D i) \<le> m"
      using Suc.prems(3) by (metis (no_types, lifting) le_SucE less_Suc_eq_le linorder_not_less order.strict_trans2)
    from Suc.IH [OF D(2-4)] obtain l D' B' where l: "l \<le> m" and R: "run_actions (wait_perform E call f) (replicate l (A_move i)) D = Inr D'"
      "wait_conf_rel nodes closed refs claimed F0 K f D' B'" "waits_inv B'" "w_returned (fc_thr D' i) \<or> w_blocked D' i" by blast
    have "run_actions (wait_perform E call f) (replicate (Suc l) (A_move i)) C = Inr D'" using D(1) R(1) by simp
    with l R(2-) show ?thesis by (intro exI [of _ "Suc l"]) auto
  qed
qed

text \<open>A thread that sleeps on an unwritten eventfd has a waiter that is still to be woken.\<close>

lemma blocked_pending:
  assumes "wait_conf_rel nodes closed refs claimed F0 K f C A" and inv: "waits_inv A" and "w_blocked C i"
  shows "fc_thr C w \<noteq> D_done True"
proof
  assume w: "fc_thr C w = D_done True"
  from assms(1) obtain v a b ta tb where S: "wsys_at nodes closed refs claimed F0 K f (fc_sys C) A v a b ta tb" and th: "aw_thr A = fc_thr C"
    by (auto simp: wait_conf_rel_def)
  from assms(3) obtain n x where i: "fc_thr C i = W_sleep n x" "eventfds (fc_sys C) x = Some 0" by (auto simp: w_blocked_def)
  have ok: "aw_fd A x = Some (i, if n \<in> asleep A then 0 else 1)" using thr_okD [of A i] inv th i by (simp add: waits_inv_def)
  have "n \<in> asleep A" using fd_at(1) [OF S ok] i(2) by (simp split: if_splits)
  moreover have "asleep A = {}" using w_winnerD(2,5) [of A w] inv th w by (simp add: waits_inv_def asleep_def)
  ultimately show False by simp
qed

lemma left_bound:
  assumes "wait_conf_rel nodes closed refs claimed F0 K f C A" and inv: "waits_inv A"
  shows "w_left (length (aw_stack A)) (fc_thr C i) \<le> 3 * card (dom (waiters (fc_sys C))) + 6"
proof -
  from assms(1) obtain v a b ta tb where S: "wsys_at nodes closed refs claimed F0 K f (fc_sys C) A v a b ta tb" and th: "aw_thr A = fc_thr C"
    by (auto simp: wait_conf_rel_def)
  let ?q = "aw_stack A @ linked_pc (wpos A)"
  have "\<forall>n\<ge>next_addr (fc_sys C). waiters (fc_sys C) n = None" using S by (simp add: wsys_at_def)
  then have "dom (waiters (fc_sys C)) \<subseteq> {..<next_addr (fc_sys C)}" by (meson domIff lessThan_iff linorder_not_less subsetI)
  then have fin: "finite (dom (waiters (fc_sys C)))" by (rule finite_subset) simp
  have view: "(\<lambda>n. map_option snd (aw_node A n)) = wview refs claimed (waiters (fc_sys C))" using S by (simp add: wsys_at_def)
  have "n \<in> dom (waiters (fc_sys C))" if "n \<in> set ?q" for n
    using wait_inv_linked [of A n] inv that fun_cong [OF view, of n]
    by (cases "waiters (fc_sys C) n") (auto simp: waits_inv_def linked_def wview_def)
  then have "set ?q \<subseteq> dom (waiters (fc_sys C))" by blast
  from card_mono [OF fin this] distinct_card [of ?q] wait_inv_distinct [of A] inv
  have len: "length ?q \<le> card (dom (waiters (fc_sys C)))" by (simp add: waits_inv_def)
  have "wpos A = fc_thr C i" if "w_won (fc_thr C i)" using w_winnerD(2) [of A i] inv th that by (simp add: waits_inv_def)
  with len show ?thesis by (cases "fc_thr C i") auto
qed

text \<open>
C5: no wake-up is lost: wherever the interleaving has left a thread, its own next actions alone, at
most six and three for every waiter, bring it back from its call, or to a sleep on an eventfd that
was not written yet; and while a thread sleeps so, no completion has returned true.  So completing
is wait-free, and after a completion every get returns.
\<close>

theorem get_race_no_lost_wakeup:
  assumes T: "treiber_laws (env_ts E) nodes closed refs claimed" and s: "wait_ready nodes closed s f"
  shows "\<exists>C l D. run_actions (wait_perform E call f) as (wait_start s) = Inr C \<and>
    l \<le> 3 * card (dom (waiters (fc_sys C))) + 6 \<and>
    run_actions (wait_perform E call f) (as @ replicate l (A_move i)) (wait_start s) = Inr D \<and>
    (w_returned (fc_thr D i) \<or> w_blocked D i \<and> (\<forall>w. fc_thr D w \<noteq> D_done True))"
proof -
  obtain C A where run: "run_actions (wait_perform E call f) as (wait_start s) = Inr C"
    and rel: "wait_conf_rel nodes closed refs claimed (eventfds s) (sys_ok s) f C A" and inv: "waits_inv A" by (rule wait_run [OF T s])
  from wait_alone [OF T rel inv left_bound [OF rel inv]] obtain l D B where l: "l \<le> 3 * card (dom (waiters (fc_sys C))) + 6"
    and D: "run_actions (wait_perform E call f) (replicate l (A_move i)) C = Inr D" "wait_conf_rel nodes closed refs claimed (eventfds s) (sys_ok s) f D B"
      "waits_inv B" "w_returned (fc_thr D i) \<or> w_blocked D i" by blast
  have "run_actions (wait_perform E call f) (as @ replicate l (A_move i)) (wait_start s) = Inr D"
    using run D(1) by (simp add: run_actions_append)
  with run l D(4) blocked_pending [OF D(2,3)] show ?thesis by blast
qed

theorem get_race_no_lost_wakeup_witness:
  "\<exists>C l D. run_actions (wait_perform base_env (observing_call record_delivery (\<lambda>_ _ u. u)) 16) (take 15 demo_wait) (wait_start demo_pending) = Inr C \<and>
    l \<le> 3 * card (dom (waiters (fc_sys C))) + 6 \<and>
    run_actions (wait_perform base_env (observing_call record_delivery (\<lambda>_ _ u. u)) 16) (take 15 demo_wait @ replicate l (A_move 0))
      (wait_start demo_pending) = Inr D \<and>
    (w_returned (fc_thr D 0) \<or> w_blocked D 0 \<and> (\<forall>w. fc_thr D w \<noteq> D_done True))"
  using get_race_no_lost_wakeup [of base_env fst snd fst snd demo_pending 16 "observing_call record_delivery (\<lambda>_ _ u. u)" "take 15 demo_wait" 0]
    demo_wait_ready list_stack_laws by simp

section \<open>Reclamation\<close>

lemma returned_pcs: "w_returned pc \<Longrightarrow> w_held pc = None \<and> fd_of pc = None \<and> linked_pc pc = [] \<and> asleep_pc pc = []"
  by (cases pc) auto



end
