(* ===== verification/Future_Cancel_Spec.thy ===== *)
theory Future_Cancel_Spec
  imports Future_Properties
begin

text \<open>
  Cancelling a future: the composition of the futures with the cancellation token, through the
  real callbacks of the library.  A token that is cancelled completes an attached future with
  \<open>ECANCELED\<close>; every reference that the attachment created is given back.
\<close>

section \<open>Attaching\<close>

definition attach_node :: "addr \<Rightarrow> addr \<Rightarrow> 'c fnp UfsrvCancellationCallback" where
  "attach_node t f = \<lparr>cb_prev = NULL, cb_next = NULL, cb_token = t, cb_refcount = 2, cb_active = True, cb_claimed = False,
     cb_fn = F_sFutureCancelCallback, cb_context = Some f, cb_release_context = Some F_sFutureCancelRelease\<rparr>"

definition attached :: "addr \<Rightarrow> addr \<Rightarrow> 'c UfsrvFuture \<Rightarrow> 'c UfsrvFuture" where
  "attached t n v = v\<lparr>fu_cancel_token := Some t, fu_refcount := fu_refcount v + 1, fu_cancel_handle := Some n\<rparr>"

lemma attach_effect:
  assumes "futures s f = Some v" "\<not> fu_is_completed v" "fu_cancel_token v = NULL"
    and "tokens s t = Some \<lparr>tok_refcount = rc, tok_lock = False, tok_is_cancelled = False, tok_head = NULL\<rparr>"
    and "sys_ok s (next_addr s)"
  shows "UfsrvFutureAttachCancellation E call (Some f) (Some t) s =
    Inr (True, s\<lparr>next_addr := Suc (next_addr s), callbacks := (callbacks s)(next_addr s \<mapsto> attach_node t f),
      tokens := (tokens s)(t \<mapsto> \<lparr>tok_refcount = 2 + rc, tok_lock = False, tok_is_cancelled = False, tok_head = Some (next_addr s)\<rparr>),
      futures := (futures s)(f \<mapsto> attached t (next_addr s) v)\<rparr>)"
  using assms
  by (simp add: UfsrvFutureAttachCancellation_def UfsrvCancellationTokenRetainInternal_def UfsrvFutureRetain_def
      UfsrvCancellationTokenRegisterEx_def token_mutex_lock_def token_mutex_unlock_def cb_list_link_def
      attach_node_def attached_def)

text \<open>The callback that a cancelled token runs.\<close>

lemma rx_handler_cancel [simp]:
  "rx_handler E call (Call_void F_sFutureCancelCallback x) = sFutureCancelCallback E call x"
  "rx_handler E call (Call_void F_sFutureCancelRelease x) = sFutureCancelRelease E call x"
  by (simp_all add: rx_handler_def)

lemma cancel_attached:
  assumes T: "treiber_laws (env_ts E) nodes closed refs claimed"
    and pend: "pending_future nodes closed s f v [] []" "fu_cancel_handle v = Some n" "fu_refcount v > 1"
    and k: "tokens s t = Some \<lparr>tok_refcount = rc, tok_lock = False, tok_is_cancelled = False, tok_head = Some n\<rparr>" "rc > 1"
    and n: "callbacks s n = Some (attach_node t f)"
  shows "UfsrvCancellationTokenCancel (vcall (rx_dispatch E (Suc d))) (Suc m) (Some t) s =
    Inr ((), s\<lparr>stacks := drain_stacks E v (stacks s), callbacks := (callbacks s)(n := None),
      futures := (futures s)(f \<mapsto> settled (error_result ECANCELED) v),
      tokens := (tokens s)(t \<mapsto> \<lparr>tok_refcount = rc - 1, tok_lock = False, tok_is_cancelled = True, tok_head = NULL\<rparr>)\<rparr>)"
proof -
  from pend obtain a b ta tb where st: "futures s f = Some v" "\<not> fu_is_completed v"
      "fu_continuations v = Some a" "fu_waiters v = Some b" "a \<noteq> b" "stacks s a = Some ta" "stacks s b = Some tb"
      "nodes ta = []" "nodes tb = []"
    by (auto simp: pending_future_def)
  let ?k1 = "\<lparr>tok_refcount = rc, tok_lock = False, tok_is_cancelled = True, tok_head = NULL\<rparr>"
  let ?c1 = "(attach_node t f)\<lparr>cb_active := False, cb_claimed := True\<rparr>"
  let ?s1 = "s\<lparr>callbacks := (callbacks s)(n \<mapsto> ?c1), tokens := (tokens s)(t \<mapsto> ?k1)\<rparr>"
  let ?s2 = "s\<lparr>futures := (futures s)(f \<mapsto> completed (error_result ECANCELED) v),
      callbacks := (callbacks s)(n \<mapsto> ?c1\<lparr>cb_refcount := 1\<rparr>), tokens := (tokens s)(t \<mapsto> ?k1), stacks := drain_stacks E v (stacks s)\<rparr>"
  have detach: "UfsrvCancellationTokenCancel (vcall (rx_dispatch E (Suc d))) (Suc m) (Some t) s =
      cancel_dispatch_loop (vcall (rx_dispatch E (Suc d))) (Suc m) (Some n) ?s1"
    using k n by (simp add: UfsrvCancellationTokenCancel_def token_mutex_lock_def token_mutex_unlock_def attach_node_def)
  have call: "sFutureCancelCallback E (rx_dispatch E d) (Some f) ?s1 = Inr ((), ?s2)"
    using st pend(2) k treiber_lawsD(6) [OF T]
    by (simp add: sFutureCancelCallback_def sFutureComplete_def UfsrvCancellationTokenUnregister_def token_mutex_lock_def
        token_mutex_unlock_def attach_node_def sDrainWaiters_def sDrainContinuations_def stack_steal_all_and_close_def
        drain_stacks_def completed_def)
  show ?thesis
    unfolding detach
    using call k pend(3)
    by (simp add: sNodeDropRef_def token_mutex_lock_def token_mutex_unlock_def sNodeFree_def attach_node_def
        sFutureCancelRelease_def release_not_last sTokenRelease_def settled_def)
qed

section \<open>Properties\<close>

text \<open>
C16: attaching a token to a pending future and cancelling the token completes the future with
\<open>ECANCELED\<close>; the callback node is freed, the references that the attachment took on the future
and the token's callback list are given back, and only the future's own reference to the token
remains until the future is released.
\<close>

theorem attach_then_cancel:
  assumes T: "treiber_laws (env_ts E) nodes closed refs claimed"
    and f: "pending_future nodes closed s f v [] []" "fu_cancel_token v = NULL" "fu_refcount v > 0"
    and t: "tokens s t = Some \<lparr>tok_refcount = rc, tok_lock = False, tok_is_cancelled = False, tok_head = NULL\<rparr>" "rc > 0"
    and ok: "sys_ok s (next_addr s)" "callbacks s (next_addr s) = None"
  shows "\<exists>s1 s2. UfsrvFutureAttachCancellation E (rx_dispatch E d) (Some f) (Some t) s = Inr (True, s1) \<and>
    UfsrvCancellationTokenCancel (vcall (rx_dispatch E (Suc d))) (Suc m) (Some t) s1 = Inr ((), s2) \<and>
    futures s2 = (futures s)(f \<mapsto> (completed (error_result ECANCELED) v)\<lparr>fu_cancel_token := Some t\<rparr>) \<and>
    tokens s2 = (tokens s)(t \<mapsto> \<lparr>tok_refcount = 1 + rc, tok_lock = False, tok_is_cancelled = True, tok_head = NULL\<rparr>) \<and>
    callbacks s2 = callbacks s \<and> user s2 = user s"
proof -
  let ?n = "next_addr s" and ?v = "attached t (next_addr s) v"
  let ?s1 = "s\<lparr>next_addr := Suc ?n, callbacks := (callbacks s)(?n \<mapsto> attach_node t f),
      tokens := (tokens s)(t \<mapsto> \<lparr>tok_refcount = 2 + rc, tok_lock = False, tok_is_cancelled = False, tok_head = Some ?n\<rparr>),
      futures := (futures s)(f \<mapsto> ?v)\<rparr>"
  have 1: "UfsrvFutureAttachCancellation E (rx_dispatch E d) (Some f) (Some t) s = Inr (True, ?s1)"
    using f t ok(1) by (intro attach_effect) (auto simp: pending_future_def)
  let ?s2 = "?s1\<lparr>stacks := drain_stacks E ?v (stacks s), callbacks := ((callbacks s)(?n \<mapsto> attach_node t f))(?n := None),
      futures := (futures s)(f \<mapsto> settled (error_result ECANCELED) ?v),
      tokens := (tokens s)(t \<mapsto> \<lparr>tok_refcount = 2 + rc - 1, tok_lock = False, tok_is_cancelled = True, tok_head = NULL\<rparr>)\<rparr>"
  have pend: "pending_future nodes closed ?s1 f ?v [] []" using f(1) by (auto simp: pending_future_def attached_def)
  have 2: "UfsrvCancellationTokenCancel (vcall (rx_dispatch E (Suc d))) (Suc m) (Some t) ?s1 = Inr ((), ?s2)"
    using cancel_attached [OF T pend, of ?n t "2 + rc" d m] f(3) t(2) by (simp add: attached_def)
  have eq: "settled (error_result ECANCELED) ?v = (completed (error_result ECANCELED) v)\<lparr>fu_cancel_token := Some t\<rparr>"
    by (simp add: settled_def completed_def attached_def)
  show ?thesis
    by (rule exI [where x = ?s1], rule exI [where x = ?s2]) (use 1 2 ok(2) eq in \<open>simp add: fun_upd_idem\<close>)
qed

text \<open>A process with a pending future (16), its promise (17) and a token (20).\<close>

definition demo_token :: "(string list, string, addr list, addr list \<times> bool, int \<times> bool) future_sys" where
  "demo_token = (created base_env (future_init [] (\<lambda>_. True)))
     \<lparr>next_addr := 21, tokens := [20 \<mapsto> \<lparr>tok_refcount = 1, tok_lock = False, tok_is_cancelled = False, tok_head = NULL\<rparr>]\<rparr>"

lemma demo_token_facts:
  "pending_future fst snd demo_token 16 (new_future 18 19) [] []"
  "tokens demo_token 20 = Some \<lparr>tok_refcount = 1, tok_lock = False, tok_is_cancelled = False, tok_head = NULL\<rparr>"
  "sys_ok demo_token n" "callbacks demo_token n = None" "next_addr demo_token = 21" "user demo_token = []"
proof -
  show "pending_future fst snd demo_token 16 (new_future 18 19) [] []"
    by (auto simp: demo_token_def pending_future_def future_init_defs created_def Let_def list_stack_def)
qed (simp_all add: demo_token_def future_init_defs)

theorem attach_then_cancel_witness:
  "\<exists>s1 s2. UfsrvFutureAttachCancellation base_env (rx_dispatch base_env 1) (Some 16) (Some 20) demo_token = Inr (True, s1) \<and>
    UfsrvCancellationTokenCancel (vcall (rx_dispatch base_env 2)) 3 (Some 20) s1 = Inr ((), s2) \<and>
    (\<exists>v. futures s2 16 = Some v \<and> fu_state v = UFSRV_FUTURE_READY \<and> res_error (fu_result v) = 125)"
proof -
  have "UfsrvFutureAttachCancellation base_env (rx_dispatch base_env 1) (Some 16) (Some 20) demo_token = Inr (True, s1) \<Longrightarrow>
    UfsrvCancellationTokenCancel (vcall (rx_dispatch base_env (Suc 1))) (Suc 2) (Some 20) s1 = Inr ((), s2) \<Longrightarrow>
    UfsrvCancellationTokenCancel (vcall (rx_dispatch base_env 2)) 3 (Some 20) s1 = Inr ((), s2)" for s1 s2
    by (simp only: Suc_1 numeral_3_eq_3 numeral_2_eq_2)
  then show ?thesis
    using attach_then_cancel [of base_env fst snd fst snd demo_token 16 "new_future 18 19" 20 1 1 2] list_stack_laws demo_token_facts
    by (fastforce simp: error_result_def ECANCELED_def simp del: rx_dispatch.simps cancel_dispatch_loop.simps)
qed

section \<open>A failed registration leaves a live waiter\<close>

text \<open>
C17: when a coroutine calls the cancellable \<open>get\<close> and the registration of its callback runs out
of memory, the call returns the error \<open>-1\<close> but its waiter stays in the future's list, unclaimed
and with the coroutine: completing the future later submits a resume job for a coroutine that is
no longer waiting.
\<close>

theorem failed_cancellable_get_resumed:
  assumes T: "treiber_laws (env_ts E) nodes closed refs claimed" and Q: "mpsc_fifo (env_mpsc E) jobs_of"
    and f: "pending_future nodes closed s f v [] []" "fu_cancel_handle v = NULL"
    and t: "tokens s t = Some k" "\<not> tok_is_cancelled k"
    and co: "t_current_scheduler s (cur_thread s) = Some sch" "\<And>s. aco_get_co (env_aco E) s = Inr (Some co, s)"
    and sch: "schedulers s sch = Some c" "sch_is_running c" "eventfds s (sch_event_fd c) = Some e"
    and ok: "sys_ok s n" "\<not> sys_ok s (Suc n)" "sys_ok s (Suc (Suc n))" "sys_ok s (Suc (Suc (Suc n)))" "next_addr s = n"
  shows "\<exists>s1 s2 c' j ctx. UfsrvFutureGetWithCancellation E call (Some f) (Some t) s = Inr (error_result (- 1), s1) \<and>
    sFutureComplete E call f r s1 = Inr (True, s2) \<and> schedulers s2 sch = Some c' \<and>
    jobs_of (sch_queue c') = jobs_of (sch_queue c) @ [j] \<and>
    sched_jobs s2 j = Some \<lparr>job_callback = Some F_sResumeJob, job_callback_context = Some ctx\<rparr> \<and>
    resume_ctxs s2 ctx = Some \<lparr>rc_scheduler = sch, rc_coroutine = co\<rparr>"
proof -
  note L = treiber_lawsD [OF T]
  from f obtain a b ta tb where st: "futures s f = Some v" "\<not> fu_is_completed v" "fu_state v = UFSRV_FUTURE_PENDING"
      "fu_continuations v = Some a" "fu_waiters v = Some b" "a \<noteq> b" "stacks s a = Some ta" "stacks s b = Some tb"
      "\<not> closed ta" "\<not> closed tb" "nodes ta = []" "nodes tb = []"
    by (auto simp: pending_future_def)
  let ?base = "snd (tn_release (env_ts E) (snd (tn_release (env_ts E) (tn_retain (env_ts E) (tn_init (env_ts E))))))"
  let ?w = "\<lparr>wt_base = ?base, wt_coroutine = Some co, wt_scheduler = Some sch, wt_block_fd = - 1, wt_cancel_handle = NULL\<rparr>"
  let ?tb = "snd (ts_push (env_ts E) n tb)"
  let ?s1 = "s\<lparr>stacks := (stacks s)(b \<mapsto> ?tb), next_addr := Suc (Suc n), waiters := (waiters s)(n \<mapsto> ?w)\<rparr>"
  have get: "UfsrvFutureGetWithCancellation E call (Some f) (Some t) s = Inr (error_result (- 1), ?s1)"
    using st t co ok L
    by (simp add: UfsrvFutureGetWithCancellation_def UfsrvCancellationTokenIsCancelled_def UfsrvCoroutineCurrentScheduler_def
        UfsrvCoroutineCurrent_def push_waiter_def stack_push_def waiter_retain_def UfsrvCancellationTokenRegisterEx_def waiter_release_def)
  let ?ctx = "Suc (Suc n)" and ?j = "Suc (Suc (Suc n))"
  let ?c = "c\<lparr>sch_queue := mpsc_queue_insert (env_mpsc E) ?j (sch_queue c)\<rparr>"
  let ?s2 = "s\<lparr>futures := (futures s)(f \<mapsto> completed r v), next_addr := Suc ?j,
      resume_ctxs := (resume_ctxs s)(?ctx \<mapsto> \<lparr>rc_scheduler = sch, rc_coroutine = co\<rparr>),
      sched_jobs := (sched_jobs s)(?j \<mapsto> \<lparr>job_callback = Some F_sResumeJob, job_callback_context = Some ?ctx\<rparr>),
      schedulers := (schedulers s)(sch \<mapsto> ?c), eventfds := (eventfds s)(sch_event_fd c \<mapsto> Suc e),
      waiters := (waiters s)(n := None),
      stacks := (stacks s)(b \<mapsto> snd (ts_steal (env_ts E) ?tb), a \<mapsto> snd (ts_steal (env_ts E) ta))\<rparr>"
  have complete: "sFutureComplete E call f r ?s1 = Inr (True, ?s2)"
    using st f(2) sch ok L
    by (simp add: sFutureComplete_def sDrainWaiters_def sDrainContinuations_def stack_steal_all_and_close_def waiter_claim_def
        wake_waiter_def waiter_release_def UfsrvCoroutineSubmitResume_def UfsrvSchedulerSubmit_def sSubmitToScheduler_def
        submit_prepare_def submit_check_def submit_insert_def wake_worker_def eventfd_write_def completed_def)
  have jobs: "jobs_of (sch_queue ?c) = jobs_of (sch_queue c) @ [?j]" using mpsc_fifoD(2) [OF Q] by simp
  show ?thesis
    by (rule exI [where x = ?s1], rule exI [where x = ?s2], rule exI [where x = ?c], rule exI [where x = ?j], rule exI [where x = ?ctx])
      (use get complete jobs in simp)
qed

text \<open>A coroutine of scheduler 40, which has an empty queue, in a process whose second allocation fails.\<close>

definition demo_coro :: "(string list, string, addr list, addr list \<times> bool, int \<times> bool) future_sys" where
  "demo_coro = demo_token\<lparr>sys_ok := (\<lambda>n. n \<noteq> 22), t_current_scheduler := (\<lambda>_. Some 40),
     schedulers := [40 \<mapsto> \<lparr>sch_queue = [], sch_event_fd = 41, sch_thread = 42, sch_name = None, sch_is_running = True,
       sch_is_started = True, sch_is_joined = False, sch_is_worker_id_ready = True, sch_worker_id = 42\<rparr>],
     eventfds := [41 \<mapsto> 0]\<rparr>"

theorem failed_cancellable_get_resumed_witness:
  "\<exists>s1 s2 c' j ctx. UfsrvFutureGetWithCancellation base_env (rx_dispatch base_env 1) (Some 16) (Some 20) demo_coro =
      Inr (error_result (- 1), s1) \<and>
    sFutureComplete base_env (rx_dispatch base_env 1) 16 (error_result 0) s1 = Inr (True, s2) \<and>
    schedulers s2 40 = Some c' \<and> sch_queue c' = [j] \<and>
    sched_jobs s2 j = Some \<lparr>job_callback = Some F_sResumeJob, job_callback_context = Some ctx\<rparr> \<and>
    resume_ctxs s2 ctx = Some \<lparr>rc_scheduler = 40, rc_coroutine = 9\<rparr>"
proof -
  have s: "pending_future fst snd demo_coro 16 (new_future 18 19) [] []"
    "tokens demo_coro 20 = Some \<lparr>tok_refcount = 1, tok_lock = False, tok_is_cancelled = False, tok_head = NULL\<rparr>"
    "t_current_scheduler demo_coro (cur_thread demo_coro) = Some 40" "next_addr demo_coro = 21"
    "sys_ok demo_coro = (\<lambda>n. n \<noteq> 22)" "eventfds demo_coro 41 = Some 0"
    "schedulers demo_coro 40 = Some \<lparr>sch_queue = [], sch_event_fd = 41, sch_thread = 42, sch_name = None, sch_is_running = True,
       sch_is_started = True, sch_is_joined = False, sch_is_worker_id_ready = True, sch_worker_id = 42\<rparr>"
    using demo_token_facts by (simp_all add: demo_coro_def pending_future_def)
  have co: "aco_get_co (env_aco base_env) s' = Inr (Some 9, s')" for s' :: "(string list, string, addr list, addr list \<times> bool, int \<times> bool) future_sys"
    by (simp add: idle_aco_def)
  show ?thesis
    using failed_cancellable_get_resumed [of base_env fst snd fst snd id demo_coro 16 "new_future 18 19" 20 _ 40 9 _ 0 21
        "rx_dispatch base_env 1" "error_result 0", OF _ _ s(1) _ s(2) _ s(3) co s(7)] list_stack_laws list_queue_fifo s(4-6)
    by (simp del: rx_dispatch.simps)
qed

end
