(* ===== verification/Future_Operators_Spec.thy ===== *)
theory Future_Operators_Spec
  imports Future_Cancel_Spec
begin

text \<open>
  What the operators compute: the result of the output future as a function of the results of
  the inputs, that the operator's context and output promise are freed, and what happens to the
  input's value (borrowed or moved).
\<close>

section \<open>The output of an operator\<close>

text \<open>The next \<open>k\<close> allocations succeed.\<close>

definition can_allocate :: "nat \<Rightarrow> ('u, 'c, 'q, 't, 'n, 'z) future_sys_scheme \<Rightarrow> bool" where
  "can_allocate k s \<longleftrightarrow> (\<forall>i<k. sys_ok s (next_addr s + i))"

lemma create_ok:
  assumes "can_allocate k s" and "4 \<le> k"
  shows "UfsrvPromiseCreate E True s = Inr (Some (next_addr s + 1, next_addr s), created E s)"
proof -
  have "sys_ok s (next_addr s + i)" if "i < 4" for i using assms that by (simp add: can_allocate_def)
  from this [of 0] this [of 1] this [of 2] this [of 3] show ?thesis by (intro promise_create_ok) simp_all
qed

lemma malloc_ctx:
  assumes "can_allocate k s" and "4 < k"
  shows "malloc (created E s) = Inr (Some (next_addr s + 4), (created E s)\<lparr>next_addr := next_addr s + 5\<rparr>)"
  using assms by (simp add: can_allocate_def malloc_def created_def Let_def)

text \<open>An unfulfilled promise \<open>p\<close> of a future \<open>out\<close> that nobody observes yet.\<close>

definition out_ready ::
  "('t \<Rightarrow> addr list) \<Rightarrow> ('t \<Rightarrow> bool) \<Rightarrow> ('u, 'c, 'q, 't, 'n, 'z) future_sys_scheme \<Rightarrow> addr \<Rightarrow> addr \<Rightarrow> 'c UfsrvFuture \<Rightarrow> bool" where
  "out_ready nodes closed s p out w \<longleftrightarrow>
     promises s p = Some \<lparr>pr_future = Some out, pr_is_fulfilled = False\<rparr> \<and> pending_future nodes closed s out w [] [] \<and>
     fu_cancel_handle w = NULL \<and> fu_refcount w \<noteq> 1"

text \<open>The state after the promise was fulfilled with \<open>r\<close> and given up.\<close>

definition fulfilled ::
  "('u, 'c, 'q, 't, 'n, 'z) fenv \<Rightarrow> addr \<Rightarrow> addr \<Rightarrow> 'c UfsrvFuture \<Rightarrow> 'c UfsrvFutureResult \<Rightarrow>
   ('u, 'c, 'q, 't, 'n, 'z) future_sys_scheme \<Rightarrow> ('u, 'c, 'q, 't, 'n, 'z) future_sys_scheme" where
  "fulfilled E p out w r s = s\<lparr>stacks := drain_stacks E w (stacks s), futures := (futures s)(out \<mapsto> settled r w),
     promises := (promises s)(p := None)\<rparr>"

lemma fulfilled_simps [simp]:
  "futures (fulfilled E p out w r s) = (futures s)(out \<mapsto> settled r w)"
  "promises (fulfilled E p out w r s) = (promises s)(p := None)" "stacks (fulfilled E p out w r s) = drain_stacks E w (stacks s)"
  "user (fulfilled E p out w r s) = user s" "conts (fulfilled E p out w r s) = conts s"
  "tokens (fulfilled E p out w r s) = tokens s" "callbacks (fulfilled E p out w r s) = callbacks s"
  "map_ctxs (fulfilled E p out w r s) = map_ctxs s" "flatmap_ctxs (fulfilled E p out w r s) = flatmap_ctxs s"
  "onerror_ctxs (fulfilled E p out w r s) = onerror_ctxs s" "dos_ctxs (fulfilled E p out w r s) = dos_ctxs s"
  "all_ctxs (fulfilled E p out w r s) = all_ctxs s" "any_ctxs (fulfilled E p out w r s) = any_ctxs s"
  "any_regs (fulfilled E p out w r s) = any_regs s" "zip_ctxs (fulfilled E p out w r s) = zip_ctxs s"
  "sys_ok (fulfilled E p out w r s) = sys_ok s" "next_addr (fulfilled E p out w r s) = next_addr s"
  by (simp_all add: fulfilled_def)

lemma fulfil_out:
  assumes "treiber_laws (env_ts E) nodes closed refs claimed" and "out_ready nodes closed s p out w"
  shows "fulfil_result E call (Some p) r s = Inr ((), fulfilled E p out w r s)"
    and "fulfil_error E call (Some p) e s = Inr ((), fulfilled E p out w (error_result e) s)"
    and "fulfil_value E call (Some p) x fr s =
      Inr ((), fulfilled E p out w \<lparr>res_error = 0, res_value = x, res_free_value = fr\<rparr> s)"
  using assms fulfil_quiet [OF assms(1)] by (simp_all add: fulfil_eqs out_ready_def fulfilled_def)

text \<open>The state of an operator after it created its output and allocated its context (added to \<open>s\<close> before).\<close>

definition out_pending ::
  "('u, 'c, 'q, 't, 'n, 'z) fenv \<Rightarrow> ('u, 'c, 'q, 't, 'n, 'z) future_sys_scheme \<Rightarrow> ('u, 'c, 'q, 't, 'n, 'z) future_sys_scheme" where
  "out_pending E s = (created E s)\<lparr>next_addr := next_addr s + 5\<rparr>"

abbreviation out_future :: "('u, 'c, 'q, 't, 'n, 'z) future_sys_scheme \<Rightarrow> 'c UfsrvFuture" where
  "out_future s \<equiv> new_future (next_addr s + 2) (next_addr s + 3)"

lemma out_pending_simps [simp]:
  "futures (out_pending E s) = (futures s)(next_addr s \<mapsto> out_future s)"
  "promises (out_pending E s) = (promises s)(next_addr s + 1 \<mapsto> \<lparr>pr_future = Some (next_addr s), pr_is_fulfilled = False\<rparr>)"
  "stacks (out_pending E s) = (stacks s)(next_addr s + 2 \<mapsto> ts_new (env_ts E), next_addr s + 3 \<mapsto> ts_new (env_ts E))"
  "user (out_pending E s) = user s" "next_addr (out_pending E s) = next_addr s + 5" "sys_ok (out_pending E s) = sys_ok s"
  "conts (out_pending E s) = conts s" "tokens (out_pending E s) = tokens s" "callbacks (out_pending E s) = callbacks s"
  "map_ctxs (out_pending E s) = map_ctxs s" "flatmap_ctxs (out_pending E s) = flatmap_ctxs s"
  "onerror_ctxs (out_pending E s) = onerror_ctxs s" "dos_ctxs (out_pending E s) = dos_ctxs s"
  "all_ctxs (out_pending E s) = all_ctxs s" "any_ctxs (out_pending E s) = any_ctxs s"
  "any_regs (out_pending E s) = any_regs s" "zip_ctxs (out_pending E s) = zip_ctxs s"
  by (simp_all add: out_pending_def) (simp_all add: created_def Let_def)

lemma created_ctx_simps [simp]:
  "map_ctxs (created E s) = map_ctxs s" "flatmap_ctxs (created E s) = flatmap_ctxs s"
  "onerror_ctxs (created E s) = onerror_ctxs s" "dos_ctxs (created E s) = dos_ctxs s"
  "all_ctxs (created E s) = all_ctxs s" "any_ctxs (created E s) = any_ctxs s"
  "any_regs (created E s) = any_regs s" "zip_ctxs (created E s) = zip_ctxs s"
  by (simp_all add: created_def Let_def)

lemma out_pending_ctx:
  "(created E s)\<lparr>next_addr := next_addr s + 5, map_ctxs := m1\<rparr> = out_pending E (s\<lparr>map_ctxs := m1\<rparr>)"
  "(created E s)\<lparr>next_addr := next_addr s + 5, flatmap_ctxs := m2\<rparr> = out_pending E (s\<lparr>flatmap_ctxs := m2\<rparr>)"
  "(created E s)\<lparr>next_addr := next_addr s + 5, onerror_ctxs := m3\<rparr> = out_pending E (s\<lparr>onerror_ctxs := m3\<rparr>)"
  "(created E s)\<lparr>next_addr := next_addr s + 5, dos_ctxs := m4\<rparr> = out_pending E (s\<lparr>dos_ctxs := m4\<rparr>)"
  "(created E s)\<lparr>next_addr := next_addr s + 5, all_ctxs := m5\<rparr> = out_pending E (s\<lparr>all_ctxs := m5\<rparr>)"
  "(created E s)\<lparr>next_addr := next_addr s + 5, any_ctxs := m6\<rparr> = out_pending E (s\<lparr>any_ctxs := m6\<rparr>)"
  "(created E s)\<lparr>next_addr := next_addr s + 5, zip_ctxs := m7\<rparr> = out_pending E (s\<lparr>zip_ctxs := m7\<rparr>)"
  by (simp_all add: out_pending_def created_def Let_def)

lemma out_pending_ready:
  assumes "treiber_laws (env_ts E) nodes closed refs claimed"
  shows "out_ready nodes closed (out_pending E s) (Suc (next_addr s)) (next_addr s) (out_future s)"
  using treiber_lawsD(1,2) [OF assms] by (simp add: out_ready_def pending_future_def)

section \<open>Completed inputs\<close>

text \<open>A completed future without a token.\<close>

definition ready_future :: "('u, 'c, 'q, 't, 'n, 'z) future_sys_scheme \<Rightarrow> addr \<Rightarrow> 'c UfsrvFuture \<Rightarrow> bool" where
  "ready_future s f v \<longleftrightarrow> futures s f = Some v \<and> fu_state v = UFSRV_FUTURE_READY \<and> fu_is_completed v \<and> fu_cancel_token v = NULL"

lemma ready_then:
  assumes "ready_future s f v"
  shows "sFutureThen E call (Some f) (Some k) x s = bindm (call (Call_cont k f x)) (\<lambda>_. ret True) s"
  using assms by (simp add: ready_future_def sFutureThen_def)

lemma no_token:
  assumes "futures s f = Some v" and "fu_cancel_token v = NULL"
  shows "inherit_token E call f out s = Inr (Some out, s)"
  using assms by (simp add: inherit_token_def)

lemma rx_handler_conts [simp]:
  "rx_handler E call (Call_cont K_sMapContinuation f x) = sMapContinuation E call f x"
  "rx_handler E call (Call_cont K_sFlatMapContinuation f x) = sFlatMapContinuation E call f x"
  "rx_handler E call (Call_cont K_sMoveChainContinuation f x) = sMoveChainContinuation E call f x"
  "rx_handler E call (Call_cont K_sOnErrorContinuation f x) = sOnErrorContinuation E call f x"
  "rx_handler E call (Call_cont K_sDoOnSuccessContinuation f x) = sDoOnSuccessContinuation E call f x"
  "rx_handler E call (Call_cont K_sAllContinuation f x) = sAllContinuation E call f x"
  "rx_handler E call (Call_cont K_sAnyContinuation f x) = sAnyContinuation E call f x"
  "rx_handler E call (Call_cont K_sZipFirstContinuation f x) = sZipFirstContinuation E call f x"
  "rx_handler E call (Call_cont K_sZipSecondContinuation f x) = sZipSecondContinuation E call f x"
  by (simp_all add: rx_handler_def)

section \<open>Completing an input with one continuation\<close>

lemma complete_one:
  assumes T: "treiber_laws (env_ts E) nodes closed refs claimed"
    and pend: "pending_future nodes closed s f v [n] []" and v: "fu_cancel_handle v = NULL"
    and c: "conts s n = Some c" "refs (ct_base c) = 1" "\<not> claimed (ct_base c)"
    and run: "call (Call_cont (ct_fn c) f (ct_user c))
      (s\<lparr>futures := (futures s)(f \<mapsto> completed r v), stacks := drain_stacks E v (stacks s),
         conts := (conts s)(n \<mapsto> c\<lparr>ct_base := snd (tn_claim (env_ts E) (ct_base c))\<rparr>)\<rparr>) = Inr ((), s')"
    and keep: "conts s' n = Some (c\<lparr>ct_base := snd (tn_claim (env_ts E) (ct_base c))\<rparr>)"
  shows "sFutureComplete E call f r s = Inr (True, s'\<lparr>conts := (conts s')(n := None)\<rparr>)"
proof -
  note L = treiber_lawsD [OF T]
  from pend obtain a b ta tb where st: "futures s f = Some v" "\<not> fu_is_completed v"
      "fu_continuations v = Some a" "fu_waiters v = Some b" "a \<noteq> b" "stacks s a = Some ta" "stacks s b = Some tb"
      "nodes ta = [n]" "nodes tb = []"
    by (auto simp: pending_future_def)
  have eq: "drain_stacks E v (stacks s) = (stacks s)(b \<mapsto> snd (ts_steal (env_ts E) tb), a \<mapsto> snd (ts_steal (env_ts E) ta))"
    using st by (simp add: drain_stacks_def)
  show ?thesis
    using st v c run keep L unfolding eq completed_def
    by (simp add: sFutureComplete_def sDrainWaiters_def sDrainContinuations_def stack_steal_all_and_close_def
        sRunContinuation_def cont_claim_def sNodeRelease_def cont_release_def)
qed

section \<open>map\<close>

text \<open>The result of a map: an error passes, \<open>NULL\<close> from the mapper is the error \<open>-1\<close>.\<close>

definition map_result :: "(ptr \<Rightarrow> ptr) \<Rightarrow> 'c fnp option \<Rightarrow> 'c UfsrvFutureResult \<Rightarrow> 'c UfsrvFutureResult" where
  "map_result h fr r =
     (if res_error r \<noteq> 0 then error_result (res_error r)
      else case h (res_value r) of
        None \<Rightarrow> error_result (- 1) | Some y \<Rightarrow> \<lparr>res_error = 0, res_value = Some y, res_free_value = fr\<rparr>)"

lemma map_continuation:
  assumes T: "treiber_laws (env_ts E) nodes closed refs claimed" and out: "out_ready nodes closed s p out w"
    and app: "\<And>x s. app_map E (mc_mapper m) x (mc_user m) s = Inr (h x, s)"
    and m: "map_ctxs s ctx = Some m" "mc_out_promise m = Some p" and f: "futures s f = Some v"
  shows "sMapContinuation E call f (Some ctx) s =
    Inr ((), (fulfilled E p out w (map_result h (mc_free_value m) (fu_result v)) s)\<lparr>map_ctxs := (map_ctxs s)(ctx := None)\<rparr>)"
  using m f app fulfil_out [OF T out]
  by (cases "h (res_value (fu_result v))") (auto simp: sMapContinuation_def map_result_def)

text \<open>
Mapping a completed future gives a completed future: an error passes through unchanged, a
value is mapped and owned by the output with the given destructor, \<open>NULL\<close> from the mapper is
the error \<open>-1\<close>.  The input keeps its value, and neither the context nor the output promise leaks.
\<close>

lemma map_on_ready:
  assumes T: "treiber_laws (env_ts E) nodes closed refs claimed" and fresh: "fresh_heaps s" "map_ctxs s (next_addr s + 4) = None"
    and ok: "can_allocate 5 s" and f: "ready_future s f v" and app: "\<And>y s. app_map E g y x s = Inr (h y, s)"
  shows "\<exists>s'. UfsrvFutureMapEx E (rx_dispatch E (Suc d)) (Some f) (Some g) x fr s = Inr (Some (next_addr s), s') \<and>
    futures s' = (futures s)(next_addr s \<mapsto> settled (map_result h fr (fu_result v)) (out_future s)) \<and>
    promises s' = promises s \<and> map_ctxs s' = map_ctxs s \<and> user s' = user s"
proof -
  let ?n = "next_addr s"
  let ?m = "\<lparr>mc_out_promise = Some (Suc ?n), mc_mapper = g, mc_user = x, mc_free_value = fr\<rparr>"
  let ?s0 = "s\<lparr>map_ctxs := (map_ctxs s)(?n + 4 \<mapsto> ?m)\<rparr>"
  have fn: "f \<noteq> ?n" and fv: "futures s f = Some v" "fu_cancel_token v = NULL"
    using f fresh(1) by (auto simp: ready_future_def fresh_heaps_def)
  have f0: "ready_future (out_pending E ?s0) f v" using f fn by (simp add: ready_future_def)
  let ?s1 = "(fulfilled E (Suc ?n) ?n (out_future s) (map_result h fr (fu_result v)) (out_pending E ?s0))\<lparr>map_ctxs := map_ctxs s\<rparr>"
  have "sMapContinuation E (rx_dispatch E d) f (Some (?n + 4)) (out_pending E ?s0) = Inr ((), ?s1)"
    using map_continuation [OF T out_pending_ready [OF T, of ?s0], of ?m h "?n + 4" f v "rx_dispatch E d"] app fv fn fresh(2)
    by (simp add: fun_upd_idem)
  then have reg: "sFutureThen E (rx_dispatch E (Suc d)) (Some f) (Some K_sMapContinuation) (Some (?n + 4)) (out_pending E ?s0) = Inr (True, ?s1)"
    using ready_then [OF f0, of E "rx_dispatch E (Suc d)" K_sMapContinuation "Some (?n + 4)"] by simp
  have tok: "inherit_token E (rx_dispatch E (Suc d)) f ?n ?s1 = Inr (Some ?n, ?s1)" using fn fv by (intro no_token [of _ _ v]) simp_all
  have "UfsrvFutureMapEx E (rx_dispatch E (Suc d)) (Some f) (Some g) x fr s = Inr (Some ?n, ?s1)"
    using create_ok [OF ok, of E] malloc_ctx [OF ok, of E] reg tok
    by (simp add: UfsrvFutureMapEx_def sFutureMap_def out_pending_ctx del: rx_dispatch.simps)
  then show ?thesis
    using fresh(1) by (intro exI [of _ ?s1]) (auto simp: fresh_heaps_def fun_upd_idem)
qed

text \<open>
C19: mapping a pending future gives a pending output, and completing the input later completes
the output with the mapped result, exactly as if the input had been completed before; context,
continuation node and output promise are freed.
\<close>

theorem map_on_pending:
  assumes T: "treiber_laws (env_ts E) nodes closed refs claimed" and fresh: "fresh_heaps s" "map_ctxs s (next_addr s + 4) = None"
      "conts s (next_addr s + 5) = None"
    and ok: "can_allocate 6 s" and f: "pending_future nodes closed s f v [] []" "fu_cancel_handle v = NULL" "fu_cancel_token v = NULL"
    and app: "\<And>y s. app_map E g y x s = Inr (h y, s)"
  shows "\<exists>s1 s2. UfsrvFutureMapEx E (rx_dispatch E (Suc d)) (Some f) (Some g) x fr s = Inr (Some (next_addr s), s1) \<and>
    UfsrvFutureIsReady (Some (next_addr s)) s1 = Inr (False, s1) \<and>
    sFutureComplete E (rx_dispatch E (Suc d)) f r s1 = Inr (True, s2) \<and>
    futures s2 = (futures s)(f \<mapsto> completed r v, next_addr s \<mapsto> settled (map_result h fr r) (out_future s)) \<and>
    promises s2 = promises s \<and> map_ctxs s2 = map_ctxs s \<and> conts s2 = conts s \<and> user s2 = user s"
proof -
  let ?n = "next_addr s" and ?D = "rx_dispatch E (Suc d)"
  let ?m = "\<lparr>mc_out_promise = Some (Suc ?n), mc_mapper = g, mc_user = x, mc_free_value = fr\<rparr>"
  let ?s0 = "s\<lparr>map_ctxs := (map_ctxs s)(?n + 4 \<mapsto> ?m)\<rparr>"
  note L = treiber_lawsD [OF T]
  from f obtain a b ta tb where st: "futures s f = Some v" "fu_continuations v = Some a" "fu_waiters v = Some b" "a \<noteq> b"
      "stacks s a = Some ta" "stacks s b = Some tb"
    by (auto simp: pending_future_def)
  have fn: "f \<noteq> ?n" "a \<noteq> Suc (Suc ?n)" "a \<noteq> ?n + 3" "b \<noteq> Suc (Suc ?n)" "b \<noteq> ?n + 3"
    using st fresh(1) by (auto simp: fresh_heaps_def)
  have pend1: "pending_future nodes closed (out_pending E ?s0) f v [] []"
    using f(1) st fn by (auto simp: pending_future_def)
  have ok1: "sys_ok (out_pending E ?s0) (next_addr (out_pending E ?s0))" using ok by (simp add: can_allocate_def)
  let ?s1 = "out_pending E ?s0" and ?k = "next_addr (out_pending E ?s0)"
  obtain S c where reg: "UfsrvFutureThen E ?D (Some f) (Some K_sMapContinuation) (Some (?n + 4)) ?s1 =
        Inr (True, ?s1\<lparr>next_addr := Suc ?k, stacks := S, conts := (conts ?s1)(?k \<mapsto> c)\<rparr>)"
    and c: "refs (ct_base c) = 1" "\<not> claimed (ct_base c)" "ct_fn c = K_sMapContinuation" "ct_user c = Some (?n + 4)"
    and S: "\<And>a'. Some a' \<noteq> fu_continuations v \<Longrightarrow> S a' = stacks ?s1 a'"
    and pend2: "pending_future nodes closed (?s1\<lparr>next_addr := Suc ?k, stacks := S, conts := (conts ?s1)(?k \<mapsto> c)\<rparr>) f v [?k] []"
    by (rule then_on_pending [OF T pend1 ok1]) (rule that; assumption)
  let ?s2 = "?s1\<lparr>next_addr := Suc ?k, stacks := S, conts := (conts ?s1)(?k \<mapsto> c)\<rparr>"
  have reg': "sFutureThen E ?D (Some f) (Some K_sMapContinuation) (Some (?n + 4)) (out_pending E ?s0) = Inr (True, ?s2)"
    using reg by (simp add: UfsrvFutureThen_def)
  have map_run: "UfsrvFutureMapEx E ?D (Some f) (Some g) x fr s = Inr (Some ?n, ?s2)"
    using create_ok [OF ok, of E] malloc_ctx [OF ok, of E] reg' no_token [of ?s2 f v E ?D ?n] st(1) fn(1) f(3)
    by (simp add: UfsrvFutureMapEx_def sFutureMap_def out_pending_ctx del: rx_dispatch.simps)
  let ?c = "c\<lparr>ct_base := snd (tn_claim (env_ts E) (ct_base c))\<rparr>"
  let ?s3 = "?s2\<lparr>futures := (futures ?s2)(f \<mapsto> completed r v), stacks := drain_stacks E v (stacks ?s2), conts := (conts ?s2)(?k \<mapsto> ?c)\<rparr>"
  have out3: "out_ready nodes closed ?s3 (Suc ?n) ?n (out_future s)"
    using st fn S [of "Suc (Suc ?n)"] S [of "?n + 3"] L(1,2) by (simp add: out_ready_def pending_future_def drain_stacks_def)
  let ?s4 = "(fulfilled E (Suc ?n) ?n (out_future s) (map_result h fr r) ?s3)\<lparr>map_ctxs := map_ctxs s\<rparr>"
  have "sMapContinuation E (rx_dispatch E d) f (Some (?n + 4)) ?s3 = Inr ((), ?s4)"
    using map_continuation [OF T out3, of ?m h "?n + 4" f "completed r v" "rx_dispatch E d"] app fresh(2) by (simp add: fun_upd_idem)
  then have "sFutureComplete E ?D f r ?s2 = Inr (True, ?s4\<lparr>conts := (conts ?s4)(?k := None)\<rparr>)"
    by (intro complete_one [OF T pend2 f(2), of c]) (use c in simp_all)
  moreover have "UfsrvFutureIsReady (Some ?n) ?s2 = Inr (False, ?s2)" by (simp add: UfsrvFutureIsReady_def)
  moreover have "promises s (Suc ?n) = None" using fresh(1) by (simp add: fresh_heaps_def)
  ultimately show ?thesis
    using map_run fresh(3) fn(1)
    by (intro exI [where x = ?s2] exI [where x = "?s4\<lparr>conts := (conts ?s4)(?k := None)\<rparr>"])
      (simp add: fun_upd_idem fun_upd_twist)
qed

theorem map_on_pending_witness:
  "\<exists>s1 s2. UfsrvFutureMapEx base_env (rx_dispatch base_env (Suc 0)) (Some 16) (Some ''succ'') NULL None
      (created base_env (future_init () (\<lambda>_. True)) :: (unit, string, addr list, addr list \<times> bool, int \<times> bool) future_sys) = Inr (Some 20, s1) \<and>
    sFutureComplete base_env (rx_dispatch base_env (Suc 0)) 16 \<lparr>res_error = 0, res_value = Some 5, res_free_value = None\<rparr> s1 = Inr (True, s2) \<and>
    (\<exists>v. futures s2 20 = Some v \<and> fu_result v = \<lparr>res_error = 0, res_value = Some 6, res_free_value = None\<rparr>)"
proof -
  let ?init = "future_init () (\<lambda>_. True) :: (unit, string, addr list, addr list \<times> bool, int \<times> bool) future_sys"
  let ?s = "created base_env ?init"
  let ?r = "\<lparr>res_error = 0, res_value = Some 5, res_free_value = None\<rparr> :: string UfsrvFutureResult"
  have T: "treiber_laws (env_ts base_env) fst snd fst snd" using list_stack_laws by simp
  have n: "next_addr ?init = 16" by (simp add: future_init_defs)
  have p: "pending_future fst snd ?s 16 (new_future 18 19) [] []" using created_pending [OF T, of ?init] by (simp add: n)
  have s: "next_addr ?s = 20" "fresh_heaps ?s" "can_allocate 6 ?s" "map_ctxs ?s (next_addr ?s + 4) = None"
    "conts ?s (next_addr ?s + 5) = None"
    by (simp_all add: fresh_heaps_def can_allocate_def future_init_defs)
  show ?thesis
    using map_on_pending [OF T s(2,4,5,3) p, of "''succ''" NULL "map_option Suc" 0 None ?r] s(1)
    by (auto simp: map_result_def simp del: rx_dispatch.simps)
qed

section \<open>Moving a result\<close>

text \<open>Moving the result out of a completed future: the source is cleared.\<close>

definition moved :: "'c UfsrvFuture \<Rightarrow> 'c UfsrvFuture" where
  "moved v = v\<lparr>fu_is_consumed := True, fu_result := zero_result\<rparr>"

lemma moved_simps [simp]:
  "fu_is_consumed (moved v)" "fu_result (moved v) = zero_result" "fu_refcount (moved v) = fu_refcount v"
  "fu_cancel_token (moved v) = fu_cancel_token v" "fu_state (moved v) = fu_state v"
  by (simp_all add: moved_def)

lemma move_chain:
  assumes T: "treiber_laws (env_ts E) nodes closed refs claimed" and out: "out_ready nodes closed s p out w"
    and i: "futures s i = Some v" "i \<noteq> out"
  shows "sMoveChainContinuation E call i (Some p) s =
    Inr ((), (fulfilled E p out w (fu_result v) s)\<lparr>futures := (futures s)(out \<mapsto> settled (fu_result v) w, i \<mapsto> v\<lparr>fu_result := zero_result\<rparr>)\<rparr>)"
proof -
  have "sMoveChainContinuation E call i (Some p) s =
      bindm (fulfil_result E call (Some p) (fu_result v)) (\<lambda>_. upd_future i (\<lambda>v. v\<lparr>fu_result := zero_result\<rparr>)) s"
    using i by (simp add: sMoveChainContinuation_def fulfil_result_def bindm_assoc)
  then show ?thesis using fulfil_out(1) [OF T out, of call "fu_result v"] i by simp
qed

lemma move_or_einval_effect:
  assumes T: "treiber_laws (env_ts E) nodes closed refs claimed" and out: "out_ready nodes closed s p out w"
    and f: "futures s f = Some v" "f \<noteq> out"
  shows "move_or_einval E call (Some f) f (Some p) s =
    Inr ((), if fu_is_consumed v then fulfilled E p out w (error_result EINVAL) s
      else (fulfilled E p out w (fu_result v) s)\<lparr>futures := (futures s)(out \<mapsto> settled (fu_result v) w, f \<mapsto> moved v)\<rparr>)"
proof -
  let ?s = "s\<lparr>futures := (futures s)(f \<mapsto> v\<lparr>fu_is_consumed := True\<rparr>)\<rparr>"
  have out': "out_ready nodes closed ?s p out w" using out f(2) by (auto simp: out_ready_def pending_future_def)
  show ?thesis
  proof (cases "fu_is_consumed v")
    case True
    then have "?s = s" using f(1) by (simp add: fun_upd_idem)
    with True show ?thesis using f fulfil_out(2) [OF T out, of call EINVAL]
      by (simp add: move_or_einval_def sConsumeOnce_def)
  next
    case False
    have "fulfilled E p out w (fu_result v) ?s = (fulfilled E p out w (fu_result v) s)
        \<lparr>futures := (futures s)(f \<mapsto> v\<lparr>fu_is_consumed := True\<rparr>, out \<mapsto> settled (fu_result v) w)\<rparr>"
      by (simp add: fulfilled_def)
    with False show ?thesis using f fulfil_out(1) [OF T out', of call "fu_result v"]
      by (simp add: move_or_einval_def sConsumeOnce_def moved_def fun_upd_twist)
  qed
qed

end
