(* ===== verification/Future_Chain_Spec.thy ===== *)
theory Future_Chain_Spec
  imports Future_Operators_Spec
begin

text \<open>
  The operators that hand a future's result on: flatMap and onError take over the result of the
  future that the application returns, onError and doOnSuccess move the input's own result.
\<close>

section \<open>Taking over an inner future\<close>

text \<open>
  The result that is handed on, and the inner future afterwards: a future whose value was already
  taken gives \<open>EINVAL\<close>, and the reference that came with the future is dropped.
\<close>

definition chain_result :: "'c UfsrvFuture \<Rightarrow> 'c UfsrvFutureResult" where
  "chain_result v = (if fu_is_consumed v then error_result EINVAL else fu_result v)"

definition chained :: "'c UfsrvFuture \<Rightarrow> 'c UfsrvFuture" where
  "chained v = (if fu_is_consumed v then v else moved v)\<lparr>fu_refcount := fu_refcount v - 1\<rparr>"

text \<open>The part that \<^verbatim>\<open>sFlatMapContinuation\<close> and \<^verbatim>\<open>sOnErrorContinuation\<close> have in common.\<close>

definition take_over ::
  "('u, 'c, 'q, 't, 'n, 'z) fenv \<Rightarrow> ('u, 'c, 'q, 't, 'n, 'z) fcall \<Rightarrow> addr \<Rightarrow> ptr \<Rightarrow> ('u, 'c, 'q, 't, 'n, 'z, unit) fprog" where
  "take_over E call i out_promise =
     bindm (sConsumeOnce i) (\<lambda>won.
     if \<not> won then
       bindm (fulfil_error E call out_promise EINVAL) (\<lambda>_. UfsrvFutureRelease E call (Some i))
     else
       bindm (sFutureThen E call (Some i) (Some K_sMoveChainContinuation) out_promise) (\<lambda>_.
       UfsrvFutureRelease E call (Some i)))"

lemma take_over_effect:
  assumes T: "treiber_laws (env_ts E) nodes closed refs claimed" and out: "out_ready nodes closed s p out w"
    and i: "ready_future s i v" "fu_refcount v \<noteq> 1" "i \<noteq> out"
  shows "take_over E (rx_dispatch E (Suc d)) i (Some p) s =
    Inr ((), (fulfilled E p out w (chain_result v) s)\<lparr>futures := (futures s)(out \<mapsto> settled (chain_result v) w, i \<mapsto> chained v)\<rparr>)"
proof -
  let ?s = "s\<lparr>futures := (futures s)(i \<mapsto> v\<lparr>fu_is_consumed := True\<rparr>)\<rparr>"
  have fi: "futures s i = Some v" using i(1) by (simp add: ready_future_def)
  have out': "out_ready nodes closed ?s p out w" using out i(3) by (auto simp: out_ready_def pending_future_def)
  show ?thesis
  proof (cases "fu_is_consumed v")
    case True
    then have "?s = s" using fi by (simp add: fun_upd_idem)
    with True show ?thesis using fi i(2,3) fulfil_out(2) [OF T out, of "rx_dispatch E (Suc d)" EINVAL]
      by (simp add: take_over_def sConsumeOnce_def release_not_last chain_result_def chained_def del: rx_dispatch.simps)
  next
    case False
    have ready: "ready_future ?s i (v\<lparr>fu_is_consumed := True\<rparr>)" using i(1) by (simp add: ready_future_def)
    note mv = move_chain [OF T out', of i "v\<lparr>fu_is_consumed := True\<rparr>" "rx_dispatch E d"]
    show ?thesis
      using False fi i(2,3) ready_then [OF ready, of E "rx_dispatch E (Suc d)" K_sMoveChainContinuation "Some p"] mv
      by (simp add: take_over_def sConsumeOnce_def release_not_last chain_result_def chained_def moved_def fulfilled_def fun_upd_twist)
  qed
qed

section \<open>A process with completed futures\<close>

text \<open>Futures 16 and 20 hold the values 5 and 7, future 24 the error 3; nothing else is allocated.\<close>

definition demo_ready :: "(string list, string, addr list, addr list \<times> bool, int \<times> bool) future_sys" where
  "demo_ready = (future_init [] (\<lambda>_. True))\<lparr>next_addr := 28,
     futures := [16 \<mapsto> completed \<lparr>res_error = 0, res_value = Some 5, res_free_value = None\<rparr> (new_future 18 19),
       20 \<mapsto> completed \<lparr>res_error = 0, res_value = Some 7, res_free_value = None\<rparr> (new_future 22 23),
       24 \<mapsto> completed (error_result 3) (new_future 26 27)],
     stacks := [18 \<mapsto> ([], True), 19 \<mapsto> ([], True), 22 \<mapsto> ([], True), 23 \<mapsto> ([], True), 26 \<mapsto> ([], True), 27 \<mapsto> ([], True)]\<rparr>"

lemma demo_ready_facts:
  "ready_future demo_ready 16 (completed \<lparr>res_error = 0, res_value = Some 5, res_free_value = None\<rparr> (new_future 18 19))"
  "ready_future demo_ready 20 (completed \<lparr>res_error = 0, res_value = Some 7, res_free_value = None\<rparr> (new_future 22 23))"
  "ready_future demo_ready 24 (completed (error_result 3) (new_future 26 27))"
  "fresh_heaps demo_ready" "can_allocate k demo_ready" "next_addr demo_ready = 28" "user demo_ready = []"
  "flatmap_ctxs demo_ready n = None" "onerror_ctxs demo_ready n = None" "dos_ctxs demo_ready n = None"
  "all_ctxs demo_ready n = None" "any_ctxs demo_ready n = None" "any_regs demo_ready n = None" "zip_ctxs demo_ready n = None"
  by (simp_all add: demo_ready_def ready_future_def fresh_heaps_def can_allocate_def future_init_defs)

lemma base_laws: "treiber_laws (env_ts base_env) fst snd fst snd"
  using list_stack_laws by simp

section \<open>flatMap\<close>

lemma sFlatMapContinuation_take_over:
  assumes "futures s f = Some v" and "flatmap_ctxs s ctx = Some m" "fc_token m = NULL" and "res_error (fu_result v) = 0"
    and "app_flatmap E (fc_mapper m) (res_value (fu_result v)) (fc_user m) s = Inr (Some i, s)"
  shows "sFlatMapContinuation E call f (Some ctx) s =
    bindm (take_over E call i (fc_out_promise m)) (\<lambda>_. free_obj flatmap_ctxs flatmap_ctxs_update ctx) s"
  using assms by (simp add: sFlatMapContinuation_def take_over_def bindm_assoc) (simp add: bindm_def split: sum.split prod.split)

text \<open>The result of a flatMap, given the future that the mapper returned.\<close>

definition flat_result :: "'c UfsrvFutureResult \<Rightarrow> (addr \<times> 'c UfsrvFuture) option \<Rightarrow> 'c UfsrvFutureResult" where
  "flat_result r inner =
     (if res_error r \<noteq> 0 then error_result (res_error r)
      else case inner of None \<Rightarrow> error_result (- 1) | Some (i, v) \<Rightarrow> chain_result v)"

text \<open>The futures afterwards: the output, and the inner future if there was one.\<close>

definition with_inner ::
  "(addr \<times> 'c UfsrvFuture) option \<Rightarrow> addr \<Rightarrow> 'c UfsrvFuture \<Rightarrow> (addr \<rightharpoonup> 'c UfsrvFuture) \<Rightarrow> (addr \<rightharpoonup> 'c UfsrvFuture)" where
  "with_inner inner out w F = (case inner of None \<Rightarrow> F(out \<mapsto> w) | Some (i, v) \<Rightarrow> F(out \<mapsto> w, i \<mapsto> chained v))"

lemma flatmap_continuation:
  assumes T: "treiber_laws (env_ts E) nodes closed refs claimed" and out: "out_ready nodes closed s p out w"
    and m: "flatmap_ctxs s ctx = Some m" "fc_out_promise m = Some p" "fc_token m = NULL" and f: "futures s f = Some v"
    and app: "\<And>s. app_flatmap E (fc_mapper m) (res_value (fu_result v)) (fc_user m) s = Inr (map_option fst inner, s)"
    and inner: "\<And>i u. inner = Some (i, u) \<Longrightarrow> res_error (fu_result v) = 0 \<and> ready_future s i u \<and> fu_refcount u \<noteq> 1 \<and> i \<noteq> out"
  shows "sFlatMapContinuation E (rx_dispatch E (Suc d)) f (Some ctx) s =
    Inr ((), (fulfilled E p out w (flat_result (fu_result v) inner) s)
      \<lparr>futures := with_inner inner out (settled (flat_result (fu_result v) inner) w) (futures s), flatmap_ctxs := (flatmap_ctxs s)(ctx := None)\<rparr>)"
proof (cases inner)
  case None
  let ?s = "\<lambda>r. (fulfilled E p out w r s)\<lparr>flatmap_ctxs := (flatmap_ctxs s)(ctx := None)\<rparr>"
  have "(fulfilled E p out w r s)\<lparr>futures := (futures s)(out \<mapsto> settled r w), flatmap_ctxs := (flatmap_ctxs s)(ctx := None)\<rparr> = ?s r" for r
    by (simp add: fulfilled_def)
  then show ?thesis
    using None m f app [of s] fulfil_out(2) [OF T out, of "rx_dispatch E (Suc d)"]
    by (simp add: sFlatMapContinuation_def sDropContextToken_def flat_result_def with_inner_def del: rx_dispatch.simps)
next
  case (Some iu)
  obtain i u where iu: "iu = (i, u)" by (cases iu)
  from inner [OF Some [unfolded iu]] have i: "res_error (fu_result v) = 0" "ready_future s i u" "fu_refcount u \<noteq> 1" "i \<noteq> out" by auto
  have "app_flatmap E (fc_mapper m) (res_value (fu_result v)) (fc_user m) s = Inr (Some i, s)" using app [of s] Some iu by simp
  from sFlatMapContinuation_take_over [OF f m(1,3) i(1) this, of "rx_dispatch E (Suc d)"] take_over_effect [OF T out i(2-4), of d] Some iu i(1) m(1,2)
  show ?thesis by (simp add: flat_result_def with_inner_def del: rx_dispatch.simps)
qed



section \<open>onError\<close>

text \<open>The input after an operator moved its result: a second one finds it consumed.\<close>

definition given :: "'c UfsrvFuture \<Rightarrow> 'c UfsrvFuture" where
  "given v = (if fu_is_consumed v then v else moved v)"

lemma move_or_einval_given:
  assumes "treiber_laws (env_ts E) nodes closed refs claimed" and "out_ready nodes closed s p out w"
    and "futures s f = Some v" "f \<noteq> out"
  shows "move_or_einval E call (Some f) f (Some p) s =
    Inr ((), (fulfilled E p out w (chain_result v) s)\<lparr>futures := (futures s)(out \<mapsto> settled (chain_result v) w, f \<mapsto> given v)\<rparr>)"
  using move_or_einval_effect [OF assms, of call] assms(3,4)
  by (auto simp: chain_result_def given_def fulfilled_def fun_upd_twist fun_upd_idem)

definition recover_result :: "'c UfsrvFuture \<Rightarrow> (addr \<times> 'c UfsrvFuture) option \<Rightarrow> 'c UfsrvFutureResult" where
  "recover_result v recovered =
     (if res_error (fu_result v) = 0 then chain_result v
      else case recovered of None \<Rightarrow> error_result (res_error (fu_result v)) | Some (i, u) \<Rightarrow> chain_result u)"

definition after_recover ::
  "addr \<Rightarrow> 'c UfsrvFuture \<Rightarrow> (addr \<times> 'c UfsrvFuture) option \<Rightarrow> addr \<Rightarrow> 'c UfsrvFuture \<Rightarrow>
   (addr \<rightharpoonup> 'c UfsrvFuture) \<Rightarrow> (addr \<rightharpoonup> 'c UfsrvFuture)" where
  "after_recover f v recovered out w F =
     (if res_error (fu_result v) = 0 then F(out \<mapsto> w, f \<mapsto> given v) else with_inner recovered out w F)"

lemma sOnErrorContinuation_take_over:
  assumes "futures s f = Some v" and "onerror_ctxs s ctx = Some m" and "res_error (fu_result v) \<noteq> 0"
    and "app_recover E (ec_recovery m) (res_error (fu_result v)) (ec_user m) s = Inr (Some i, s)"
  shows "sOnErrorContinuation E call f (Some ctx) s =
    bindm (take_over E call i (ec_out_promise m)) (\<lambda>_. free_obj onerror_ctxs onerror_ctxs_update ctx) s"
  using assms by (simp add: sOnErrorContinuation_def take_over_def bindm_assoc) (simp add: bindm_def split: sum.split prod.split)

lemma onerror_continuation:
  assumes T: "treiber_laws (env_ts E) nodes closed refs claimed" and out: "out_ready nodes closed s p out w"
    and m: "onerror_ctxs s ctx = Some m" "ec_out_promise m = Some p" "ec_in_future m = Some f" and f: "futures s f = Some v" "f \<noteq> out"
    and app: "\<And>s. app_recover E (ec_recovery m) (res_error (fu_result v)) (ec_user m) s = Inr (map_option fst rec, s)"
    and rec: "\<And>i u. rec = Some (i, u) \<Longrightarrow> ready_future s i u \<and> fu_refcount u \<noteq> 1 \<and> i \<noteq> out"
  shows "sOnErrorContinuation E (rx_dispatch E (Suc d)) f (Some ctx) s =
    Inr ((), (fulfilled E p out w (recover_result v rec) s)
      \<lparr>futures := after_recover f v rec out (settled (recover_result v rec) w) (futures s), onerror_ctxs := (onerror_ctxs s)(ctx := None)\<rparr>)"
proof (cases "res_error (fu_result v) = 0")
  case True
  then show ?thesis
    using m f move_or_einval_given [OF T out f, of "rx_dispatch E (Suc d)"]
    by (simp add: sOnErrorContinuation_def recover_result_def after_recover_def del: rx_dispatch.simps)
next
  case err: False
  show ?thesis
  proof (cases rec)
    case None
    have "(fulfilled E p out w r s)\<lparr>futures := (futures s)(out \<mapsto> settled r w), onerror_ctxs := M\<rparr> =
        (fulfilled E p out w r s)\<lparr>onerror_ctxs := M\<rparr>" for r M
      by (simp add: fulfilled_def)
    then show ?thesis
      using None err m f app [of s] fulfil_out(2) [OF T out, of "rx_dispatch E (Suc d)"]
      by (simp add: sOnErrorContinuation_def recover_result_def after_recover_def with_inner_def del: rx_dispatch.simps)
  next
    case (Some iu)
    obtain i u where iu: "iu = (i, u)" by (cases iu)
    from rec [OF Some [unfolded iu]] have i: "ready_future s i u" "fu_refcount u \<noteq> 1" "i \<noteq> out" by auto
    have "app_recover E (ec_recovery m) (res_error (fu_result v)) (ec_user m) s = Inr (Some i, s)" using app [of s] Some iu by simp
    from sOnErrorContinuation_take_over [OF f(1) m(1) err this, of "rx_dispatch E (Suc d)"] take_over_effect [OF T out i, of d] Some iu err m(1,2)
    show ?thesis by (simp add: recover_result_def after_recover_def with_inner_def del: rx_dispatch.simps)
  qed
qed

text \<open>
OnError of a completed future: a success is moved to the output (a second consumer of the
input gets \<open>EINVAL\<close>); an error is replaced by the result of the future that the recovery
returned, or kept when the recovery returned \<open>NULL\<close>.
\<close>

lemma onerror_on_ready:
  assumes T: "treiber_laws (env_ts E) nodes closed refs claimed" and fresh: "fresh_heaps s" "onerror_ctxs s (next_addr s + 4) = None"
    and ok: "can_allocate 5 s" and f: "ready_future s f v"
    and app: "\<And>s. app_recover E g (res_error (fu_result v)) x s = Inr (map_option fst rec, s)"
    and rec: "\<And>i u. rec = Some (i, u) \<Longrightarrow> ready_future s i u \<and> fu_refcount u \<noteq> 1 \<and> i \<noteq> f"
  shows "\<exists>s'. UfsrvFutureOnError E (rx_dispatch E (Suc (Suc d))) (Some f) (Some g) x s = Inr (Some (next_addr s), s') \<and>
    futures s' = after_recover f v rec (next_addr s) (settled (recover_result v rec) (out_future s)) (futures s) \<and>
    promises s' = promises s \<and> onerror_ctxs s' = onerror_ctxs s \<and> user s' = user s"
proof -
  let ?n = "next_addr s" and ?D = "rx_dispatch E (Suc (Suc d))"
  let ?m = "\<lparr>ec_out_promise = Some (Suc ?n), ec_recovery = g, ec_user = x, ec_in_future = Some f\<rparr>"
  let ?s0 = "s\<lparr>onerror_ctxs := (onerror_ctxs s)(?n + 4 \<mapsto> ?m)\<rparr>"
  let ?R = "recover_result v rec"
  have fn: "f \<noteq> ?n" and fv: "futures s f = Some v" "fu_cancel_token v = NULL"
    using f fresh(1) by (auto simp: ready_future_def fresh_heaps_def)
  have f0: "ready_future (out_pending E ?s0) f v" using f fn by (simp add: ready_future_def)
  have inn: "ready_future (out_pending E ?s0) i u \<and> fu_refcount u \<noteq> 1 \<and> i \<noteq> ?n" if "rec = Some (i, u)" for i u
    using rec [OF that] fresh(1) by (auto simp: ready_future_def fresh_heaps_def)
  let ?s1 = "(fulfilled E (Suc ?n) ?n (out_future s) ?R (out_pending E ?s0))
      \<lparr>futures := after_recover f v rec ?n (settled ?R (out_future s)) (futures (out_pending E ?s0)), onerror_ctxs := onerror_ctxs s\<rparr>"
  have "sOnErrorContinuation E (rx_dispatch E (Suc d)) f (Some (?n + 4)) (out_pending E ?s0) = Inr ((), ?s1)"
    using onerror_continuation [OF T out_pending_ready [OF T, of ?s0], of "?n + 4" ?m f v rec d] app fv fn fresh(2) inn
    by (simp add: fun_upd_idem del: rx_dispatch.simps)
  then have reg: "sFutureThen E ?D (Some f) (Some K_sOnErrorContinuation) (Some (?n + 4)) (out_pending E ?s0) = Inr (True, ?s1)"
    using ready_then [OF f0, of E ?D K_sOnErrorContinuation "Some (?n + 4)"] by simp
  have F: "futures ?s1 = after_recover f v rec ?n (settled ?R (out_future s)) (futures s)"
    by (simp add: after_recover_def with_inner_def split: option.split)
  then obtain v' where f1: "futures ?s1 f = Some v'" "fu_cancel_token v' = NULL"
    using fn fv rec by (auto simp: after_recover_def with_inner_def given_def split: option.splits if_splits)
  have "UfsrvFutureOnError E ?D (Some f) (Some g) x s = Inr (Some ?n, ?s1)"
    using create_ok [OF ok, of E] malloc_ctx [OF ok, of E] reg no_token [OF f1, of E ?D ?n] fn fv
    by (simp add: UfsrvFutureOnError_def out_pending_ctx del: rx_dispatch.simps)
  then show ?thesis
    using fresh(1) F by (intro exI [of _ ?s1]) (auto simp: fresh_heaps_def fun_upd_idem)
qed

section \<open>doOnSuccess\<close>

text \<open>
C21: doOnSuccess of a completed future runs the action once on a success and never on an error,
and in both cases moves the result to the output; a second consumer of the input gets \<open>EINVAL\<close>.
\<close>

theorem dos_on_ready:
  assumes T: "treiber_laws (env_ts E) nodes closed refs claimed" and fresh: "fresh_heaps s" "dos_ctxs s (next_addr s + 4) = None"
    and ok: "can_allocate 5 s" and f: "ready_future s f v"
    and app: "\<And>s. app_action E g (res_value (fu_result v)) x s = Inr ((), s\<lparr>user := act (user s)\<rparr>)"
  shows "\<exists>s'. UfsrvFutureDoOnSuccess E (rx_dispatch E (Suc d)) (Some f) (Some g) x s = Inr (Some (next_addr s), s') \<and>
    futures s' = (futures s)(next_addr s \<mapsto> settled (chain_result v) (out_future s), f \<mapsto> given v) \<and>
    user s' = (if res_error (fu_result v) = 0 then act (user s) else user s) \<and>
    promises s' = promises s \<and> dos_ctxs s' = dos_ctxs s"
proof -
  let ?n = "next_addr s" and ?D = "rx_dispatch E (Suc d)"
  let ?m = "\<lparr>dc_out_promise = Some (Suc ?n), dc_action = g, dc_user = x, dc_in_future = Some f\<rparr>"
  let ?u = "if res_error (fu_result v) = 0 then act (user s) else user s"
  let ?s0 = "s\<lparr>dos_ctxs := (dos_ctxs s)(?n + 4 \<mapsto> ?m)\<rparr>"
  let ?s' = "s\<lparr>dos_ctxs := (dos_ctxs s)(?n + 4 \<mapsto> ?m), user := ?u\<rparr>"
  have fn: "f \<noteq> ?n" and fv: "futures s f = Some v" "fu_cancel_token v = NULL"
    using f fresh(1) by (auto simp: ready_future_def fresh_heaps_def)
  have f0: "ready_future (out_pending E ?s0) f v" using f fn by (simp add: ready_future_def)
  have act: "(if res_error (fu_result v) = 0 then app_action E g (res_value (fu_result v)) x else ret ()) (out_pending E ?s0) =
      Inr ((), out_pending E ?s')"
    using app by (simp add: out_pending_def created_def Let_def)
  let ?s1 = "(fulfilled E (Suc ?n) ?n (out_future s) (chain_result v) (out_pending E ?s'))
      \<lparr>futures := (futures s)(?n \<mapsto> settled (chain_result v) (out_future s), f \<mapsto> given v), dos_ctxs := dos_ctxs s\<rparr>"
  have mv: "move_or_einval E (rx_dispatch E d) (Some f) f (Some (Suc ?n)) (out_pending E ?s') =
      Inr ((), (fulfilled E (Suc ?n) ?n (out_future s) (chain_result v) (out_pending E ?s'))
        \<lparr>futures := (futures s)(?n \<mapsto> settled (chain_result v) (out_future s), f \<mapsto> given v)\<rparr>)"
    using move_or_einval_given [OF T out_pending_ready [OF T, of ?s'], of f v "rx_dispatch E d"] fn fv by simp
  have "sDoOnSuccessContinuation E (rx_dispatch E d) f (Some (?n + 4)) (out_pending E ?s0) =
      bindm (if res_error (fu_result v) = 0 then app_action E g (res_value (fu_result v)) x else ret ()) (\<lambda>_.
      bindm (move_or_einval E (rx_dispatch E d) (Some f) f (Some (Suc ?n))) (\<lambda>_. free_obj dos_ctxs dos_ctxs_update (?n + 4)))
      (out_pending E ?s0)"
    using fv fn by (simp add: sDoOnSuccessContinuation_def)
  also have "\<dots> = bindm (move_or_einval E (rx_dispatch E d) (Some f) f (Some (Suc ?n)))
      (\<lambda>_. free_obj dos_ctxs dos_ctxs_update (?n + 4)) (out_pending E ?s')"
    by (rule bindm_Inr) (rule act)
  also have "\<dots> = Inr ((), ?s1)" using mv fresh(2) by (simp add: fun_upd_idem)
  finally have "sDoOnSuccessContinuation E (rx_dispatch E d) f (Some (?n + 4)) (out_pending E ?s0) = Inr ((), ?s1)" .
  then have reg: "sFutureThen E ?D (Some f) (Some K_sDoOnSuccessContinuation) (Some (?n + 4)) (out_pending E ?s0) = Inr (True, ?s1)"
    using ready_then [OF f0, of E ?D K_sDoOnSuccessContinuation "Some (?n + 4)"] by simp
  have f1: "futures ?s1 f = Some (given v)" "fu_cancel_token (given v) = NULL" using fv by (simp_all add: given_def)
  have "UfsrvFutureDoOnSuccess E ?D (Some f) (Some g) x s = Inr (Some ?n, ?s1)"
    using create_ok [OF ok, of E] malloc_ctx [OF ok, of E] reg no_token [OF f1, of E ?D ?n] fn fv
    by (simp add: UfsrvFutureDoOnSuccess_def out_pending_ctx del: rx_dispatch.simps)
  then show ?thesis
    using fresh(1) by (intro exI [of _ ?s1]) (auto simp: fresh_heaps_def fun_upd_idem)
qed

definition log_action_env :: "(string list, string, addr list, addr list \<times> bool, int \<times> bool, 'z) fenv" where
  "log_action_env = base_env\<lparr>app_action := (\<lambda>g y x s. Inr ((), s\<lparr>user := user s @ [g]\<rparr>))\<rparr>"

theorem dos_on_ready_witness:
  "\<exists>s'. UfsrvFutureDoOnSuccess log_action_env (rx_dispatch log_action_env (Suc 0)) (Some 16) (Some ''g'') NULL demo_ready = Inr (Some 28, s') \<and>
    user s' = [''g''] \<and> (\<exists>v. futures s' 28 = Some v \<and> res_value (fu_result v) = Some 5)"
proof -
  have T: "treiber_laws (env_ts log_action_env) fst snd fst snd" using list_stack_laws by (simp add: log_action_env_def)
  show ?thesis
    using dos_on_ready [OF T demo_ready_facts(4,10,5,1), of "''g''" NULL "\<lambda>u. u @ [''g'']" 0] demo_ready_facts(6,7)
    by (auto simp: log_action_env_def chain_result_def simp del: rx_dispatch.simps)
qed

end
