(* ===== verification/Future_Combine_Spec.thy ===== *)
theory Future_Combine_Spec
  imports Future_Chain_Spec
begin

text \<open>
  The operators over several futures, on inputs that are completed or \<open>NULL\<close>: all reports the
  first failure or success, any moves the first result, zip combines two values.
\<close>

section \<open>all\<close>

text \<open>What an input contributes: its error code, or \<open>EINVAL\<close> for a \<open>NULL\<close> pointer.\<close>

definition input_error :: "('u, 'c, 'q, 't, 'n, 'z) future_sys_scheme \<Rightarrow> ptr \<Rightarrow> int \<Rightarrow> bool" where
  "input_error s fp e = (case fp of None \<Rightarrow> e = EINVAL | Some f \<Rightarrow> \<exists>v. ready_future s f v \<and> res_error (fu_result v) = e)"

text \<open>The error of the first input that failed, or 0.\<close>

primrec first_error :: "int list \<Rightarrow> int" where
  "first_error [] = 0"
| "first_error (e # es) = (if e \<noteq> 0 then e else first_error es)"

text \<open>The context when one of \<open>k\<close> outstanding inputs has reported.\<close>

definition all_next :: "bool \<Rightarrow> ptr \<Rightarrow> int \<Rightarrow> addr \<Rightarrow> (addr \<rightharpoonup> UfsrvAllContext) \<Rightarrow> (addr \<rightharpoonup> UfsrvAllContext)" where
  "all_next b p k ctx M =
     (if k = 1 then M(ctx := None) else M(ctx \<mapsto> \<lparr>ac_out_promise = p, ac_remaining = k - 1, ac_failed = b\<rparr>))"

definition all_body ::
  "('u, 'c, 'q, 't, 'n, 'z) fenv \<Rightarrow> ('u, 'c, 'q, 't, 'n, 'z) fcall \<Rightarrow> addr \<Rightarrow> ptr \<Rightarrow> ('u, 'c, 'q, 't, 'n, 'z, unit) fprog" where
  "all_body E call ctx f = all_register_loop E call ctx 1 [f]"

lemma all_loop_Cons:
  "all_register_loop E call ctx (Suc n) (f # fs) s = bindm (all_body E call ctx f) (\<lambda>_. all_register_loop E call ctx n fs) s"
  by (simp add: all_body_def bindm_assoc bindm_ret_right cong: if_cong)

lemma all_body_failed:
  assumes "input_error s fp e" and m: "all_ctxs s ctx = Some \<lparr>ac_out_promise = p, ac_remaining = k, ac_failed = True\<rparr>"
  shows "all_body E (rx_dispatch E (Suc d)) ctx fp s = Inr ((), s\<lparr>all_ctxs := all_next True p k ctx (all_ctxs s)\<rparr>)"
proof -
  let ?m = "\<lparr>ac_out_promise = p, ac_remaining = k - 1, ac_failed = True\<rparr>"
  have "(all_ctxs s)(ctx \<mapsto> \<lparr>ac_out_promise = p, ac_remaining = k, ac_failed = True\<rparr>) = all_ctxs s"
    using m by (rule fun_upd_idem)
  then have sf: "all_set_failed ctx s = Inr (True, s)" using m by (simp add: all_set_failed_def)
  have cd: "all_count_down ctx s = Inr (k, s\<lparr>all_ctxs := (all_ctxs s)(ctx \<mapsto> ?m)\<rparr>)" using m by (simp add: all_count_down_def)
  show ?thesis
  proof (cases fp)
    case None
    then show ?thesis using sf cd
      by (cases "k = 1") (simp_all add: all_body_def UfsrvFutureThen_def all_next_def del: rx_dispatch.simps)
  next
    case (Some f)
    with assms(1) obtain v where f: "ready_future s f v" "futures s f = Some v" by (auto simp: input_error_def ready_future_def)
    have "sAllContinuation E (rx_dispatch E d) f (Some ctx) s =
        bindm (all_count_down ctx) (\<lambda>old.
          if old = 1 then
            bindm (obj_at all_ctxs ctx) (\<lambda>m.
            bindm (if \<not> ac_failed m then fulfil_value E (rx_dispatch E d) (ac_out_promise m) NULL None else ret ()) (\<lambda>_.
            free_obj all_ctxs all_ctxs_update ctx))
          else ret ()) s"
      using f(2) sf by (cases "res_error (fu_result v) = 0") (simp_all add: sAllContinuation_def)
    then have "sAllContinuation E (rx_dispatch E d) f (Some ctx) s = Inr ((), s\<lparr>all_ctxs := all_next True p k ctx (all_ctxs s)\<rparr>)"
      using cd by (simp add: all_next_def)
    then show ?thesis
      using Some ready_then [OF f(1), of E "rx_dispatch E (Suc d)" K_sAllContinuation "Some ctx"]
      by (simp add: all_body_def UfsrvFutureThen_def)
  qed
qed

lemma all_body_success:
  assumes T: "treiber_laws (env_ts E) nodes closed refs claimed" and out: "out_ready nodes closed s p out w"
    and e: "input_error s fp 0" and m: "all_ctxs s ctx = Some \<lparr>ac_out_promise = Some p, ac_remaining = k, ac_failed = False\<rparr>"
  shows "all_body E (rx_dispatch E (Suc d)) ctx fp s =
    Inr ((), (if k = 1 then fulfilled E p out w zero_result s else s)\<lparr>all_ctxs := all_next False (Some p) k ctx (all_ctxs s)\<rparr>)"
proof -
  from e obtain f v where f: "fp = Some f" "ready_future s f v" "res_error (fu_result v) = 0"
    by (auto simp: input_error_def EINVAL_def split: option.splits)
  have fv: "futures s f = Some v" using f(2) by (simp add: ready_future_def)
  have out': "out_ready nodes closed (s\<lparr>all_ctxs := M\<rparr>) p out w" for M using out by (simp add: out_ready_def pending_future_def)
  have ful: "fulfil_value E (rx_dispatch E d) (Some p) NULL None (s\<lparr>all_ctxs := M\<rparr>) = Inr ((), fulfilled E p out w zero_result (s\<lparr>all_ctxs := M\<rparr>))" for M
    using fulfil_out(3) [OF T out', of "rx_dispatch E d" NULL None] by (simp add: error_result_def)
  have "sAllContinuation E (rx_dispatch E d) f (Some ctx) s =
      Inr ((), (if k = 1 then fulfilled E p out w zero_result s else s)\<lparr>all_ctxs := all_next False (Some p) k ctx (all_ctxs s)\<rparr>)"
    using f(3) fv m ful
    by (cases "k = 1") (simp_all add: sAllContinuation_def all_count_down_def all_next_def fulfilled_def)
  then show ?thesis
    using f(1) ready_then [OF f(2), of E "rx_dispatch E (Suc d)" K_sAllContinuation "Some ctx"]
    by (simp add: all_body_def UfsrvFutureThen_def)
qed

lemma all_body_error:
  assumes T: "treiber_laws (env_ts E) nodes closed refs claimed" and out: "out_ready nodes closed s p out w"
    and e: "input_error s fp e" "e \<noteq> 0" and m: "all_ctxs s ctx = Some \<lparr>ac_out_promise = Some p, ac_remaining = k, ac_failed = False\<rparr>"
  shows "all_body E (rx_dispatch E (Suc d)) ctx fp s =
    Inr ((), (fulfilled E p out w (error_result e) s)\<lparr>all_ctxs := all_next True (Some p) k ctx (all_ctxs s)\<rparr>)"
proof -
  have out': "out_ready nodes closed (s\<lparr>all_ctxs := M\<rparr>) p out w" for M using out by (simp add: out_ready_def pending_future_def)
  have ful: "fulfil_error E call (Some p) e (s\<lparr>all_ctxs := M\<rparr>) = Inr ((), fulfilled E p out w (error_result e) (s\<lparr>all_ctxs := M\<rparr>))" for call M
    using fulfil_out(2) [OF T out'] .
  show ?thesis
  proof (cases fp)
    case None
    then show ?thesis using e m ful
      by (cases "k = 1") (simp_all add: all_body_def UfsrvFutureThen_def input_error_def all_set_failed_def all_count_down_def
          all_next_def fulfilled_def del: rx_dispatch.simps)
  next
    case (Some f)
    with e obtain v where f: "ready_future s f v" "res_error (fu_result v) = e" by (auto simp: input_error_def)
    have fv: "futures s f = Some v" using f(1) by (simp add: ready_future_def)
    have "sAllContinuation E (rx_dispatch E d) f (Some ctx) s =
        Inr ((), (fulfilled E p out w (error_result e) s)\<lparr>all_ctxs := all_next True (Some p) k ctx (all_ctxs s)\<rparr>)"
      using f(2) fv e(2) m ful
      by (cases "k = 1") (simp_all add: sAllContinuation_def all_set_failed_def all_count_down_def all_next_def fulfilled_def)
    then show ?thesis
      using Some ready_then [OF f(1), of E "rx_dispatch E (Suc d)" K_sAllContinuation "Some ctx"]
      by (simp add: all_body_def UfsrvFutureThen_def)
  qed
qed

lemma ready_not_out: "ready_future s f v \<Longrightarrow> out_ready nodes closed s p out w \<Longrightarrow> f \<noteq> out"
  by (auto simp: ready_future_def out_ready_def pending_future_def)

lemma input_error_ctxs [simp]: "input_error (s\<lparr>all_ctxs := M\<rparr>) = input_error s"
  by (simp add: fun_eq_iff input_error_def ready_future_def split: option.split)

lemma input_error_fulfilled:
  assumes "input_error s fp e" and out: "out_ready nodes closed s p out w"
  shows "input_error ((fulfilled E p out w r s)\<lparr>all_ctxs := M\<rparr>) fp e"
proof (cases fp)
  case (Some f)
  with assms(1) obtain v where v: "ready_future s f v" "res_error (fu_result v) = e" by (auto simp: input_error_def)
  from ready_not_out [OF v(1) out] v(1) have "ready_future (fulfilled E p out w r s) f v" by (simp add: ready_future_def)
  with Some v(2) show ?thesis by (auto simp: input_error_def)
qed (use assms in \<open>simp add: input_error_def\<close>)

lemma all_loop_failed:
  "list_all2 (input_error s) fs es \<Longrightarrow> fs \<noteq> [] \<Longrightarrow>
   all_ctxs s ctx = Some \<lparr>ac_out_promise = p, ac_remaining = int (length fs), ac_failed = True\<rparr> \<Longrightarrow>
   all_register_loop E (rx_dispatch E (Suc d)) ctx (length fs) fs s = Inr ((), s\<lparr>all_ctxs := (all_ctxs s)(ctx := None)\<rparr>)"
proof (induction fs arbitrary: s es)
  case (Cons fp fs)
  from Cons.prems(1) obtain e es' where es: "es = e # es'" "input_error s fp e" "list_all2 (input_error s) fs es'"
    by (auto simp: list_all2_Cons1)
  let ?k = "int (length (fp # fs))"
  note body = all_body_failed [OF es(2) Cons.prems(3), of E d]
  have run: "all_register_loop E (rx_dispatch E (Suc d)) ctx (length (fp # fs)) (fp # fs) s =
      all_register_loop E (rx_dispatch E (Suc d)) ctx (length fs) fs (s\<lparr>all_ctxs := all_next True p ?k ctx (all_ctxs s)\<rparr>)"
    using body by (simp only: length_Cons all_loop_Cons bindm_Inr)
  show ?case
  proof (cases "fs = []")
    case True
    then show ?thesis unfolding run by (simp add: all_next_def del: fun_upd_apply)
  next
    case False
    let ?s = "s\<lparr>all_ctxs := all_next True p ?k ctx (all_ctxs s)\<rparr>"
    have ctx: "all_ctxs ?s ctx = Some \<lparr>ac_out_promise = p, ac_remaining = int (length fs), ac_failed = True\<rparr>"
      using False by (simp add: all_next_def)
    have upd: "(all_ctxs ?s)(ctx := None) = (all_ctxs s)(ctx := None)" by (simp add: all_next_def)
    have "list_all2 (input_error ?s) fs es'" using es(3) by simp
    from Cons.IH [OF this False ctx] show ?thesis unfolding run upd by simp
  qed
qed (erule notE, rule refl)

lemma all_loop_effect:
  assumes T: "treiber_laws (env_ts E) nodes closed refs claimed"
  shows "list_all2 (input_error s) fs es \<Longrightarrow> fs \<noteq> [] \<Longrightarrow> out_ready nodes closed s p out w \<Longrightarrow>
   all_ctxs s ctx = Some \<lparr>ac_out_promise = Some p, ac_remaining = int (length fs), ac_failed = False\<rparr> \<Longrightarrow>
   all_register_loop E (rx_dispatch E (Suc d)) ctx (length fs) fs s =
     Inr ((), (fulfilled E p out w (error_result (first_error es)) s)\<lparr>all_ctxs := (all_ctxs s)(ctx := None)\<rparr>)"
proof (induction fs arbitrary: s es)
  case (Cons fp fs)
  from Cons.prems(1) obtain e es' where es: "es = e # es'" "input_error s fp e" "list_all2 (input_error s) fs es'"
    by (auto simp: list_all2_Cons1)
  let ?k = "int (length (fp # fs))" and ?D = "rx_dispatch E (Suc d)"
  show ?case
  proof (cases "e = 0")
    case True
    let ?s = "(if ?k = 1 then fulfilled E p out w zero_result s else s)\<lparr>all_ctxs := all_next False (Some p) ?k ctx (all_ctxs s)\<rparr>"
    have run: "all_register_loop E ?D ctx (length (fp # fs)) (fp # fs) s = all_register_loop E ?D ctx (length fs) fs ?s"
      using all_body_success [OF T Cons.prems(3) es(2) [unfolded True] Cons.prems(4), of d]
      by (simp only: length_Cons all_loop_Cons bindm_Inr)
    show ?thesis
    proof (cases "fs = []")
      case True
      with es \<open>e = 0\<close> show ?thesis unfolding run by (simp add: all_next_def del: fun_upd_apply)
    next
      case False
      let ?s' = "s\<lparr>all_ctxs := all_next False (Some p) ?k ctx (all_ctxs s)\<rparr>"
      have s': "?s = ?s'" using False by simp
      have ctx: "all_ctxs ?s' ctx = Some \<lparr>ac_out_promise = Some p, ac_remaining = int (length fs), ac_failed = False\<rparr>"
        using False by (simp add: all_next_def)
      have upd: "(all_ctxs ?s')(ctx := None) = (all_ctxs s)(ctx := None)" by (simp add: all_next_def)
      have out: "out_ready nodes closed ?s' p out w" using Cons.prems(3) by (simp add: out_ready_def pending_future_def)
      have "list_all2 (input_error ?s') fs es'" using es(3) by simp
      from Cons.IH [OF this False out ctx] show ?thesis unfolding run s' upd by (simp add: es(1) True fulfilled_def)
    qed
  next
    case False
    let ?s = "(fulfilled E p out w (error_result e) s)\<lparr>all_ctxs := all_next True (Some p) ?k ctx (all_ctxs s)\<rparr>"
    have run: "all_register_loop E ?D ctx (length (fp # fs)) (fp # fs) s = all_register_loop E ?D ctx (length fs) fs ?s"
      using all_body_error [OF T Cons.prems(3) es(2) False Cons.prems(4), of d]
      by (simp only: length_Cons all_loop_Cons bindm_Inr)
    show ?thesis
    proof (cases "fs = []")
      case True
      then show ?thesis unfolding run using False es(1) by (simp add: all_next_def del: fun_upd_apply)
    next
      case ne: False
      have ctx: "all_ctxs ?s ctx = Some \<lparr>ac_out_promise = Some p, ac_remaining = int (length fs), ac_failed = True\<rparr>"
        using ne by (simp add: all_next_def)
      have upd: "(all_ctxs ?s)(ctx := None) = (all_ctxs s)(ctx := None)" by (simp add: all_next_def)
      have "list_all2 (input_error ?s) fs es'"
        using es(3) input_error_fulfilled [OF _ Cons.prems(3)] by (rule list_all2_mono)
      from all_loop_failed [OF this ne ctx, of E d] show ?thesis unfolding run upd by (simp add: es(1) False del: fun_upd_apply)
    qed
  qed
qed (erule notE, rule refl)

text \<open>
C22: all over completed (or \<open>NULL\<close>) inputs completes its output at once: with the error of the
first input that failed, \<open>EINVAL\<close> for a \<open>NULL\<close> input, or with success when none failed.  The
output is fulfilled exactly once, the shared context is freed, and the inputs keep their values.
\<close>

theorem all_on_ready:
  assumes T: "treiber_laws (env_ts E) nodes closed refs claimed" and fresh: "fresh_heaps s" "all_ctxs s (next_addr s + 4) = None"
    and ok: "can_allocate 5 s" and inputs: "list_all2 (input_error s) fs es" "fs \<noteq> []"
  shows "\<exists>s'. UfsrvFutureAll E (rx_dispatch E (Suc d)) (Some fs) (length fs) s = Inr (Some (next_addr s), s') \<and>
    futures s' = (futures s)(next_addr s \<mapsto> settled (error_result (first_error es)) (out_future s)) \<and>
    promises s' = promises s \<and> all_ctxs s' = all_ctxs s \<and> user s' = user s"
proof -
  let ?n = "next_addr s" and ?D = "rx_dispatch E (Suc d)"
  let ?m = "\<lparr>ac_out_promise = Some (Suc ?n), ac_remaining = int (length fs), ac_failed = False\<rparr>"
  let ?s0 = "s\<lparr>all_ctxs := (all_ctxs s)(?n + 4 \<mapsto> ?m)\<rparr>"
  have "ready_future (out_pending E ?s0) f v" if "ready_future s f v" for f v
    using that fresh(1) by (auto simp: ready_future_def fresh_heaps_def)
  then have "input_error (out_pending E ?s0) fp e" if "input_error s fp e" for fp e
    using that by (auto simp: input_error_def split: option.splits)
  with inputs(1) have inp: "list_all2 (input_error (out_pending E ?s0)) fs es" by (rule list_all2_mono)
  let ?s1 = "(fulfilled E (Suc ?n) ?n (out_future s) (error_result (first_error es)) (out_pending E ?s0))\<lparr>all_ctxs := all_ctxs s\<rparr>"
  have "all_register_loop E ?D (?n + 4) (length fs) fs (out_pending E ?s0) = Inr ((), ?s1)"
    using all_loop_effect [OF T inp inputs(2) out_pending_ready [OF T, of ?s0], of "?n + 4" d] fresh(2)
    by (simp add: fun_upd_idem del: rx_dispatch.simps)
  then have "UfsrvFutureAll E ?D (Some fs) (length fs) s = Inr (Some ?n, ?s1)"
    using create_ok [OF ok, of E] malloc_ctx [OF ok, of E] inputs(2)
    by (simp add: UfsrvFutureAll_def out_pending_ctx del: rx_dispatch.simps)
  then show ?thesis
    using fresh(1) by (intro exI [of _ ?s1]) (auto simp: fresh_heaps_def fun_upd_idem)
qed

theorem all_on_ready_witness:
  "\<exists>s'. UfsrvFutureAll base_env (rx_dispatch base_env (Suc 0)) (Some [Some 16, Some 24, NULL]) 3 demo_ready = Inr (Some 28, s') \<and>
    (\<exists>v. futures s' 28 = Some v \<and> res_error (fu_result v) = 3) \<and> all_ctxs s' = all_ctxs demo_ready"
proof -
  have "list_all2 (input_error demo_ready) [Some 16, Some 24, NULL] [0, 3, EINVAL]"
    using demo_ready_facts(1,3) by (auto simp: input_error_def error_result_def)
  from all_on_ready [OF base_laws demo_ready_facts(4,11,5) this, of 0] show ?thesis
    by (auto simp: demo_ready_facts error_result_def numeral_3_eq_3 simp del: rx_dispatch.simps)
qed

end
