(* ===== verification/Future_Any_Spec.thy ===== *)
theory Future_Any_Spec
  imports Future_Chain_Spec
begin

text \<open>
  The any operator over inputs that are completed or \<open>NULL\<close>: the first input that is a future
  wins the race and its result is moved to the output; the others only count down.
\<close>

section \<open>One registration\<close>

definition ready_input :: "('u, 'c, 'q, 't, 'n, 'z) future_sys_scheme \<Rightarrow> ptr \<Rightarrow> bool" where
  "ready_input s fp \<longleftrightarrow> (\<forall>f. fp = Some f \<longrightarrow> (\<exists>v. ready_future s f v))"

text \<open>The context when one of \<open>k\<close> outstanding inputs has reported.\<close>

definition any_next :: "bool \<Rightarrow> ptr \<Rightarrow> int \<Rightarrow> addr \<Rightarrow> (addr \<rightharpoonup> UfsrvAnyContext) \<Rightarrow> (addr \<rightharpoonup> UfsrvAnyContext)" where
  "any_next b p k ctx M =
     (if k = 1 then M(ctx := None) else M(ctx \<mapsto> \<lparr>nc_out_promise = p, nc_claimed = b, nc_remaining = k - 1\<rparr>))"

definition any_body ::
  "('u, 'c, 'q, 't, 'n, 'z) fenv \<Rightarrow> ('u, 'c, 'q, 't, 'n, 'z) fcall \<Rightarrow> addr \<Rightarrow> ptr \<Rightarrow> ('u, 'c, 'q, 't, 'n, 'z, unit) fprog" where
  "any_body E call ctx f = any_register_loop E call ctx 1 [f]"

lemma any_loop_Cons:
  "any_register_loop E call ctx (Suc n) (f # fs) s = bindm (any_body E call ctx f) (\<lambda>_. any_register_loop E call ctx n fs) s"
  by (simp add: any_body_def bindm_assoc bindm_ret_right cong: if_cong)

text \<open>A state in which the next registration can be allocated.\<close>

definition reg_free :: "('u, 'c, 'q, 't, 'n, 'z) future_sys_scheme \<Rightarrow> bool" where
  "reg_free s \<longleftrightarrow> sys_ok s (next_addr s) \<and> any_regs s (next_addr s) = None"

lemma any_body_null:
  assumes "reg_free s"
  shows "any_body E (rx_dispatch E (Suc d)) ctx NULL s = any_missed E (rx_dispatch E (Suc d)) ctx (s\<lparr>next_addr := Suc (next_addr s)\<rparr>)"
proof -
  have "(any_regs s)(next_addr s := None) = any_regs s" using assms by (simp add: reg_free_def fun_upd_idem)
  then show ?thesis
    using assms by (simp add: any_body_def malloc_def UfsrvFutureThen_def reg_free_def bindm_assoc bindm_ret_right
        fun_upd_same del: rx_dispatch.simps fun_upd_apply)
qed

lemma any_body_some:
  assumes "reg_free s" and "ready_future s f v" and m: "any_ctxs s ctx = Some m"
  shows "any_body E (rx_dispatch E (Suc d)) ctx (Some f) s =
    bindm (if nc_claimed m then ret () else move_or_einval E (rx_dispatch E d) (Some f) f (nc_out_promise m)) (\<lambda>_.
    bindm (any_count_down ctx) (\<lambda>old. if old = 1 then free_obj any_ctxs any_ctxs_update ctx else ret ()))
      (s\<lparr>next_addr := Suc (next_addr s), any_ctxs := (any_ctxs s)(ctx \<mapsto> m\<lparr>nc_claimed := True\<rparr>)\<rparr>)"
proof -
  let ?n = "next_addr s"
  let ?s1 = "s\<lparr>next_addr := Suc ?n, any_regs := (any_regs s)(?n \<mapsto> \<lparr>ar_ctx = ctx, ar_in_future = Some f\<rparr>)\<rparr>"
  have idem: "(any_regs s)(?n := None) = any_regs s" using assms(1) by (simp add: reg_free_def fun_upd_idem)
  have r: "ready_future ?s1 f v" using assms(2) by (simp add: ready_future_def)
  have step: "sAnyContinuation E (rx_dispatch E d) f (Some ?n) ?s1 =
    bindm (if nc_claimed m then ret () else move_or_einval E (rx_dispatch E d) (Some f) f (nc_out_promise m)) (\<lambda>_.
    bindm (any_count_down ctx) (\<lambda>old. if old = 1 then free_obj any_ctxs any_ctxs_update ctx else ret ()))
      (s\<lparr>next_addr := Suc ?n, any_ctxs := (any_ctxs s)(ctx \<mapsto> m\<lparr>nc_claimed := True\<rparr>)\<rparr>)"
    using m idem by (simp add: sAnyContinuation_def any_set_claimed_def bindm_assoc cong: if_cong)
  have reg: "sFutureThen E (rx_dispatch E (Suc d)) (Some f) (Some K_sAnyContinuation) (Some ?n) ?s1 =
    bindm (sAnyContinuation E (rx_dispatch E d) f (Some ?n)) (\<lambda>_. ret True) ?s1"
    using ready_then [OF r, of E "rx_dispatch E (Suc d)" K_sAnyContinuation "Some ?n"] by simp
  have "bindm (sFutureThen E (rx_dispatch E (Suc d)) (Some f) (Some K_sAnyContinuation) (Some ?n)) (\<lambda>ok.
      if ok then ret () else bindm (free_obj any_regs any_regs_update ?n) (\<lambda>_. any_missed E (rx_dispatch E (Suc d)) ctx)) ?s1 =
    sAnyContinuation E (rx_dispatch E d) f (Some ?n) ?s1"
    unfolding bindm_def [of "sFutureThen E (rx_dispatch E (Suc d)) (Some f) (Some K_sAnyContinuation) (Some ?n)"] reg
    by (simp add: bindm_def ret_def split: sum.split prod.split)
  with step show ?thesis
    using assms(1) by (simp add: any_body_def malloc_def UfsrvFutureThen_def reg_free_def bindm_assoc bindm_ret_right
        del: rx_dispatch.simps)
qed

lemma any_body_claimed:
  assumes "reg_free s" and "ready_input s fp"
    and m: "any_ctxs s ctx = Some \<lparr>nc_out_promise = p, nc_claimed = True, nc_remaining = k\<rparr>"
  shows "any_body E (rx_dispatch E (Suc d)) ctx fp s =
    Inr ((), s\<lparr>next_addr := Suc (next_addr s), any_ctxs := any_next True p k ctx (any_ctxs s)\<rparr>)"
proof (cases fp)
  case None
  then show ?thesis using any_body_null [OF assms(1), of E d ctx] m
    by (cases "k = 1") (simp_all add: any_missed_def any_count_down_def any_next_def del: rx_dispatch.simps)
next
  case (Some f)
  with assms(2) obtain v where "ready_future s f v" by (auto simp: ready_input_def)
  from any_body_some [OF assms(1) this m, of E d] Some show ?thesis
    by (cases "k = 1") (simp_all add: any_count_down_def any_next_def del: rx_dispatch.simps)
qed

lemma any_body_missed:
  assumes T: "treiber_laws (env_ts E) nodes closed refs claimed" and out: "out_ready nodes closed s p out w" and "reg_free s"
    and m: "any_ctxs s ctx = Some \<lparr>nc_out_promise = Some p, nc_claimed = False, nc_remaining = k\<rparr>"
  shows "any_body E (rx_dispatch E (Suc d)) ctx NULL s =
    Inr ((), (if k = 1 then fulfilled E p out w (error_result EINVAL) s else s)
      \<lparr>next_addr := Suc (next_addr s), any_ctxs := any_next False (Some p) k ctx (any_ctxs s)\<rparr>)"
proof -
  have out': "out_ready nodes closed (s\<lparr>next_addr := a, any_ctxs := M\<rparr>) p out w" for a M
    using out by (simp add: out_ready_def pending_future_def)
  show ?thesis using any_body_null [OF assms(3), of E d ctx] m fulfil_out(2) [OF T out', of "rx_dispatch E (Suc d)" EINVAL]
    by (cases "k = 1") (simp_all add: any_missed_def any_count_down_def any_next_def fulfilled_def del: rx_dispatch.simps)
qed

lemma any_body_wins:
  assumes T: "treiber_laws (env_ts E) nodes closed refs claimed" and out: "out_ready nodes closed s p out w" and "reg_free s"
    and m: "any_ctxs s ctx = Some \<lparr>nc_out_promise = Some p, nc_claimed = False, nc_remaining = k\<rparr>"
    and f: "ready_future s f v" "f \<noteq> out"
  shows "any_body E (rx_dispatch E (Suc d)) ctx (Some f) s =
    Inr ((), (fulfilled E p out w (chain_result v) s)
      \<lparr>futures := (futures s)(out \<mapsto> settled (chain_result v) w, f \<mapsto> given v),
       next_addr := Suc (next_addr s), any_ctxs := any_next True (Some p) k ctx (any_ctxs s)\<rparr>)"
proof -
  have out': "out_ready nodes closed (s\<lparr>next_addr := a, any_ctxs := M\<rparr>) p out w" for a M
    using out by (simp add: out_ready_def pending_future_def)
  have fv: "futures s f = Some v" using f(1) by (simp add: ready_future_def)
  have mv: "move_or_einval E (rx_dispatch E d) (Some f) f (Some p) (s\<lparr>next_addr := a, any_ctxs := M\<rparr>) =
      Inr ((), (fulfilled E p out w (chain_result v) s)
      \<lparr>futures := (futures s)(out \<mapsto> settled (chain_result v) w, f \<mapsto> given v), next_addr := a, any_ctxs := M\<rparr>)" for a M
    using move_or_einval_given [OF T out' [where a = a and M = M], of f v "rx_dispatch E d"] fv f(2) by (simp add: fulfilled_def)
  from any_body_some [OF assms(3) f(1) m, of E d] show ?thesis
    using mv by (cases "k = 1") (simp_all add: any_count_down_def any_next_def del: rx_dispatch.simps)
qed

section \<open>All registrations\<close>

definition regs_free :: "nat \<Rightarrow> ('u, 'c, 'q, 't, 'n, 'z) future_sys_scheme \<Rightarrow> bool" where
  "regs_free k s \<longleftrightarrow> (\<forall>i<k. sys_ok s (next_addr s + i) \<and> any_regs s (next_addr s + i) = None)"

lemma regs_free_Suc:
  assumes "regs_free (Suc k) s"
  shows "reg_free s" and "next_addr s' = Suc (next_addr s) \<Longrightarrow> sys_ok s' = sys_ok s \<Longrightarrow> any_regs s' = any_regs s \<Longrightarrow> regs_free k s'"
proof -
  have *: "sys_ok s (next_addr s + i) \<and> any_regs s (next_addr s + i) = None" if "i < Suc k" for i
    using assms that by (simp add: regs_free_def)
  show "reg_free s" using * [of 0] by (simp add: reg_free_def)
  show "regs_free k s'" if "next_addr s' = Suc (next_addr s)" "sys_ok s' = sys_ok s" "any_regs s' = any_regs s"
    unfolding regs_free_def that using * [of "Suc i" for i] by simp
qed

lemma any_loop_claimed:
  "\<forall>fp\<in>set fs. ready_input s fp \<Longrightarrow> regs_free (length fs) s \<Longrightarrow> fs \<noteq> [] \<Longrightarrow>
   any_ctxs s ctx = Some \<lparr>nc_out_promise = p, nc_claimed = True, nc_remaining = int (length fs)\<rparr> \<Longrightarrow>
   any_register_loop E (rx_dispatch E (Suc d)) ctx (length fs) fs s =
     Inr ((), s\<lparr>next_addr := next_addr s + length fs, any_ctxs := (any_ctxs s)(ctx := None)\<rparr>)"
proof (induction fs arbitrary: s)
  case (Cons fp fs)
  let ?k = "int (length (fp # fs))"
  let ?s = "s\<lparr>next_addr := Suc (next_addr s), any_ctxs := any_next True p ?k ctx (any_ctxs s)\<rparr>"
  have free: "regs_free (Suc (length fs)) s" using Cons.prems(2) by simp
  have "any_body E (rx_dispatch E (Suc d)) ctx fp s = Inr ((), ?s)"
    using Cons.prems(1) by (intro any_body_claimed [OF regs_free_Suc(1) [OF free] _ Cons.prems(4)]) simp
  then have run: "any_register_loop E (rx_dispatch E (Suc d)) ctx (length (fp # fs)) (fp # fs) s =
      any_register_loop E (rx_dispatch E (Suc d)) ctx (length fs) fs ?s"
    by (simp only: length_Cons any_loop_Cons bindm_Inr)
  show ?case
  proof (cases "fs = []")
    case True
    then show ?thesis unfolding run by (simp add: any_next_def del: fun_upd_apply)
  next
    case False
    have ctx: "any_ctxs ?s ctx = Some \<lparr>nc_out_promise = p, nc_claimed = True, nc_remaining = int (length fs)\<rparr>"
      using False by (simp add: any_next_def)
    have upd: "(any_ctxs ?s)(ctx := None) = (any_ctxs s)(ctx := None)" by (simp add: any_next_def)
    have "\<forall>fp\<in>set fs. ready_input ?s fp" using Cons.prems(1) by (simp add: ready_input_def ready_future_def)
    moreover have "regs_free (length fs) ?s" by (rule regs_free_Suc(2) [OF free]) simp_all
    ultimately show ?thesis using Cons.IH [OF _ _ False ctx] unfolding run upd by (simp del: rx_dispatch.simps fun_upd_apply)
  qed
qed (erule notE, rule refl)

text \<open>The winner is the first input that is not \<open>NULL\<close>.\<close>

primrec any_winner :: "ptr list \<Rightarrow> ptr" where
  "any_winner [] = NULL"
| "any_winner (fp # fs) = (if fp = NULL then any_winner fs else fp)"

definition any_result :: "ptr \<Rightarrow> (addr \<rightharpoonup> 'c UfsrvFuture) \<Rightarrow> 'c UfsrvFutureResult" where
  "any_result wp F = (case wp of None \<Rightarrow> error_result EINVAL | Some f \<Rightarrow> chain_result (the (F f)))"

definition any_futures :: "ptr \<Rightarrow> addr \<Rightarrow> 'c UfsrvFuture \<Rightarrow> (addr \<rightharpoonup> 'c UfsrvFuture) \<Rightarrow> (addr \<rightharpoonup> 'c UfsrvFuture)" where
  "any_futures wp out w F =
     (case wp of
        None \<Rightarrow> F(out \<mapsto> settled (any_result wp F) w)
      | Some f \<Rightarrow> F(out \<mapsto> settled (any_result wp F) w, f \<mapsto> given (the (F f))))"

lemma any_loop_effect:
  assumes T: "treiber_laws (env_ts E) nodes closed refs claimed"
  shows "\<forall>fp\<in>set fs. ready_input s fp \<Longrightarrow> regs_free (length fs) s \<Longrightarrow> fs \<noteq> [] \<Longrightarrow> out_ready nodes closed s p out w \<Longrightarrow>
   any_ctxs s ctx = Some \<lparr>nc_out_promise = Some p, nc_claimed = False, nc_remaining = int (length fs)\<rparr> \<Longrightarrow>
   any_register_loop E (rx_dispatch E (Suc d)) ctx (length fs) fs s =
     Inr ((), (fulfilled E p out w (any_result (any_winner fs) (futures s)) s)
       \<lparr>futures := any_futures (any_winner fs) out w (futures s), next_addr := next_addr s + length fs, any_ctxs := (any_ctxs s)(ctx := None)\<rparr>)"
proof (induction fs arbitrary: s)
  case (Cons fp fs)
  let ?k = "int (length (fp # fs))" and ?D = "rx_dispatch E (Suc d)"
  have free: "regs_free (Suc (length fs)) s" using Cons.prems(2) by simp
  show ?case
  proof (cases fp)
    case None
    let ?s = "(if ?k = 1 then fulfilled E p out w (error_result EINVAL) s else s)
      \<lparr>next_addr := Suc (next_addr s), any_ctxs := any_next False (Some p) ?k ctx (any_ctxs s)\<rparr>"
    have run: "any_register_loop E ?D ctx (length (fp # fs)) (fp # fs) s = any_register_loop E ?D ctx (length fs) fs ?s"
      using any_body_missed [OF T Cons.prems(4) regs_free_Suc(1) [OF free] Cons.prems(5), of d] None
      by (simp only: length_Cons any_loop_Cons bindm_Inr)
    show ?thesis
    proof (cases "fs = []")
      case True
      then show ?thesis unfolding run using None
        by (simp add: any_next_def any_futures_def any_result_def fulfilled_def del: fun_upd_apply)
    next
      case False
      let ?s' = "s\<lparr>next_addr := Suc (next_addr s), any_ctxs := any_next False (Some p) ?k ctx (any_ctxs s)\<rparr>"
      have s': "?s = ?s'" using False by simp
      have ctx: "any_ctxs ?s' ctx = Some \<lparr>nc_out_promise = Some p, nc_claimed = False, nc_remaining = int (length fs)\<rparr>"
        using False by (simp add: any_next_def)
      have upd: "(any_ctxs ?s')(ctx := None) = (any_ctxs s)(ctx := None)" by (simp add: any_next_def)
      have rd: "\<forall>fp\<in>set fs. ready_input ?s' fp" using Cons.prems(1) by (simp add: ready_input_def ready_future_def)
      have out: "out_ready nodes closed ?s' p out w" using Cons.prems(4) by (simp add: out_ready_def pending_future_def)
      have "regs_free (length fs) ?s'" by (rule regs_free_Suc(2) [OF free]) simp_all
      from Cons.IH [OF rd this False out ctx] None show ?thesis unfolding run s' upd
        by (simp add: fulfilled_def del: rx_dispatch.simps fun_upd_apply)
    qed
  next
    case (Some f)
    with Cons.prems(1) obtain v where f: "ready_future s f v" by (auto simp: ready_input_def)
    then have fv: "futures s f = Some v" by (simp add: ready_future_def)
    have fo: "f \<noteq> out" using f Cons.prems(4) by (auto simp: ready_future_def out_ready_def pending_future_def)
    let ?s = "(fulfilled E p out w (chain_result v) s)
      \<lparr>futures := (futures s)(out \<mapsto> settled (chain_result v) w, f \<mapsto> given v),
       next_addr := Suc (next_addr s), any_ctxs := any_next True (Some p) ?k ctx (any_ctxs s)\<rparr>"
    have run: "any_register_loop E ?D ctx (length (fp # fs)) (fp # fs) s = any_register_loop E ?D ctx (length fs) fs ?s"
      using any_body_wins [OF T Cons.prems(4) regs_free_Suc(1) [OF free] Cons.prems(5) f fo, of d] Some
      by (simp only: length_Cons any_loop_Cons bindm_Inr)
    have w: "any_winner (fp # fs) = Some f" "any_result (Some f) (futures s) = chain_result v"
      "any_futures (Some f) out w (futures s) = (futures s)(out \<mapsto> settled (chain_result v) w, f \<mapsto> given v)"
      using Some fv by (simp_all add: any_result_def any_futures_def del: fun_upd_apply)
    show ?thesis
    proof (cases "fs = []")
      case True
      then show ?thesis unfolding run w by (simp add: any_next_def del: fun_upd_apply)
    next
      case False
      have ctx: "any_ctxs ?s ctx = Some \<lparr>nc_out_promise = Some p, nc_claimed = True, nc_remaining = int (length fs)\<rparr>"
        using False by (simp add: any_next_def)
      have upd: "(any_ctxs ?s)(ctx := None) = (any_ctxs s)(ctx := None)" by (simp add: any_next_def)
      have "\<exists>u. ready_future ?s g u" if "ready_future s g u" for g u
      proof -
        have "g \<noteq> out" using that Cons.prems(4) by (auto simp: ready_future_def out_ready_def pending_future_def)
        with that f show ?thesis by (cases "g = f") (auto simp: ready_future_def given_def moved_def)
      qed
      with Cons.prems(1) have "\<forall>fp\<in>set fs. ready_input ?s fp" unfolding ready_input_def by (meson list.set_intros(2))
      moreover have "regs_free (length fs) ?s" by (rule regs_free_Suc(2) [OF free]) simp_all
      ultimately show ?thesis using any_loop_claimed [OF _ _ False ctx, of E d] unfolding run w upd
        by (simp del: rx_dispatch.simps fun_upd_apply)
    qed
  qed
qed (erule notE, rule refl)

text \<open>
C23: any over inputs that are completed or \<open>NULL\<close> completes its output at once with the result of
the first input that is a future, value or error, which is moved out of that input (an input that
was consumed before gives \<open>EINVAL\<close>); only \<open>NULL\<close> inputs give \<open>EINVAL\<close>.  No other input is
touched, and the context, the registrations and the output promise are all freed.
\<close>

theorem any_on_ready:
  assumes T: "treiber_laws (env_ts E) nodes closed refs claimed" and fresh: "fresh_heaps s" "any_ctxs s (next_addr s + 4) = None"
      "\<forall>i<length fs. any_regs s (next_addr s + 5 + i) = None"
    and ok: "can_allocate (5 + length fs) s" and inputs: "\<forall>f. Some f \<in> set fs \<longrightarrow> (\<exists>v. ready_future s f v)" "fs \<noteq> []"
  shows "\<exists>s'. UfsrvFutureAny E (rx_dispatch E (Suc d)) (Some fs) (length fs) s = Inr (Some (next_addr s), s') \<and>
    futures s' = any_futures (any_winner fs) (next_addr s) (out_future s) (futures s) \<and>
    promises s' = promises s \<and> any_ctxs s' = any_ctxs s \<and> any_regs s' = any_regs s \<and> user s' = user s"
proof -
  let ?n = "next_addr s" and ?D = "rx_dispatch E (Suc d)"
  let ?m = "\<lparr>nc_out_promise = Some (Suc ?n), nc_claimed = False, nc_remaining = int (length fs)\<rparr>"
  let ?s0 = "s\<lparr>any_ctxs := (any_ctxs s)(?n + 4 \<mapsto> ?m)\<rparr>"
  have ready: "ready_future (out_pending E ?s0) f v" if "ready_future s f v" for f v
    using that fresh(1) by (auto simp: ready_future_def fresh_heaps_def)
  have inp: "\<forall>fp\<in>set fs. ready_input (out_pending E ?s0) fp"
    using inputs(1) ready by (fastforce simp: ready_input_def)
  have free: "regs_free (length fs) (out_pending E ?s0)"
    using ok fresh(3) by (auto simp: regs_free_def can_allocate_def add.assoc)
  have w: "any_winner fs \<noteq> Some ?n"
  proof -
    have "any_winner fs = Some f \<Longrightarrow> Some f \<in> set fs" for f by (induction fs) (auto split: if_splits)
    then show ?thesis using inputs(1) fresh(1) by (force simp: ready_future_def fresh_heaps_def)
  qed
  have F: "any_futures (any_winner fs) ?n (out_future s) (futures (out_pending E ?s0)) =
      any_futures (any_winner fs) ?n (out_future s) (futures s)"
    using w by (auto simp: any_futures_def any_result_def split: option.split)
  let ?r = "any_result (any_winner fs) (futures (out_pending E ?s0))"
  let ?s1 = "(fulfilled E (Suc ?n) ?n (out_future s) ?r (out_pending E ?s0))
      \<lparr>futures := any_futures (any_winner fs) ?n (out_future s) (futures s), next_addr := ?n + 5 + length fs, any_ctxs := any_ctxs s\<rparr>"
  have "any_register_loop E ?D (?n + 4) (length fs) fs (out_pending E ?s0) = Inr ((), ?s1)"
    using any_loop_effect [OF T inp free inputs(2) out_pending_ready [OF T, of ?s0, simplified], of "?n + 4" d] fresh(2) F
    by (simp add: fun_upd_idem del: rx_dispatch.simps)
  then have "UfsrvFutureAny E ?D (Some fs) (length fs) s = Inr (Some ?n, ?s1)"
    using create_ok [OF ok, of E] malloc_ctx [OF ok, of E] inputs(2)
    by (simp add: UfsrvFutureAny_def out_pending_ctx del: rx_dispatch.simps)
  then show ?thesis
    using fresh(1) by (intro exI [of _ ?s1]) (auto simp: fresh_heaps_def fun_upd_idem)
qed

theorem any_on_ready_witness:
  "\<exists>s'. UfsrvFutureAny base_env (rx_dispatch base_env (Suc 0)) (Some [NULL, Some 20, Some 16]) 3 demo_ready = Inr (Some 28, s') \<and>
    (\<exists>v. futures s' 28 = Some v \<and> res_value (fu_result v) = Some 7) \<and> (\<exists>v. futures s' 20 = Some v \<and> res_value (fu_result v) = NULL) \<and>
    any_ctxs s' = any_ctxs demo_ready \<and> any_regs s' = any_regs demo_ready"
proof -
  have "\<forall>i<length [NULL, Some 20, Some 16 :: ptr]. any_regs demo_ready (next_addr demo_ready + 5 + i) = None"
    by (simp add: demo_ready_facts)
  moreover have "\<forall>f. Some f \<in> set [NULL, Some 20, Some 16] \<longrightarrow> (\<exists>v. ready_future demo_ready f v)"
    using demo_ready_facts(1,2) by auto
  ultimately show ?thesis
    using any_on_ready [OF base_laws demo_ready_facts(4,12) _ demo_ready_facts(5), of "[NULL, Some 20, Some 16]" 0] demo_ready_facts(2)
    by (auto simp: demo_ready_facts(6) any_futures_def any_result_def chain_result_def given_def ready_future_def error_result_def numeral_3_eq_3
        simp del: rx_dispatch.simps)
qed

end
