(* ===== verification/Future_Zip_Spec.thy ===== *)
theory Future_Zip_Spec
  imports Future_Chain_Spec
begin

text \<open>
  The zip operator on completed inputs, which may be one and the same future, and what a zip that
  runs out of memory between its two registrations leaves behind.
\<close>

section \<open>Reference counts\<close>

definition add_ref :: "int \<Rightarrow> addr \<Rightarrow> (addr \<rightharpoonup> 'c UfsrvFuture) \<Rightarrow> (addr \<rightharpoonup> 'c UfsrvFuture)" where
  "add_ref k f F = (\<lambda>g. if g = f then map_option (\<lambda>v. v\<lparr>fu_refcount := fu_refcount v + k\<rparr>) (F g) else F g)"

lemma retain_add_ref: "futures s f = Some v \<Longrightarrow> UfsrvFutureRetain (Some f) s = Inr ((), s\<lparr>futures := add_ref 1 f (futures s)\<rparr>)"
  by (simp add: UfsrvFutureRetain_def add_ref_def fun_upd_def if_distrib cong: if_cong)

lemma release_add_ref:
  "futures s f = Some v \<Longrightarrow> fu_refcount v \<noteq> 1 \<Longrightarrow>
   UfsrvFutureRelease E call (Some f) s = Inr ((), s\<lparr>futures := add_ref (- 1) f (futures s)\<rparr>)"
  by (simp add: release_not_last add_ref_def fun_upd_def cong: if_cong)

lemma add_ref_upd: "f \<noteq> g \<Longrightarrow> add_ref k f (F(g \<mapsto> w)) = (add_ref k f F)(g \<mapsto> w)"
  by (auto simp: add_ref_def)

lemma add_ref_cancel: "add_ref (- 1) b (add_ref (- 1) a (add_ref 1 b (add_ref 1 a F))) = F"
  by (auto simp: add_ref_def option.map_comp o_def option.map_ident)

lemma add_ref_at: "add_ref k f F g = (if g = f then map_option (\<lambda>v. v\<lparr>fu_refcount := fu_refcount v + k\<rparr>) (F g) else F g)"
  by (simp add: add_ref_def)

section \<open>Completed inputs\<close>

text \<open>The first error, else the second, else the value of the zipper, \<open>NULL\<close> being the error \<open>-1\<close>.\<close>

definition zip_result :: "(ptr \<Rightarrow> ptr \<Rightarrow> ptr) \<Rightarrow> 'c fnp option \<Rightarrow> 'c UfsrvFutureResult \<Rightarrow> 'c UfsrvFutureResult \<Rightarrow> 'c UfsrvFutureResult" where
  "zip_result h fr r1 r2 =
     (if res_error r1 \<noteq> 0 then error_result (res_error r1)
      else if res_error r2 \<noteq> 0 then error_result (res_error r2)
      else if h (res_value r1) (res_value r2) = NULL then error_result (- 1)
      else \<lparr>res_error = 0, res_value = h (res_value r1) (res_value r2), res_free_value = fr\<rparr>)"

lemma zip_complete:
  assumes T: "treiber_laws (env_ts E) nodes closed refs claimed" and out: "out_ready nodes closed s p out w"
    and m: "zip_ctxs s ctx = Some m" "zc_out_promise m = Some p" "zc_first_future m = Some a" "zc_second_future m = Some b"
    and app: "\<And>x y s. app_zip E (zc_zipper m) x y (zc_user m) s = Inr (h x y, s)"
    and a: "futures s a = Some va" "fu_refcount va \<noteq> 1" "a \<noteq> out"
    and b: "add_ref (- 1) a (futures s) b = Some vb" "fu_refcount vb \<noteq> 1" "b \<noteq> out"
  shows "sZipComplete E call ctx s =
    Inr ((), (fulfilled E p out w (zip_result h (zc_free_value m) (zc_first m) (zc_second m)) s)
      \<lparr>zip_ctxs := (zip_ctxs s)(ctx := None),
       futures := (add_ref (- 1) b (add_ref (- 1) a (futures s)))(out \<mapsto> settled (zip_result h (zc_free_value m) (zc_first m) (zc_second m)) w)\<rparr>)"
proof -
  let ?r = "zip_result h (zc_free_value m) (zc_first m) (zc_second m)"
  let ?s1 = "(fulfilled E p out w ?r s)\<lparr>zip_ctxs := (zip_ctxs s)(ctx := None)\<rparr>"
  let ?s2 = "?s1\<lparr>futures := (add_ref (- 1) a (futures s))(out \<mapsto> settled ?r w)\<rparr>"
  have eq: "?s1\<lparr>futures := add_ref (- 1) a (futures ?s1)\<rparr> = ?s2" using a(3) by (simp add: add_ref_upd)
  have ra: "UfsrvFutureRelease E call (Some a) ?s1 = Inr ((), ?s2)"
    unfolding eq [symmetric] using a by (intro release_add_ref) simp_all
  have rb: "UfsrvFutureRelease E call (Some b) ?s2 = Inr ((), ?s2\<lparr>futures := add_ref (- 1) b (futures ?s2)\<rparr>)"
    using b by (intro release_add_ref) simp_all
  have tail: "bindm (free_obj zip_ctxs zip_ctxs_update ctx) (\<lambda>_. bindm (UfsrvFutureRelease E call (Some a)) (\<lambda>_.
      UfsrvFutureRelease E call (Some b))) (fulfilled E p out w ?r s) = Inr ((), ?s2\<lparr>futures := add_ref (- 1) b (futures ?s2)\<rparr>)"
    using m(1) ra rb by simp
  have "sZipComplete E call ctx s = bindm (free_obj zip_ctxs zip_ctxs_update ctx) (\<lambda>_. bindm (UfsrvFutureRelease E call (Some a)) (\<lambda>_.
      UfsrvFutureRelease E call (Some b))) (fulfilled E p out w ?r s)"
    using m app fulfil_out [OF T out, of call]
    by (auto simp: sZipComplete_def zip_result_def simp del: fun_upd_apply)
  then show ?thesis unfolding tail using b(3) by (simp add: add_ref_upd)
qed

lemma ready_add_ref:
  "ready_future s f v \<Longrightarrow> futures s' f = Some (v\<lparr>fu_refcount := k\<rparr>) \<Longrightarrow> ready_future s' f (v\<lparr>fu_refcount := k\<rparr>)"
  by (simp add: ready_future_def)

text \<open>Both registrations of a zip over completed inputs, from the state in which both are retained.\<close>

lemma zip_registrations:
  assumes T: "treiber_laws (env_ts E) nodes closed refs claimed" and out: "out_ready nodes closed s p out w"
    and m: "zip_ctxs s ctx = Some \<lparr>zc_out_promise = Some p, zc_zipper = z, zc_user = x, zc_first_future = Some a,
       zc_second_future = Some b, zc_first = zero_result, zc_second = zero_result, zc_remaining = 2, zc_free_value = fr\<rparr>"
    and app: "\<And>u v s. app_zip E z u v x s = Inr (h u v, s)"
    and a: "ready_future s a va" "fu_refcount va \<noteq> 1" "a \<noteq> out" and b: "ready_future s b vb" "b \<noteq> out"
    and b': "add_ref (- 1) a (futures s) b = Some vb'" "fu_refcount vb' \<noteq> 1"
  shows "bindm (UfsrvFutureThen E (rx_dispatch E (Suc d)) (Some a) (Some K_sZipFirstContinuation) (Some ctx)) (\<lambda>ok.
      if \<not> ok then ret NULL
      else bindm (UfsrvFutureThen E (rx_dispatch E (Suc d)) (Some b) (Some K_sZipSecondContinuation) (Some ctx)) (\<lambda>ok.
        if \<not> ok then ret NULL else ret (Some out))) s =
    Inr (Some out, (fulfilled E p out w (zip_result h fr (fu_result va) (fu_result vb)) s)
      \<lparr>zip_ctxs := (zip_ctxs s)(ctx := None),
       futures := (add_ref (- 1) b (add_ref (- 1) a (futures s)))(out \<mapsto> settled (zip_result h fr (fu_result va) (fu_result vb)) w)\<rparr>)"
proof -
  let ?m1 = "\<lparr>zc_out_promise = Some p, zc_zipper = z, zc_user = x, zc_first_future = Some a,
       zc_second_future = Some b, zc_first = fu_result va, zc_second = zero_result, zc_remaining = 1, zc_free_value = fr\<rparr>"
  let ?m2 = "?m1\<lparr>zc_second := fu_result vb, zc_remaining := 0\<rparr>"
  let ?s1 = "s\<lparr>zip_ctxs := (zip_ctxs s)(ctx \<mapsto> ?m1)\<rparr>" and ?s2 = "s\<lparr>zip_ctxs := (zip_ctxs s)(ctx \<mapsto> ?m2)\<rparr>"
  have fa: "futures s a = Some va" and fb: "futures s b = Some vb" using a(1) b(1) by (auto simp: ready_future_def)
  have "sZipFirstContinuation E (rx_dispatch E d) a (Some ctx) s = Inr ((), ?s1)"
    using m fa by (simp add: sZipFirstContinuation_def zip_count_down_def)
  then have one: "UfsrvFutureThen E (rx_dispatch E (Suc d)) (Some a) (Some K_sZipFirstContinuation) (Some ctx) s = Inr (True, ?s1)"
    using ready_then [OF a(1), of E "rx_dispatch E (Suc d)"] by (simp add: UfsrvFutureThen_def)
  have second: "sZipSecondContinuation E (rx_dispatch E d) b (Some ctx) ?s1 = sZipComplete E (rx_dispatch E d) ctx ?s2"
    using fb by (simp add: sZipSecondContinuation_def zip_count_down_def)
  have out2: "out_ready nodes closed ?s2 p out w" using out by (simp add: out_ready_def pending_future_def)
  have rb: "ready_future ?s1 b vb" using b(1) by (simp add: ready_future_def)
  let ?r = "zip_result h fr (fu_result va) (fu_result vb)"
  let ?s3 = "(fulfilled E p out w ?r ?s2)\<lparr>zip_ctxs := (zip_ctxs ?s2)(ctx := None),
       futures := (add_ref (- 1) b (add_ref (- 1) a (futures s)))(out \<mapsto> settled ?r w)\<rparr>"
  have "sZipComplete E (rx_dispatch E d) ctx ?s2 = Inr ((), ?s3)"
    using zip_complete [OF T out2, of ctx ?m2 a b h va vb' "rx_dispatch E d"] app fa a(2,3) b(2) b' by simp
  then have "UfsrvFutureThen E (rx_dispatch E (Suc d)) (Some b) (Some K_sZipSecondContinuation) (Some ctx) ?s1 = Inr (True, ?s3)"
    using ready_then [OF rb, of E "rx_dispatch E (Suc d)"] second by (simp add: UfsrvFutureThen_def)
  with one show ?thesis by (simp add: fulfilled_def del: rx_dispatch.simps)
qed

text \<open>
C24: zip of two completed futures, which may be the same one, completes its output at once: with
the error of the first input, else the error of the second, else with what the zipper makes of
the two values (\<open>NULL\<close> being the error \<open>-1\<close>).  The references taken on the inputs are given
back, both inputs keep their values, and neither the context nor the output promise leaks.
\<close>

theorem zip_on_ready:
  assumes T: "treiber_laws (env_ts E) nodes closed refs claimed" and fresh: "fresh_heaps s" "zip_ctxs s (next_addr s + 4) = None"
    and ok: "can_allocate 5 s" and a: "ready_future s a va" "0 < fu_refcount va" and b: "ready_future s b vb" "0 < fu_refcount vb"
    and app: "\<And>u v s. app_zip E z u v x s = Inr (h u v, s)"
  shows "\<exists>s'. UfsrvFutureZipEx E (rx_dispatch E (Suc d)) (Some a) (Some b) (Some z) x fr s = Inr (Some (next_addr s), s') \<and>
    futures s' = (futures s)(next_addr s \<mapsto> settled (zip_result h fr (fu_result va) (fu_result vb)) (out_future s)) \<and>
    promises s' = promises s \<and> zip_ctxs s' = zip_ctxs s \<and> user s' = user s"
proof -
  let ?n = "next_addr s" and ?D = "rx_dispatch E (Suc d)"
  let ?m = "\<lparr>zc_out_promise = Some (Suc ?n), zc_zipper = z, zc_user = x, zc_first_future = Some a,
       zc_second_future = Some b, zc_first = zero_result, zc_second = zero_result, zc_remaining = 2, zc_free_value = fr\<rparr>"
  let ?s1 = "out_pending E (s\<lparr>zip_ctxs := (zip_ctxs s)(?n + 4 \<mapsto> ?m)\<rparr>)"
  let ?G = "add_ref 1 b (add_ref 1 a (futures s))"
  let ?s2 = "?s1\<lparr>futures := ?G(?n \<mapsto> out_future s)\<rparr>"
  let ?r = "zip_result h fr (fu_result va) (fu_result vb)"
  have fa: "futures s a = Some va" "a \<noteq> ?n" and fb: "futures s b = Some vb" "b \<noteq> ?n"
    using a(1) b(1) fresh(1) by (auto simp: ready_future_def fresh_heaps_def)
  have ra: "UfsrvFutureRetain (Some a) ?s1 = Inr ((), ?s1\<lparr>futures := (add_ref 1 a (futures s))(?n \<mapsto> out_future s)\<rparr>)"
    using retain_add_ref [of ?s1 a va] fa by (simp add: add_ref_upd)
  have rb: "UfsrvFutureRetain (Some b) (?s1\<lparr>futures := (add_ref 1 a (futures s))(?n \<mapsto> out_future s)\<rparr>) = Inr ((), ?s2)"
    using retain_add_ref [of "?s1\<lparr>futures := (add_ref 1 a (futures s))(?n \<mapsto> out_future s)\<rparr>" b] fa fb
    by (cases "a = b") (simp_all add: add_ref_upd add_ref_at)
  obtain ka where ka: "?G a = Some (va\<lparr>fu_refcount := ka\<rparr>)" "1 < ka" "a = b \<Longrightarrow> 2 < ka"
    using fa a(2) by (cases "a = b") (auto simp: add_ref_at)
  obtain kb where kb: "?G b = Some (vb\<lparr>fu_refcount := kb\<rparr>)" "1 < kb" "a = b \<Longrightarrow> 2 < kb"
    using fa fb b(2) by (cases "a = b") (auto simp: add_ref_at)
  obtain kc where kc: "add_ref (- 1) a ?G b = Some (vb\<lparr>fu_refcount := kc\<rparr>)" "1 < kc"
    using kb by (cases "a = b") (auto simp: add_ref_at [of "- 1"])
  have rda: "ready_future ?s2 a (va\<lparr>fu_refcount := ka\<rparr>)" using ka(1) fa(2) by (intro ready_add_ref [OF a(1)]) simp
  have rdb: "ready_future ?s2 b (vb\<lparr>fu_refcount := kb\<rparr>)" using kb(1) fb(2) by (intro ready_add_ref [OF b(1)]) simp
  have out: "out_ready nodes closed ?s2 (Suc ?n) ?n (out_future s)"
    using out_pending_ready [OF T, of s] by (simp add: out_ready_def pending_future_def)
  let ?s3 = "(fulfilled E (Suc ?n) ?n (out_future s) ?r ?s2)\<lparr>zip_ctxs := zip_ctxs s, futures := (futures s)(?n \<mapsto> settled ?r (out_future s))\<rparr>"
  have idem: "(zip_ctxs s)(?n + 4 := None) = zip_ctxs s" using fresh(2) by (simp add: fun_upd_idem)
  have F: "(add_ref (- 1) b (add_ref (- 1) a (?G(?n \<mapsto> out_future s))))(?n \<mapsto> settled ?r (out_future s)) =
      (futures s)(?n \<mapsto> settled ?r (out_future s))"
    using fa(2) fb(2) by (simp add: add_ref_upd add_ref_cancel)
  have kc': "add_ref (- 1) a (futures ?s2) b = Some (vb\<lparr>fu_refcount := kc\<rparr>)" using kc(1) fa(2) fb(2) by (simp add: add_ref_upd)
  have ctx: "zip_ctxs ?s2 (?n + 4) = Some ?m" by simp
  have k: "fu_refcount (va\<lparr>fu_refcount := ka\<rparr>) \<noteq> 1" "fu_refcount (vb\<lparr>fu_refcount := kc\<rparr>) \<noteq> 1" using ka(2) kc(2) by simp_all
  note reg = zip_registrations [OF T out ctx app rda k(1) fa(2) rdb fb(2) kc' k(2), of d]
  have "UfsrvFutureZipEx E ?D (Some a) (Some b) (Some z) x fr s = Inr (Some ?n, ?s3)"
    using create_ok [OF ok, of E] malloc_ctx [OF ok, of E] ra rb reg F idem
    by (simp add: UfsrvFutureZipEx_def sFutureZip_def out_pending_ctx del: rx_dispatch.simps fun_upd_apply)
  then show ?thesis
    using fresh(1) by (intro exI [of _ ?s3]) (auto simp: fresh_heaps_def fun_upd_idem)
qed

theorem zip_on_ready_witness:
  "\<exists>s'. UfsrvFutureZipEx base_env (rx_dispatch base_env (Suc 0)) (Some 16) (Some 20) (Some ''z'') NULL None demo_ready = Inr (Some 28, s') \<and>
    (\<exists>v. futures s' 28 = Some v \<and> res_value (fu_result v) = Some 12) \<and> zip_ctxs s' = zip_ctxs demo_ready"
  using zip_on_ready [OF base_laws demo_ready_facts(4,14,5) demo_ready_facts(1) _ demo_ready_facts(2), of "''z''" NULL "\<lambda>x y. Some (the x + the y)" 0 None]
  by (auto simp: zip_result_def demo_ready_facts simp del: rx_dispatch.simps)

end
