(* ===== verification/Example_Chain.thy ===== *)
theory Example_Chain
  imports Future_Operators Future_Spec
begin

text \<open>
  The example program \<^verbatim>\<open>examples/cancellation_chain.c\<close>: a token attached to the first stage of
  a pipeline cancels the whole chain, through flatMap to the future that the mapper returned.  The
  program runs on one thread, so its \<^verbatim>\<open>main\<close> is one program over the library's state; it uses
  promises, futures, flatMap, continuations and the cancellation token together.
\<close>

section \<open>The program\<close>

text \<open>
  The locals of \<^verbatim>\<open>main\<close> that its callbacks reach through pointers, the integers it allocates, and
  the lines it prints, one constructor for each \<^verbatim>\<open>printf\<close>.
\<close>

datatype chain_fn = Fn_sFetchOrders | Fn_sOnDone

datatype chain_line = Query_pending bool | Pipeline_cancelled | Pipeline_done int | Pipeline_failed int | Inner_ready bool

record chain_app =
  oc_inner_promise :: ptr
  oc_inner_future :: ptr
  ca_done :: int
  ca_ints :: "addr \<rightharpoonup> int"
  ca_out :: "chain_line list"

type_synonym ('q, 't, 'n, 'z) chain_env = "(chain_app, chain_fn, 'q, 't, 'n, 'z) fenv"
type_synonym ('q, 't, 'n, 'z, 'a) chain_prog = "(chain_app, chain_fn, 'q, 't, 'n, 'z, 'a) fprog"

definition in_app :: "(chain_app \<Rightarrow> chain_app) \<Rightarrow> ('q, 't, 'n, 'z, unit) chain_prog" where
  "in_app g = modify (\<lambda>s. s\<lparr>user := g (user s)\<rparr>)"

definition put_line :: "chain_line \<Rightarrow> ('q, 't, 'n, 'z, unit) chain_prog" where
  "put_line l = in_app (\<lambda>u. u\<lparr>ca_out := ca_out u @ [l]\<rparr>)"

text \<open>An \<^verbatim>\<open>int\<close> on the heap: \<^verbatim>\<open>*p\<close> and \<^verbatim>\<open>free(p)\<close>.\<close>

definition int_at :: "ptr \<Rightarrow> ('q, 't, 'n, 'z, int) chain_prog" where
  "int_at p = deref p (obj_at (\<lambda>s. ca_ints (user s)))"

definition free_int :: "ptr \<Rightarrow> ('q, 't, 'n, 'z, unit) chain_prog" where
  "free_int p =
     (case p of
        None \<Rightarrow> ret ()
      | Some a \<Rightarrow> bindm (int_at p) (\<lambda>_. in_app (\<lambda>u. u\<lparr>ca_ints := (ca_ints u)(a := None)\<rparr>)))"

definition sFetchOrders :: "('q, 't, 'n, 'z) chain_env \<Rightarrow> ptr \<Rightarrow> ptr \<Rightarrow> ('q, 't, 'n, 'z, ptr) chain_prog" where
  "sFetchOrders E value_ptr context_ptr =
     bindm (UfsrvPromiseCreate E True) (\<lambda>r.
     let orders_promise = map_option fst r; orders = map_option snd r in
     bindm (in_app (\<lambda>u. u\<lparr>oc_inner_promise := orders_promise\<rparr>)) (\<lambda>_.
     bindm (in_app (\<lambda>u. u\<lparr>oc_inner_future := orders\<rparr>)) (\<lambda>_.
     ret orders)))"

definition sOnDone :: "addr \<Rightarrow> ptr \<Rightarrow> ('q, 't, 'n, 'z, unit) chain_prog" where
  "sOnDone result_of context_ptr =
     bindm (future_at result_of) (\<lambda>v.
     bindm (if res_error (fu_result v) = ECANCELED then put_line Pipeline_cancelled
            else if res_error (fu_result v) = 0
            then bindm (int_at (res_value (fu_result v))) (\<lambda>k. put_line (Pipeline_done k))
            else put_line (Pipeline_failed (res_error (fu_result v)))) (\<lambda>_.
     in_app (\<lambda>u. u\<lparr>ca_done := 1\<rparr>)))"

text \<open>The library with the program's functions behind its function pointers.\<close>

definition chain_lib :: "('q, 't, 'n, 'z) chain_env \<Rightarrow> ('q, 't, 'n, 'z) chain_env" where
  "chain_lib E = E\<lparr>env_free := free_int, app_flatmap := (\<lambda>_. sFetchOrders E), app_then := (\<lambda>_. sOnDone)\<rparr>"

text \<open>The first part of \<^verbatim>\<open>main\<close> builds the pipeline: the source, its token, the flatMap stage and the continuation.\<close>

definition chain_build ::
  "('q, 't, 'n, 'z) chain_env \<Rightarrow> (chain_app, chain_fn, 'q, 't, 'n, 'z) fcall \<Rightarrow> ptr \<Rightarrow> ptr \<Rightarrow>
   ('q, 't, 'n, 'z, ptr \<times> ptr \<times> ptr \<times> ptr) chain_prog" where
  "chain_build E call orders_ctx done =
     bindm (UfsrvPromiseCreate E True) (\<lambda>r.
     let src_promise = map_option fst r; src = map_option snd r in
     bindm UfsrvCancellationTokenCreate (\<lambda>token.
     bindm (UfsrvFutureAttachCancellation E call src token) (\<lambda>_.
     bindm (in_app (\<lambda>u. u\<lparr>oc_inner_promise := NULL, oc_inner_future := NULL\<rparr>)) (\<lambda>_.
     bindm (UfsrvFutureFlatMap E call src (Some Fn_sFetchOrders) orders_ctx) (\<lambda>orders.
     bindm (in_app (\<lambda>u. u\<lparr>ca_done := 0\<rparr>)) (\<lambda>_.
     bindm (UfsrvFutureThen E call orders (Some (K_user Fn_sOnDone)) done) (\<lambda>_.
     ret (src_promise, src, token, orders))))))))"

text \<open>The second part completes the source, which starts the query that stays pending.\<close>

definition chain_fetch ::
  "('q, 't, 'n, 'z) chain_env \<Rightarrow> (chain_app, chain_fn, 'q, 't, 'n, 'z) fcall \<Rightarrow> ptr \<Rightarrow> ('q, 't, 'n, 'z, unit) chain_prog" where
  "chain_fetch E call src_promise =
     bindm malloc (\<lambda>user_id.
     bindm (deref user_id (\<lambda>a. in_app (\<lambda>u. u\<lparr>ca_ints := (ca_ints u)(a \<mapsto> 42)\<rparr>))) (\<lambda>_.
     bindm (UfsrvPromiseSetValue E call src_promise user_id (Some F_free)) (\<lambda>_.
     bindm (UfsrvPromiseDestroy E call src_promise) (\<lambda>_.
     bindm (gets (\<lambda>s. oc_inner_future (user s))) (\<lambda>inner_future.
     bindm (UfsrvFutureIsReady inner_future) (\<lambda>ready.
     put_line (Query_pending (\<not> ready))))))))"

text \<open>
  The program's wait for \<open>done\<close> polls; nobody else runs, so it never ends when \<open>done\<close> is not set.
  The addresses of the locals \<open>orders_ctx\<close> and \<open>done\<close> are passed and never compared.
\<close>

definition poll_done :: "('q, 't, 'n, 'z, unit) chain_prog" where
  "poll_done = bindm (gets (\<lambda>s. ca_done (user s))) (\<lambda>d. if d = 0 then fail Deadlock else ret ())"

definition chain_finish ::
  "('q, 't, 'n, 'z) chain_env \<Rightarrow> (chain_app, chain_fn, 'q, 't, 'n, 'z) fcall \<Rightarrow> ptr \<Rightarrow> ptr \<Rightarrow> ptr \<Rightarrow> ('q, 't, 'n, 'z, unit) chain_prog" where
  "chain_finish E call src token orders =
     bindm (UfsrvCancellationTokenCancel (vcall call) (env_fuel E) token) (\<lambda>_.
     bindm poll_done (\<lambda>_.
     bindm (gets (\<lambda>s. oc_inner_future (user s))) (\<lambda>inner_future.
     bindm (UfsrvFutureIsReady inner_future) (\<lambda>ready.
     bindm (put_line (Inner_ready ready)) (\<lambda>_.
     bindm (UfsrvFutureRelease E call orders) (\<lambda>_.
     bindm (UfsrvFutureRelease E call src) (\<lambda>_.
     bindm (gets (\<lambda>s. oc_inner_promise (user s))) (\<lambda>inner_promise.
     bindm (UfsrvPromiseDestroy E call inner_promise) (\<lambda>_.
     UfsrvCancellationTokenDestroy (vcall call) (env_fuel E) token)))))))))"

definition chain_main ::
  "('q, 't, 'n, 'z) chain_env \<Rightarrow> (chain_app, chain_fn, 'q, 't, 'n, 'z) fcall \<Rightarrow> ptr \<Rightarrow> ptr \<Rightarrow> ('q, 't, 'n, 'z, int) chain_prog" where
  "chain_main E call orders_ctx done =
     bindm (chain_build E call orders_ctx done) (\<lambda>(src_promise, src, token, orders).
     bindm (chain_fetch E call src_promise) (\<lambda>_.
     bindm (chain_finish E call src token orders) (\<lambda>_.
     ret 0)))"

text \<open>The functions of the library that the program reaches, for running it symbolically.\<close>

lemmas run_defs = UfsrvPromiseCreate_def stack_create_def stack_destroy_def UfsrvCancellationTokenCreate_def UfsrvFutureAttachCancellation_def
  UfsrvCancellationTokenRetainInternal_def UfsrvFutureRetain_def UfsrvCancellationTokenRegisterEx_def token_mutex_lock_def token_mutex_unlock_def cb_list_link_def
  cb_list_unlink_def UfsrvFutureFlatMap_def UfsrvFutureThen_def sFutureThen_def sPushContinuation_def stack_push_def sNodeRelease_def cont_release_def
  inherit_token_def UfsrvPromiseSetValue_def UfsrvPromiseSetResult_def sFutureComplete_def stack_steal_all_and_close_def sDrainContinuations_def sDrainWaiters_def
  sRunContinuation_def cont_claim_def UfsrvPromiseDestroy_def UfsrvFutureRelease_def drop_value_def UfsrvCancellationTokenUnregister_def sNodeFree_def sTokenRelease_def
  UfsrvFutureIsReady_def UfsrvCancellationTokenCancel_def sNodeDropRef_def UfsrvCancellationTokenDestroy_def rx_handler_def sFlatMapContinuation_def sDropContextToken_def
  sConsumeOnce_def sMoveChainContinuation_def sFutureCancelCallback_def sFutureCancelRelease_def zero_future_def error_result_def malloc_def Let_def

text \<open>A process that has allocated none of the objects the program uses.\<close>

definition nothing_allocated :: "(chain_app, chain_fn, 'q, 't, 'n, 'z) future_sys_scheme \<Rightarrow> bool" where
  "nothing_allocated s \<longleftrightarrow>
     futures s = Map.empty \<and> promises s = Map.empty \<and> stacks s = Map.empty \<and> conts s = Map.empty \<and> flatmap_ctxs s = Map.empty \<and>
     tokens s = Map.empty \<and> callbacks s = Map.empty \<and> ca_ints (user s) = Map.empty"

lemmas chain_dels = bindm_assoc bindm_Inr bindm_Inl

lemmas chain_run_defs = chain_lib_def in_app_def put_line_def int_at_def free_int_def sFetchOrders_def sOnDone_def poll_done_def run_defs bindm_def
  split_def ECANCELED_def

text \<open>The program run symbolically, phase by phase.\<close>

lemma chain_main_runs:
  assumes T: "treiber_laws (env_ts E) nodes closed refs claimed" and s: "nothing_allocated s" "ca_out (user s) = []" and ok: "\<And>n. sys_ok s n"
    and fuel: "env_fuel E = Suc (Suc m)"
  shows "\<exists>s'. chain_main (chain_lib E) (rx_dispatch (chain_lib E) (Suc (Suc (Suc (Suc d))))) x y s = Inr (0, s') \<and>
     nothing_allocated s' \<and> ca_out (user s') = [Query_pending True, Pipeline_cancelled, Inner_ready True]"
  using s ok
  apply (simp add: nothing_allocated_def treiber_lawsD [OF T] chain_main_def chain_build_def fuel chain_run_defs del: chain_dels rx_dispatch.simps)
  apply (simp add: treiber_lawsD [OF T] chain_fetch_def fuel chain_run_defs del: chain_dels)
  apply (simp add: treiber_lawsD [OF T] chain_finish_def fuel chain_run_defs del: chain_dels)
  done


definition chain_start :: chain_app where
  "chain_start = \<lparr>oc_inner_promise = NULL, oc_inner_future = NULL, ca_done = 0, ca_ints = Map.empty, ca_out = []\<rparr>"


end
