(* ===== verification/Spec2Isabelle.thy ===== *)
theory Spec2Isabelle
  imports Cancellation_Spec Cancellation_Conc_Spec Scheduler_Spec Scheduler_Describe_Spec Coroutine_Spec
    Future_Conc_Spec Future_Wait_Spec Future_Combine_Spec Future_Any_Spec Future_Zip_Spec Example_Chain
begin

text \<open>
  A verification of ufsrvrxlib, a C library of futures, cancellation tokens, coroutines and
  schedulers.

  \<^bold>\<open>The program.\<close>  A \<^emph>\<open>scheduler\<close> (\<^verbatim>\<open>src/src/ufsrv_scheduler/ufsrv_scheduler.c\<close>) is a worker thread
  that sleeps on an eventfd and drains a queue of jobs; a \<^emph>\<open>pool\<close> distributes jobs over several of
  them.  A \<^emph>\<open>coroutine\<close> (\<^verbatim>\<open>src/src/ufsrv_coroutine/ufsrv_coroutine.c\<close>) is created on a thread and
  resumed by a job of a scheduler.  A \<^emph>\<open>future\<close> (\<^verbatim>\<open>src/src/ufsrv_future/ufsrv_future.c\<close>) is
  completed once through its promise; completion runs the registered continuations, writes the
  eventfd of every blocked thread and submits a resume job for every waiting coroutine.  A
  \<^emph>\<open>cancellation token\<close> (\<^verbatim>\<open>src/src/ufsrv_cancellation/ufsrv_cancellation.c\<close>) keeps a list of
  callbacks; a future attached to a token registers one that completes it with \<open>ECANCELED\<close>.  The
  operators (map, flatMap, onError, doOnSuccess, all, any, zip) are contexts and continuations
  over futures.

  \<^bold>\<open>How the code is modelled.\<close>  A C function is a program of type \<open>'s \<Rightarrow> fault + 'a \<times> 's\<close> over
  the state of the process (\<open>Rx_Prelude\<close>); \<open>bindm\<close> sequences them.  The state is a record that each
  component extends: every C struct is a record, every heap a map from addresses to that record,
  \<open>NULL\<close> is \<open>None\<close>.  Reading or freeing an address that is not allocated is the fault
  \<open>UseAfterFree\<close>, taking a mutex twice a deadlock fault, so a theorem that a program returns
  \<open>Inr\<close> also says that it does none of these.  \<open>malloc\<close> and the system calls fail where the
  predicate \<open>sys_ok\<close> of the state says so; it is arbitrary, so every out-of-memory branch is
  covered.  Thread-local variables are functions of the thread number, the field \<open>user\<close> is the
  application's own state.  A function pointer is a value of the datatypes \<open>fnp\<close> and \<open>contfn\<close>;
  calling one goes through \<open>rx_dispatch\<close>.

  \<^bold>\<open>Theories.\<close>
  \<^item> \<open>Rx_Prelude\<close>: programs, heaps, allocation, eventfds and their automation.
    \<open>Intrusive_List\<close>: the locale of doubly linked lists embedded in structs, used by the callback
    list of a token and the list of unstarted coroutines.  \<open>Simulation\<close>: the locale of
    interleavings (lists of atomic actions) that an abstract machine simulates, interpreted for
    the scheduler, the futures and the tokens.
  \<^item> \<open>Cancellation\<close>: the token code, function by function.  \<open>Cancellation_Inv\<close> and
    \<open>Cancellation_Ops\<close>: the invariant (reference counts equal the owners, the list is well formed)
    and its preservation.  \<open>Cancellation_Spec\<close>: the code refines an abstract registry, callbacks
    run exactly once, nothing leaks.  \<open>Cancellation_Conc\<close>, \<open>Cancellation_Race\<close>, \<open>Cancellation_Sim\<close>
    and \<open>Cancellation_Conc_Spec\<close>: \<open>RegisterEx\<close>, \<open>Unregister\<close> and \<open>Cancel\<close> cut at their critical
    sections and calls, any number of threads interleaved: no use after free, each callback and hook at
    most once and in order, agreement between unregistering and cancelling, no leak, termination.
  \<^item> \<open>Scheduler\<close>: the functions, with the worker thread as the step function \<open>sWorkerMain_step\<close>.
    \<open>Scheduler_Conc\<close>: all interleavings of submitters, a stopper and the worker, simulated by an
    abstract machine.  \<open>Scheduler_Spec\<close>: first in first out, no lost wake-up, stop drains.
    \<open>Scheduler_Pool\<close> and \<open>Scheduler_Pool_Spec\<close>: the pool, its 32-bit round-robin counter and names.
    \<open>Scheduler_Describe\<close> and \<open>Scheduler_Describe_Spec\<close>: the JSON description of a pool, which is a
    document of the JSON grammar, and the block of worker names.
  \<^item> \<open>Coroutine\<close> and \<open>Coroutine_Spec\<close>: thread state, unstarted list, trampoline, resume jobs; the
    state of a thread stays well formed whichever allocation fails, and the teardown destroys each
    unstarted coroutine once.
  \<^item> \<open>Future\<close> (completion, then, release, promises), \<open>Future_Wait\<close> (get, cancellable get, attach),
    \<open>Future_Operators\<close> (the operators and \<open>rx_dispatch\<close>): the code of \<^verbatim>\<open>ufsrv_future.c\<close> in order.
  \<^item> \<open>Future_Spec\<close>: the effect of draining, completing, creating and releasing.
    \<open>Future_Refinement\<close>: a future refines a write-once cell with waiting continuations, and every
    accepted continuation runs exactly once.  \<open>Future_Properties\<close>: promises, blocked threads and
    get.  \<open>Future_Conc\<close>, \<open>Future_Conc_Sim\<close> and \<open>Future_Conc_Spec\<close>: \<open>sFutureThen\<close> and
    \<open>sFutureComplete\<close> cut at their atomic operations, any number of threads in both interleaved:
    one winner, no continuation lost or run twice, no node leaked, no thread waits for another.
    \<open>Future_Wait_Conc\<close>, \<open>Future_Wait_Sim\<close> and \<open>Future_Wait_Spec\<close>: the same for plain threads that
    block in \<open>UfsrvFutureGet\<close> and threads that complete: the result is the published one, no wake-up
    is lost, and every waiter and eventfd is reclaimed.
    \<open>Future_Cancel_Spec\<close>: futures with tokens.  \<open>Future_Operators_Spec\<close>, \<open>Future_Chain_Spec\<close>,
    \<open>Future_Combine_Spec\<close>, \<open>Future_Any_Spec\<close>, \<open>Future_Zip_Spec\<close>: what each operator computes, what
    it does to its inputs, and that its context and output promise are freed.
  \<^item> \<open>Example_Chain\<close>: the program \<^verbatim>\<open>src/examples/cancellation_chain.c\<close>, run on the library as a
    whole: promises, flatMap, continuations and a token together.  It prints what it announces, its
    polling loop ends and everything it allocated is freed.

  \<^bold>\<open>Parameters.\<close>  uflib's queue and stack, libaco, and the application's functions are not part of
  the repository.  The MPSC queue is a record of operations with the hypothesis \<open>mpsc_fifo\<close> (a
  pop returns the oldest element); the Treiber stack and its nodes have the hypothesis
  \<open>treiber_laws\<close> (push fails exactly on a closed stack, steal-and-close returns the nodes most
  recent first, claiming succeeds once, releasing counts down); the buffer descriptor has
  \<open>buffer_laws\<close> (an append extends the text).  They are instantiated by lists,
  in \<open>list_queue\<close>, \<open>list_stack\<close> and \<open>string_buffer\<close>, and the witnesses run on these.  What other threads do while a
  thread sleeps in \<^verbatim>\<open>read\<close> is the parameter \<open>env_wait\<close>.

  \<^bold>\<open>Bounds and fuel.\<close>  Loops over linked lists take fuel; the theorems ask for at least the length
  of the list, and the scheduler's join for the number of queued jobs plus five worker steps.
  \<open>rx_dispatch\<close> takes the depth of nested callbacks; each theorem names the depth it needs (one
  or two, four for the example program), and running out is the fault \<open>OutOfFuel\<close>, which the theorems exclude.  Reference counts
  and counters of outstanding inputs are integers, since they are bounded by the number of live
  references; the round-robin counter is a 32-bit word, because its wrap-around matters.

  \<^bold>\<open>Concurrency.\<close>  The scheduler, the races between registering with and completing a
  future and between blocking on and completing one, and the race between registering with,
  unregistering from and cancelling a token are proved under all interleavings
  of their atomic actions.  The other functions of
  futures and coroutines run one after the other: each call is one step, with
  the application's and other threads' calls nested in it at the points where the code calls out
  or sleeps.  Memory orderings are not modelled; the C atomics are sequentially consistent.

  \<^bold>\<open>Not modelled.\<close>  The public headers hold declarations only.  The tests and the other examples are
  clients that run several threads and switch stacks through libaco, and the build files are tools.
  Thread names (\<^verbatim>\<open>pthread_setname_np\<close>) have no effect on behaviour.
\<close>

end
